(* ===== verification/Sponge_Prelude.thy ===== *)
theory Sponge_Prelude
  imports Main "HOL-Library.Word"
begin

text \<open>
  Shared vocabulary of the development: the machine integer types of the C++ sources, the
  error values that stand for exceptions and for undefined behaviour, the \<open>for\<close> loop
  combinator, and the lemmas on words, lists and loops that the component theories use.

  Sizes: the sources are compiled for a 64-bit platform, so \<open>size_t\<close>, \<open>uint64_t\<close> and
  \<open>unsigned long\<close> are 64-bit words and all arithmetic on them wraps around. A \<open>char\<close> or
  \<open>uint8_t\<close> is an 8-bit word; a \<open>std::string\<close> is a list of bytes.
\<close>

section \<open>Machine types\<close>

type_synonym u8 = "8 word"
type_synonym u16 = "16 word"
type_synonym u32 = "32 word"
type_synonym u64 = "64 word"
type_synonym bytes = "u8 list"

text \<open>The \<open>size()\<close> of a container, as the 64-bit value the code computes with.\<close>

definition size_t :: "'a list \<Rightarrow> u64" where
  "size_t xs = word_of_nat (length xs)"

section \<open>Errors\<close>

text \<open>
  What can stop a call early. \<open>UndefinedBehaviour\<close> stands for an access the C++ standard
  leaves undefined (an index past the end of a deque, \<open>front()\<close> of an empty container);
  the other constructors are the exceptions the sources and the standard library throw.
  \<open>UnixError\<close> and \<open>GaiError\<close> are the \<open>tagged_error\<close> of \<open>util.hh\<close> with the system's and with the
  resolver's error category; they carry what was attempted and the error code.
\<close>

datatype cpp_error =
    UndefinedBehaviour
  | OutOfRange string
  | RuntimeError string
  | UnixError string int
  | GaiError string int
  | LengthError string
  | InvalidArgument string

type_synonym 'a result = "cpp_error + 'a"

fun try_bind :: "'e + 'a \<Rightarrow> ('a \<Rightarrow> 'e + 'b) \<Rightarrow> 'e + 'b" where
  "try_bind (Inl e) f = Inl e"
| "try_bind (Inr x) f = f x"

text \<open>\<open>for (x : xs) s = body(x, s)\<close>, left by the first error the body raises.\<close>

fun for_each :: "'i list \<Rightarrow> ('i \<Rightarrow> 's \<Rightarrow> 'e + 's) \<Rightarrow> 's \<Rightarrow> 'e + 's" where
  "for_each [] body s = Inr s"
| "for_each (i # is) body s = try_bind (body i s) (for_each is body)"

named_theorems word_nat \<open>reading 64-bit arithmetic as arithmetic on natural numbers\<close>

lemma try_bind_eq_Inr [simp]:
  "try_bind m f = Inr y \<longleftrightarrow> (\<exists>x. m = Inr x \<and> f x = Inr y)"
  by (cases m) auto

lemma try_bind_assoc: "try_bind (try_bind m f) g = try_bind m (\<lambda>x. try_bind (f x) g)"
  by (cases m) auto

lemma for_each_append:
  "for_each (xs @ ys) body s = try_bind (for_each xs body s) (for_each ys body)"
proof (induction xs arbitrary: s)
  case (Cons x xs)
  then show ?case by (cases "body x s") simp_all
qed simp

text \<open>The total-correctness rule of a counted loop: an invariant indexed by the counter.\<close>

lemma for_each_upt_rule:
  assumes init: "I 0 s"
    and step: "\<And>k s. k < n \<Longrightarrow> I k s \<Longrightarrow> \<exists>s'. body k s = Inr s' \<and> I (Suc k) s'"
  shows "\<exists>s'. for_each [0..<n] body s = Inr s' \<and> I n s'"
  using step
proof (induction n)
  case 0
  with init show ?case by simp
next
  case (Suc n)
  then obtain t where t: "for_each [0..<n] body s = Inr t" "I n t"
    by (metis less_SucI)
  with Suc.prems [of n t] obtain s' where "body n t = Inr s'" "I (Suc n) s'"
    by auto
  with t show ?case by (simp add: for_each_append)
qed

section \<open>Words\<close>

lemma unat_lt_two64 [simp]: "unat (x :: u64) < 18446744073709551616"
  using unsigned_less [where 'a = nat and w = x] by simp

lemma unat_add_small [word_nat]:
  "unat x + unat y < 2 ^ 64 \<Longrightarrow> unat (x + y :: u64) = unat x + unat y"
  using unat_add_lem [of x y] by simp

lemma unat_of_nat_small [word_nat]: "n < 2 ^ 64 \<Longrightarrow> unat (word_of_nat n :: u64) = n"
  by (simp add: unat_of_nat)

lemma unat_size_t [word_nat]: "length xs < 2 ^ 64 \<Longrightarrow> unat (size_t xs) = length xs"
  by (simp add: size_t_def unat_of_nat)

lemmas word_order_nat [word_nat] = word_le_nat_alt word_less_nat_alt

lemma unat_min [word_nat]: "unat (min x y :: u64) = min (unat x) (unat y)"
  by (simp add: min_def word_le_nat_alt)

lemma unat_max [word_nat]: "unat (max x y :: u64) = max (unat x) (unat y)"
  by (simp add: max_def word_le_nat_alt)

lemma word_of_nat_eq_unat_iff:
  "n < 2 ^ 64 \<Longrightarrow> (word_of_nat n = (x :: u64)) \<longleftrightarrow> n = unat x"
  by (metis unat_of_nat_small word_eq_iff_unsigned)

lemma eq_word_of_nat: "unat (x :: u64) = n \<Longrightarrow> x = word_of_nat n"
  by (metis of_nat_unat ucast_id)

lemma size_t_Nil [simp]: "size_t [] = 0"
  by (simp add: size_t_def)

lemma size_t_append: "size_t (xs @ ys) = size_t xs + size_t ys"
  by (simp add: size_t_def)

lemma size_t_drop: "n \<le> length xs \<Longrightarrow> size_t (drop n xs) = size_t xs - word_of_nat n"
  by (simp add: size_t_def)

section \<open>Lists\<close>

lemma fold_snoc_upt: "fold (\<lambda>i b. b @ [f i]) [0..<n] b0 = b0 @ map f [0..<n]"
  by (induction n) auto

lemma map_nth_upt_take: "n \<le> length xs \<Longrightarrow> map (\<lambda>i. xs ! i) [0..<n] = take n xs"
  by (rule nth_equalityI) auto

end
