(* ===== verification/Byte_Stream.thy ===== *)
theory Byte_Stream
  imports Sponge_Prelude
begin

text \<open>
  The flow-controlled in-memory stream of \<open>byte_stream.hh\<close> and \<open>byte_stream.cc\<close>: the class
  \<open>ByteStream\<close> as a record, one definition per method, the invariant that ties the counters to
  the buffer, and the locale \<open>byte_channel\<close> with the contract its writers and readers use.
  A method that changes the stream returns the new stream, paired with its result if it has one.
\<close>

section \<open>Definitions\<close>

record ByteStream =
  bs_buffer :: bytes
  bs_capacity :: u64
  bs_end_write :: bool
  bs_end_read :: bool
  bs_written_bytes :: u64
  bs_read_bytes :: u64
  bs_error :: bool

definition ByteStream_new :: "u64 \<Rightarrow> ByteStream" where
  "ByteStream_new capa =
     \<lparr>bs_buffer = [], bs_capacity = capa, bs_end_write = False, bs_end_read = False,
      bs_written_bytes = 0, bs_read_bytes = 0, bs_error = False\<rparr>"

definition ByteStream_set_error :: "ByteStream \<Rightarrow> ByteStream" where
  "ByteStream_set_error s = s\<lparr>bs_error := True\<rparr>"

definition ByteStream_error :: "ByteStream \<Rightarrow> bool" where
  "ByteStream_error s = bs_error s"

definition ByteStream_write :: "ByteStream \<Rightarrow> bytes \<Rightarrow> ByteStream \<times> u64" where
  "ByteStream_write s data =
     (let canWrite = bs_capacity s - size_t (bs_buffer s);
          realWrite = min canWrite (size_t data);
          buffer' = fold (\<lambda>i b. b @ [data ! i]) [0..<unat realWrite] (bs_buffer s)
      in (s\<lparr>bs_buffer := buffer', bs_written_bytes := bs_written_bytes s + realWrite\<rparr>, realWrite))"

definition ByteStream_peek_output :: "ByteStream \<Rightarrow> u64 \<Rightarrow> bytes" where
  "ByteStream_peek_output s len =
     (let canPeek = min len (size_t (bs_buffer s))
      in fold (\<lambda>i out. out @ [bs_buffer s ! i]) [0..<unat canPeek] [])"

definition ByteStream_pop_output :: "ByteStream \<Rightarrow> u64 \<Rightarrow> ByteStream" where
  "ByteStream_pop_output s len =
     (if size_t (bs_buffer s) < len then ByteStream_set_error s
      else let buffer' = fold (\<lambda>_ b. tl b) [0..<unat len] (bs_buffer s)
           in s\<lparr>bs_buffer := buffer', bs_read_bytes := bs_read_bytes s + len\<rparr>)"

definition ByteStream_read :: "ByteStream \<Rightarrow> u64 \<Rightarrow> ByteStream \<times> bytes" where
  "ByteStream_read s len =
     (if size_t (bs_buffer s) < len then (ByteStream_set_error s, [])
      else let (out, buffer') =
             fold (\<lambda>_ (out, b). (out @ [hd b], tl b)) [0..<unat len] ([], bs_buffer s)
           in (s\<lparr>bs_buffer := buffer', bs_read_bytes := bs_read_bytes s + len\<rparr>, out))"

definition ByteStream_end_input :: "ByteStream \<Rightarrow> ByteStream" where
  "ByteStream_end_input s = s\<lparr>bs_end_write := True\<rparr>"

definition ByteStream_input_ended :: "ByteStream \<Rightarrow> bool" where
  "ByteStream_input_ended s = bs_end_write s"

definition ByteStream_buffer_size :: "ByteStream \<Rightarrow> u64" where
  "ByteStream_buffer_size s = size_t (bs_buffer s)"

definition ByteStream_buffer_empty :: "ByteStream \<Rightarrow> bool" where
  "ByteStream_buffer_empty s = (bs_buffer s = [])"

definition ByteStream_eof :: "ByteStream \<Rightarrow> bool" where
  "ByteStream_eof s = (bs_buffer s = [] \<and> bs_end_write s)"

definition ByteStream_bytes_written :: "ByteStream \<Rightarrow> u64" where
  "ByteStream_bytes_written s = bs_written_bytes s"

definition ByteStream_bytes_read :: "ByteStream \<Rightarrow> u64" where
  "ByteStream_bytes_read s = bs_read_bytes s"

definition ByteStream_remaining_capacity :: "ByteStream \<Rightarrow> u64" where
  "ByteStream_remaining_capacity s = bs_capacity s - size_t (bs_buffer s)"

lemmas bs_accessor_defs =
  ByteStream_input_ended_def ByteStream_buffer_size_def ByteStream_buffer_empty_def
  ByteStream_eof_def ByteStream_bytes_written_def ByteStream_bytes_read_def
  ByteStream_remaining_capacity_def ByteStream_error_def

section \<open>The loops\<close>

lemma fold_tl_upt: "fold (\<lambda>_ b. tl b) [0..<n] b0 = drop n b0"
  by (induction n) (auto simp: drop_Suc tl_drop)

lemma fold_front_upt:
  "n \<le> length b0 \<Longrightarrow>
   fold (\<lambda>_ (out, b). (out @ [hd b], tl b)) [0..<n] (out0, b0) = (out0 @ take n b0, drop n b0)"
proof (induction n)
  case (Suc n)
  then show ?case
    by (simp add: take_Suc_conv_app_nth hd_drop_conv_nth drop_Suc tl_drop)
qed simp

section \<open>Invariant and behaviour of the operations\<close>

text \<open>
  The buffer never exceeds the capacity, and the two counters differ by the buffer's length
  (modulo \<open>2^64\<close>, so the law survives a wrap-around of the counters).
\<close>

definition bs_inv :: "ByteStream \<Rightarrow> bool" where
  "bs_inv s \<longleftrightarrow> length (bs_buffer s) \<le> unat (bs_capacity s)
     \<and> bs_written_bytes s = bs_read_bytes s + size_t (bs_buffer s)"

definition bs_room :: "ByteStream \<Rightarrow> nat" where
  "bs_room s = unat (bs_capacity s) - length (bs_buffer s)"

lemma bs_inv_length: "bs_inv s \<Longrightarrow> length (bs_buffer s) < 2 ^ 64"
  by (rule le_less_trans [of _ "unat (bs_capacity s)"]) (simp_all add: bs_inv_def)

lemma bs_inv_new [simp]: "bs_inv (ByteStream_new c)"
  by (simp add: bs_inv_def ByteStream_new_def)

lemma unat_remaining:
  assumes "bs_inv s"
  shows "unat (ByteStream_remaining_capacity s) = bs_room s"
proof -
  have "size_t (bs_buffer s) \<le> bs_capacity s"
    using assms bs_inv_length [OF assms] by (simp add: word_nat bs_inv_def)
  then show ?thesis
    using bs_inv_length [OF assms]
    by (simp add: ByteStream_remaining_capacity_def bs_room_def unat_sub word_nat)
qed

lemma write_eq:
  assumes inv: "bs_inv s" and len: "length data < 2 ^ 64"
  defines "n \<equiv> min (bs_room s) (length data)"
  shows "ByteStream_write s data =
    (s\<lparr>bs_buffer := bs_buffer s @ take n data,
       bs_written_bytes := bs_written_bytes s + word_of_nat n\<rparr>, word_of_nat n)"
proof -
  let ?r = "min (ByteStream_remaining_capacity s) (size_t data)"
  have "unat ?r = n"
    using unat_remaining [OF inv] len by (simp add: n_def word_nat)
  then have r: "?r = word_of_nat n" and n: "unat ?r = n"
    by (simp_all add: eq_word_of_nat)
  have "n \<le> length data" by (simp add: n_def)
  then have "fold (\<lambda>i b. b @ [data ! i]) [0..<unat ?r] (bs_buffer s) = bs_buffer s @ take n data"
    by (simp add: n fold_snoc_upt map_nth_upt_take)
  then show ?thesis
    using r by (simp add: ByteStream_write_def Let_def ByteStream_remaining_capacity_def)
qed

lemma peek_eq:
  assumes "bs_inv s"
  shows "ByteStream_peek_output s len = take (unat len) (bs_buffer s)"
  using bs_inv_length [OF assms]
  by (simp add: ByteStream_peek_output_def Let_def fold_snoc_upt map_nth_upt_take word_nat
      min_def)

lemma pop_eq:
  assumes "bs_inv s"
  shows "ByteStream_pop_output s len =
    (if unat len \<le> length (bs_buffer s)
     then s\<lparr>bs_buffer := drop (unat len) (bs_buffer s), bs_read_bytes := bs_read_bytes s + len\<rparr>
     else s\<lparr>bs_error := True\<rparr>)"
  using bs_inv_length [OF assms]
  by (simp add: ByteStream_pop_output_def Let_def fold_tl_upt word_nat ByteStream_set_error_def
      linorder_not_le)

lemma read_eq:
  assumes "bs_inv s"
  shows "ByteStream_read s len =
    (if unat len \<le> length (bs_buffer s)
     then (s\<lparr>bs_buffer := drop (unat len) (bs_buffer s), bs_read_bytes := bs_read_bytes s + len\<rparr>,
           take (unat len) (bs_buffer s))
     else (s\<lparr>bs_error := True\<rparr>, []))"
  using bs_inv_length [OF assms]
  by (simp add: ByteStream_read_def Let_def fold_front_upt word_nat ByteStream_set_error_def
      linorder_not_le)

lemma bs_inv_write:
  assumes "bs_inv s" and "length data < 2 ^ 64"
  shows "bs_inv (fst (ByteStream_write s data))"
  using assms by (auto simp: write_eq bs_inv_def bs_room_def size_t_append size_t_def)

lemma bs_inv_pop: "bs_inv s \<Longrightarrow> bs_inv (ByteStream_pop_output s len)"
  by (auto simp: pop_eq bs_inv_def size_t_drop)

lemma bs_inv_read: "bs_inv s \<Longrightarrow> bs_inv (fst (ByteStream_read s len))"
  by (auto simp: read_eq bs_inv_def size_t_drop)

lemma bs_inv_end_input [simp]: "bs_inv (ByteStream_end_input s) = bs_inv s"
  by (simp add: bs_inv_def ByteStream_end_input_def)

lemma bs_inv_set_error [simp]: "bs_inv (ByteStream_set_error s) = bs_inv s"
  by (simp add: bs_inv_def ByteStream_set_error_def)

section \<open>The contract of a byte channel\<close>

text \<open>
  What a component that writes to or reads from a stream may rely on: bytes go in at one end and
  come out at the other, in order and unchanged, and a channel accepts as many as it has room for.
\<close>

datatype channel_op = Put bytes | Get u64

fun channel_run ::
  "('s \<Rightarrow> bytes \<Rightarrow> 's \<times> u64) \<Rightarrow> ('s \<Rightarrow> u64 \<Rightarrow> 's \<times> bytes) \<Rightarrow> channel_op list \<Rightarrow> 's
     \<Rightarrow> 's \<times> bytes \<times> bytes" where
  "channel_run put get [] s = (s, [], [])"
| "channel_run put get (Put d # ops) s =
     (let (s1, n) = put s d; (s2, accepted, taken) = channel_run put get ops s1
      in (s2, take (unat n) d @ accepted, taken))"
| "channel_run put get (Get n # ops) s =
     (let (s1, d) = get s n; (s2, accepted, taken) = channel_run put get ops s1
      in (s2, accepted, d @ taken))"

fun op_fits :: "channel_op \<Rightarrow> bool" where
  "op_fits (Put d) \<longleftrightarrow> length d < 2 ^ 64"
| "op_fits (Get n) \<longleftrightarrow> True"

locale byte_channel =
  fixes put :: "'s \<Rightarrow> bytes \<Rightarrow> 's \<times> u64"
    and get :: "'s \<Rightarrow> u64 \<Rightarrow> 's \<times> bytes"
    and held :: "'s \<Rightarrow> bytes"
    and room :: "'s \<Rightarrow> nat"
    and inv :: "'s \<Rightarrow> bool"
  assumes put_inv: "inv s \<Longrightarrow> length d < 2 ^ 64 \<Longrightarrow> inv (fst (put s d))"
    and put_count: "inv s \<Longrightarrow> length d < 2 ^ 64 \<Longrightarrow> unat (snd (put s d)) = min (room s) (length d)"
    and put_held: "inv s \<Longrightarrow> length d < 2 ^ 64 \<Longrightarrow>
      held (fst (put s d)) = held s @ take (min (room s) (length d)) d"
    and put_room: "inv s \<Longrightarrow> length d < 2 ^ 64 \<Longrightarrow>
      room (fst (put s d)) = room s - min (room s) (length d)"
    and get_inv: "inv s \<Longrightarrow> inv (fst (get s n))"
    and get_split: "inv s \<Longrightarrow> held s = snd (get s n) @ held (fst (get s n))"
    and get_room: "inv s \<Longrightarrow> room (fst (get s n)) = room s + length (snd (get s n))"
    and get_count: "inv s \<Longrightarrow> unat n \<le> length (held s) \<Longrightarrow> length (snd (get s n)) = unat n"
begin

text \<open>A writer that stays within the room loses nothing.\<close>

lemma put_all:
  assumes "inv s" and "length d < 2 ^ 64" and "length d \<le> room s"
  shows "unat (snd (put s d)) = length d" and "held (fst (put s d)) = held s @ d"
  using assms by (simp_all add: put_count put_held)

text \<open>Over any interleaving of writes and reads, what comes out is what went in, in order.\<close>

lemma fifo:
  assumes "inv s" and "list_all op_fits ops" and "channel_run put get ops s = (t, accepted, taken)"
  shows "held s @ accepted = taken @ held t \<and> inv t
    \<and> room s + length taken = room t + length accepted"
  using assms
proof (induction ops arbitrary: s accepted taken)
  case Nil
  then show ?case by simp
next
  case (Cons oper ops)
  show ?case
  proof (cases oper)
    case (Put d)
    let ?s1 = "fst (put s d)" and ?n = "min (room s) (length d)"
    obtain acc tak where run: "channel_run put get ops ?s1 = (t, acc, tak)"
      and acc: "accepted = take ?n d @ acc" and tak: "taken = tak"
      using Cons.prems put_count [of s d] by (auto simp: Put Let_def split: prod.splits)
    have d: "length d < 2 ^ 64" using Cons.prems(2) by (simp add: Put)
    have "held ?s1 @ acc = tak @ held t \<and> inv t \<and> room ?s1 + length tak = room t + length acc"
      using Cons.IH [OF put_inv [OF Cons.prems(1) d] _ run] Cons.prems(2) by simp
    then show ?thesis
      using put_held [OF Cons.prems(1) d] put_room [OF Cons.prems(1) d] by (simp add: acc tak) linarith
  next
    case (Get n)
    let ?s1 = "fst (get s n)"
    obtain tak where run: "channel_run put get ops ?s1 = (t, accepted, tak)"
      and tak: "taken = snd (get s n) @ tak"
      using Cons.prems by (auto simp: Get Let_def split: prod.splits)
    have "held ?s1 @ accepted = tak @ held t \<and> inv t
        \<and> room ?s1 + length tak = room t + length accepted"
      using Cons.IH [OF get_inv [OF Cons.prems(1)] _ run] Cons.prems(2) by simp
    then show ?thesis
      using get_split [OF Cons.prems(1), of n] get_room [OF Cons.prems(1), of n]
      by (simp add: tak)
  qed
qed

end

interpretation bs: byte_channel ByteStream_write ByteStream_read bs_buffer bs_room bs_inv
proof unfold_locales
  fix s d assume "bs_inv s" "length (d :: bytes) < 2 ^ 64"
  then show "bs_inv (fst (ByteStream_write s d))"
    and "unat (snd (ByteStream_write s d)) = min (bs_room s) (length d)"
    and "bs_buffer (fst (ByteStream_write s d)) = bs_buffer s @ take (min (bs_room s) (length d)) d"
    and "bs_room (fst (ByteStream_write s d)) = bs_room s - min (bs_room s) (length d)"
    by (simp_all add: bs_inv_write) (simp_all add: write_eq unat_of_nat_small bs_room_def min_def)
next
  fix s n assume "bs_inv s"
  then show "bs_inv (fst (ByteStream_read s n))"
    and "bs_buffer s = snd (ByteStream_read s n) @ bs_buffer (fst (ByteStream_read s n))"
    and "bs_room (fst (ByteStream_read s n)) = bs_room s + length (snd (ByteStream_read s n))"
    and "unat n \<le> length (bs_buffer s) \<Longrightarrow> length (snd (ByteStream_read s n)) = unat n"
    by (simp_all add: bs_inv_read) (auto simp: read_eq bs_room_def bs_inv_def)
qed

section \<open>Properties\<close>

lemma read_bytes_write:
  "bs_inv s \<Longrightarrow> length d < 2 ^ 64 \<Longrightarrow>
   bs_read_bytes (fst (ByteStream_write s d)) = bs_read_bytes s
   \<and> bs_capacity (fst (ByteStream_write s d)) = bs_capacity s"
  by (simp add: write_eq)

lemma read_bytes_read:
  "bs_inv s \<Longrightarrow>
   bs_read_bytes (fst (ByteStream_read s n)) = bs_read_bytes s + size_t (snd (ByteStream_read s n))
   \<and> bs_capacity (fst (ByteStream_read s n)) = bs_capacity s"
  by (simp add: read_eq size_t_def min_def)

lemma run_counters:
  assumes "bs_inv s" and "list_all op_fits ops"
    and "channel_run ByteStream_write ByteStream_read ops s = (t, accepted, taken)"
  shows "bs_read_bytes t = bs_read_bytes s + size_t taken \<and> bs_capacity t = bs_capacity s"
  using assms
proof (induction ops arbitrary: s accepted taken)
  case (Cons oper ops)
  show ?case
  proof (cases oper)
    case (Put d)
    then have "length d < 2 ^ 64" using Cons.prems(2) by simp
    moreover from this have "bs_inv (fst (ByteStream_write s d))"
      using Cons.prems(1) by (rule bs.put_inv [rotated])
    ultimately show ?thesis
      using Cons.prems Cons.IH [of "fst (ByteStream_write s d)"] read_bytes_write [of s d]
      by (auto simp: Put Let_def split: prod.splits)
  next
    case (Get n)
    then show ?thesis
      using Cons.prems Cons.IH [of "fst (ByteStream_read s n)"] bs.get_inv [of s n]
        read_bytes_read [of s n]
      by (fastforce simp: size_t_append Let_def split: prod.splits)
  qed
qed simp

text \<open>
  C18. For every interleaving of writes and reads on a fresh stream, the bytes taken out followed by
  the bytes still buffered are exactly the bytes accepted, in order; the buffer stays within the
  capacity; and the two counters report how many bytes were accepted and how many were taken.
\<close>

theorem byte_stream_fifo:
  assumes "list_all op_fits ops"
    and "channel_run ByteStream_write ByteStream_read ops (ByteStream_new c) = (t, accepted, taken)"
  shows "accepted = taken @ bs_buffer t
    \<and> length (bs_buffer t) \<le> unat c
    \<and> ByteStream_bytes_written t = size_t accepted
    \<and> ByteStream_bytes_read t = size_t taken"
proof -
  have "bs_read_bytes t = size_t taken" and cap: "bs_capacity t = c"
    using run_counters [OF bs_inv_new assms] by (simp_all add: ByteStream_new_def)
  moreover have acc: "accepted = taken @ bs_buffer t" and "bs_inv t"
    using bs.fifo [OF bs_inv_new assms] by (simp_all add: ByteStream_new_def)
  ultimately show ?thesis
    by (simp add: bs_inv_def ByteStream_bytes_written_def ByteStream_bytes_read_def size_t_append)
qed

theorem byte_stream_fifo_witness:
  "\<exists>t. channel_run ByteStream_write ByteStream_read [Put [1, 2, 3], Get 1, Put [4, 5]]
        (ByteStream_new 3) = (t, [1, 2, 3, 4], [1])
     \<and> bs_buffer t = [2, 3, 4] \<and> ByteStream_bytes_written t = 4"
proof -
  let ?ops = "[Put [1, 2, 3], Get 1, Put [4, 5]]"
  obtain t where t: "channel_run ByteStream_write ByteStream_read ?ops (ByteStream_new 3)
      = (t, [1, 2, 3, 4], [1])"
    by (simp add: ByteStream_write_def ByteStream_read_def ByteStream_new_def size_t_def Let_def
        upt_rec min_def)
  then show ?thesis
    using byte_stream_fifo [OF _ t] by (simp add: size_t_def)
qed

text \<open>
  C35. \<open>read\<close> is \<open>peek_output\<close> followed by \<open>pop_output\<close>; asked for more bytes than the buffer
  holds, it returns the empty string, sets the error flag and leaves buffer and counters alone.
\<close>

theorem read_is_peek_pop:
  assumes "bs_inv s"
  shows "fst (ByteStream_read s len) = ByteStream_pop_output s len
    \<and> (len \<le> ByteStream_buffer_size s \<longrightarrow> snd (ByteStream_read s len) = ByteStream_peek_output s len)
    \<and> (\<not> len \<le> ByteStream_buffer_size s \<longrightarrow>
        ByteStream_read s len = (ByteStream_set_error s, [])
        \<and> ByteStream_peek_output s len = bs_buffer s)"
  using bs_inv_length [OF assms] assms
  by (auto simp: read_eq pop_eq peek_eq ByteStream_buffer_size_def ByteStream_set_error_def word_nat)

theorem read_is_peek_pop_witness:
  "snd (ByteStream_read (fst (ByteStream_write (ByteStream_new 4) [7, 8, 9])) 2)
     = ByteStream_peek_output (fst (ByteStream_write (ByteStream_new 4) [7, 8, 9])) 2"
proof -
  have inv: "bs_inv (fst (ByteStream_write (ByteStream_new 4) [7, 8, 9]))"
    by (rule bs_inv_write) simp_all
  have "2 \<le> ByteStream_buffer_size (fst (ByteStream_write (ByteStream_new 4) [7, 8, 9]))"
    by (simp add: ByteStream_buffer_size_def ByteStream_write_def ByteStream_new_def size_t_def
        Let_def upt_rec)
  with read_is_peek_pop [OF inv] show ?thesis by blast
qed

text \<open>
  \<open>end_input\<close> does not close the stream to the writer: \<open>write\<close> never looks at the
  \<open>end_write\<close> flag, so a stream at end of file accepts further bytes and leaves that state again.
\<close>

theorem write_ignores_end_input:
  assumes "bs_inv s" and "bs_buffer s = []" and "0 < bs_room s"
    and "data \<noteq> []" and "length data < 2 ^ 64"
  shows "ByteStream_eof (ByteStream_end_input s)
    \<and> 0 < unat (snd (ByteStream_write (ByteStream_end_input s) data))
    \<and> \<not> ByteStream_eof (fst (ByteStream_write (ByteStream_end_input s) data))"
proof -
  let ?e = "ByteStream_end_input s"
  have inv: "bs_inv ?e" and room: "0 < bs_room ?e" and buf: "bs_buffer ?e = []"
    using assms by (simp_all add: bs_room_def ByteStream_end_input_def bs_inv_def)
  have "0 < unat (snd (ByteStream_write ?e data))"
    using bs.put_count [OF inv assms(5)] room assms(4) by simp
  moreover have "bs_buffer (fst (ByteStream_write ?e data)) \<noteq> []"
    using bs.put_held [OF inv assms(5)] room assms(4) by simp
  ultimately show ?thesis
    by (simp add: ByteStream_eof_def buf) (simp add: ByteStream_end_input_def)
qed

theorem write_ignores_end_input_witness:
  "ByteStream_eof (ByteStream_end_input (ByteStream_new 1))
    \<and> \<not> ByteStream_eof (fst (ByteStream_write (ByteStream_end_input (ByteStream_new 1)) [65]))"
  using write_ignores_end_input [of "ByteStream_new 1" "[65]"]
  by (simp add: bs_room_def ByteStream_new_def bs_inv_def)

end
