(* ===== verification/Stream_Reassembler.thy ===== *)
theory Stream_Reassembler
  imports Byte_Stream
begin

text \<open>
  The class \<open>StreamReassembler\<close> of \<open>stream_reassembler.hh\<close> and \<open>stream_reassembler.cc\<close>.
  \<open>push_substring\<close> is modelled with every deque and string access checked: an access past the
  end, which C++ leaves undefined, is the error \<open>UndefinedBehaviour\<close>. The abstract view of a
  reassembler is a partial map from stream indices to bytes; the refinement lemma says that the
  bitmap, the byte buffer and the two window cases together implement that map.
\<close>

section \<open>Definitions\<close>

record StreamReassembler =
  sr_buffer :: bytes
  sr_bitmap :: "bool list"
  sr_eof_flag :: bool
  sr_eof_index :: u64
  sr_unassembled_bytes :: u64
  sr_output :: ByteStream
  sr_capacity :: u64

definition StreamReassembler_new :: "u64 \<Rightarrow> StreamReassembler" where
  "StreamReassembler_new capacity =
     \<lparr>sr_buffer = replicate (unat capacity) 0, sr_bitmap = replicate (unat capacity) False,
      sr_eof_flag = False, sr_eof_index = 0, sr_unassembled_bytes = 0,
      sr_output = ByteStream_new capacity, sr_capacity = capacity\<rparr>"

text \<open>
  The body of the two copying loops: slot \<open>k\<close> of the window takes \<open>data[i]\<close> unless it is
  already filled. \<open>std::string::operator[]\<close> may be read at \<open>size()\<close>, where it yields \<open>'\\0'\<close>.
\<close>

definition string_at :: "bytes \<Rightarrow> u64 \<Rightarrow> u8 result" where
  "string_at data i =
     (if unat i < length data then Inr (data ! unat i)
      else if unat i = length data then Inr 0
      else Inl UndefinedBehaviour)"

definition store_byte ::
  "bytes \<Rightarrow> u64 \<Rightarrow> u64 \<Rightarrow> StreamReassembler \<Rightarrow> StreamReassembler result" where
  "store_byte data i k r =
     (if length (sr_bitmap r) \<le> unat k then Inl UndefinedBehaviour
      else if sr_bitmap r ! unat k then Inr r
      else try_bind (string_at data i) (\<lambda>c.
        if length (sr_buffer r) \<le> unat k then Inl UndefinedBehaviour
        else Inr (r\<lparr>sr_buffer := (sr_buffer r)[unat k := c],
                    sr_bitmap := (sr_bitmap r)[unat k := True],
                    sr_unassembled_bytes := sr_unassembled_bytes r + 1\<rparr>)))"

text \<open>The loop that moves the contiguous front of the window into a string.\<close>

function assemble_loop :: "bool list \<Rightarrow> bytes \<Rightarrow> bytes \<Rightarrow> (bool list \<times> bytes \<times> bytes) result" where
  "assemble_loop bitmap buffer str =
     (case bitmap of
        [] \<Rightarrow> Inl UndefinedBehaviour
      | b # bitmap' \<Rightarrow>
          if \<not> b then Inr (bitmap, buffer, str)
          else (case buffer of
                  [] \<Rightarrow> Inl UndefinedBehaviour
                | c # buffer' \<Rightarrow>
                    assemble_loop (bitmap' @ [False]) (buffer' @ [0]) (str @ [c])))"
  by pat_completeness auto
termination
  by (relation "measure (\<lambda>(bitmap, buffer, str). length (filter id bitmap))") auto

declare assemble_loop.simps [simp del]

definition assemble_front :: "StreamReassembler \<Rightarrow> StreamReassembler result" where
  "assemble_front r =
     try_bind (assemble_loop (sr_bitmap r) (sr_buffer r) [])
      (\<lambda>(bitmap', buffer', str).
        let r4 = r\<lparr>sr_buffer := buffer', sr_bitmap := bitmap'\<rparr>
        in Inr (if 0 < size_t str
                then r4\<lparr>sr_output := fst (ByteStream_write (sr_output r4) str),
                        sr_unassembled_bytes := sr_unassembled_bytes r4 - size_t str\<rparr>
                else r4))"

definition sr_mark_eof :: "bool \<Rightarrow> u64 \<Rightarrow> StreamReassembler \<Rightarrow> StreamReassembler" where
  "sr_mark_eof eof e r = (if eof then r\<lparr>sr_eof_flag := True, sr_eof_index := e\<rparr> else r)"

definition sr_end_if_complete :: "u64 \<Rightarrow> StreamReassembler \<Rightarrow> StreamReassembler" where
  "sr_end_if_complete n r =
     (if sr_eof_flag r \<and> sr_eof_index r = n
      then r\<lparr>sr_output := ByteStream_end_input (sr_output r)\<rparr> else r)"

text \<open>The two window cases: which part of the segment goes to which slots.\<close>

definition copy_into_window ::
  "StreamReassembler \<Rightarrow> bytes \<Rightarrow> u64 \<Rightarrow> StreamReassembler result" where
  "copy_into_window r data index =
     (let first_unassembled = ByteStream_bytes_written (sr_output r);
          first_unacceptable = ByteStream_bytes_read (sr_output r) + sr_capacity r;
          start = index;
          end1 = index + size_t data
      in if first_unassembled \<le> start then
           (let end2 = min end1 first_unacceptable;
                len = end2 - start;
                offset = index - first_unassembled
            in for_each [0..<unat len]
                 (\<lambda>i. store_byte data (word_of_nat i) (word_of_nat i + offset)) r)
         else if first_unassembled < end1 then
           (let start2 = max start first_unassembled;
                end2 = min end1 first_unacceptable;
                len = end2 - start2;
                offset = first_unassembled - index
            in for_each [0..<unat len]
                 (\<lambda>i. store_byte data (word_of_nat i + offset) (word_of_nat i)) r)
         else Inr r)"

definition push_substring ::
  "StreamReassembler \<Rightarrow> bytes \<Rightarrow> u64 \<Rightarrow> bool \<Rightarrow> StreamReassembler result" where
  "push_substring r data index eof =
     (let first_unread = ByteStream_bytes_read (sr_output r);
          first_unassembled = ByteStream_bytes_written (sr_output r);
          first_unacceptable = first_unread + sr_capacity r;
          start = index;
          end1 = index + size_t data;
          r1 = sr_mark_eof eof end1 r;
          r2 = sr_end_if_complete first_unassembled r1
      in if end1 \<le> first_unassembled \<or> first_unacceptable \<le> start then Inr r2
         else try_bind (copy_into_window r2 data index)
            (\<lambda>r3. try_bind (assemble_front r3)
              (\<lambda>r5. Inr (sr_end_if_complete (ByteStream_bytes_written (sr_output r5)) r5))))"

text \<open>The reader's side: \<open>stream_out()\<close> hands out the output stream, from which bytes are read.\<close>

definition stream_out_read :: "StreamReassembler \<Rightarrow> u64 \<Rightarrow> StreamReassembler \<times> bytes" where
  "stream_out_read r len =
     (let (out', d) = ByteStream_read (sr_output r) len in (r\<lparr>sr_output := out'\<rparr>, d))"

definition unassembled_bytes :: "StreamReassembler \<Rightarrow> u64" where
  "unassembled_bytes r = sr_unassembled_bytes r"

definition StreamReassembler_empty :: "StreamReassembler \<Rightarrow> bool" where
  "StreamReassembler_empty r = (sr_unassembled_bytes r = 0)"

section \<open>The assembling loop\<close>

lemma assemble_loop_eq:
  assumes "bitmap \<noteq> []" and "length buffer = length bitmap"
  defines "k \<equiv> length (takeWhile (\<lambda>b. b) bitmap)"
  shows "assemble_loop bitmap buffer str =
    Inr (drop k bitmap @ replicate k False, drop k buffer @ replicate k 0, str @ take k buffer)"
  using assms(1,2) unfolding k_def
proof (induction bitmap buffer str rule: assemble_loop.induct)
  case (1 bitmap buffer str)
  obtain b bs c cs where bm: "bitmap = b # bs" and bf: "buffer = c # cs"
    using "1.prems" by (cases bitmap; cases buffer) auto
  show ?case
  proof (cases b)
    case False
    then show ?thesis by (subst assemble_loop.simps) (simp add: bm)
  next
    case True
    let ?k = "length (takeWhile (\<lambda>b. b) bs)"
    have "?k \<le> length bs" and "length cs = length bs"
      using "1.prems" by (simp_all add: bm bf length_takeWhile_le)
    moreover have "takeWhile (\<lambda>b. b) (bs @ [False]) = takeWhile (\<lambda>b. b) bs"
      by (induction bs) auto
    ultimately have "assemble_loop (bs @ [False]) (cs @ [0]) (str @ [c]) =
        Inr (drop ?k bs @ False # replicate ?k False, drop ?k cs @ 0 # replicate ?k 0,
             str @ c # take ?k cs)"
      using "1.IH" [OF bm _ bf] True by simp
    then show ?thesis
      using True by (subst assemble_loop.simps) (simp add: bm bf replicate_append_same)
  qed
qed

section \<open>The copying loops\<close>

text \<open>The byte held for slot \<open>j\<close> of the window, if any.\<close>

definition sr_slot :: "StreamReassembler \<Rightarrow> nat \<Rightarrow> u8 option" where
  "sr_slot r j = (if j < length (sr_bitmap r) \<and> sr_bitmap r ! j then Some (sr_buffer r ! j) else None)"

definition sr_shape :: "StreamReassembler \<Rightarrow> bool" where
  "sr_shape r \<longleftrightarrow> length (sr_buffer r) = unat (sr_capacity r)
     \<and> length (sr_bitmap r) = unat (sr_capacity r)
     \<and> sr_unassembled_bytes r = word_of_nat (length (filter (\<lambda>b. b) (sr_bitmap r)))"

text \<open>A state that differs from \<open>r\<close> in the window only.\<close>

definition sr_same_frame :: "StreamReassembler \<Rightarrow> StreamReassembler \<Rightarrow> bool" where
  "sr_same_frame r r' \<longleftrightarrow> sr_output r' = sr_output r \<and> sr_capacity r' = sr_capacity r
     \<and> sr_eof_flag r' = sr_eof_flag r \<and> sr_eof_index r' = sr_eof_index r"

definition fill_slots :: "(nat \<Rightarrow> u8 option) \<Rightarrow> nat \<Rightarrow> nat \<Rightarrow> (nat \<Rightarrow> u8) \<Rightarrow> nat \<Rightarrow> u8 option" where
  "fill_slots slot a n f j =
     (case slot j of Some c \<Rightarrow> Some c | None \<Rightarrow> if a \<le> j \<and> j < a + n then Some (f (j - a)) else None)"

lemma count_list_update_True:
  "k < length bs \<Longrightarrow> \<not> bs ! k \<Longrightarrow>
   length (filter (\<lambda>b. b) (bs[k := True])) = Suc (length (filter (\<lambda>b. b) bs))"
proof (induction bs arbitrary: k)
  case (Cons b bs)
  then show ?case by (cases k) auto
qed simp

lemma fill_slots_one:
  "fill_slots slot a (Suc 0) f j =
     (case slot j of Some c \<Rightarrow> Some c | None \<Rightarrow> if j = a then Some (f 0) else None)"
  by (auto simp: fill_slots_def le_Suc_eq less_Suc_eq split: option.splits)

lemma store_byte_ok:
  assumes "sr_shape r" and "unat k < unat (sr_capacity r)" and "unat i < length data"
  shows "\<exists>r'. store_byte data i k r = Inr r' \<and> sr_shape r' \<and> sr_same_frame r r'
    \<and> sr_slot r' = fill_slots (sr_slot r) (unat k) (Suc 0) (\<lambda>_. data ! unat i)"
  using assms
  by (auto simp: store_byte_def string_at_def sr_shape_def sr_same_frame_def sr_slot_def
      fill_slots_one count_list_update_True nth_list_update fun_eq_iff)

lemma fill_slots_Suc:
  "fill_slots (fill_slots slot a n f) (a + n) (Suc 0) (\<lambda>_. f n) = fill_slots slot a (Suc n) f"
  by (rule ext) (auto simp: fill_slots_def less_Suc_eq split: option.splits)

lemma store_loop_ok:
  assumes "sr_shape r" and "a + n \<le> unat (sr_capacity r)" and "p + n \<le> length data"
    and idx: "\<And>i. i < n \<Longrightarrow> unat (dw i) = p + i \<and> unat (kw i) = a + i"
  shows "\<exists>r'. for_each [0..<n] (\<lambda>i. store_byte data (dw i) (kw i)) r = Inr r' \<and> sr_shape r'
    \<and> sr_same_frame r r' \<and> sr_slot r' = fill_slots (sr_slot r) a n (\<lambda>j. data ! (p + j))"
proof -
  let ?J = "\<lambda>m r'. sr_shape r' \<and> sr_same_frame r r'
      \<and> sr_slot r' = fill_slots (sr_slot r) a m (\<lambda>j. data ! (p + j))"
  have "\<exists>r'. for_each [0..<n] (\<lambda>i. store_byte data (dw i) (kw i)) r = Inr r' \<and> ?J n r'"
  proof (rule for_each_upt_rule)
    show "?J 0 r"
      using assms(1) by (auto simp: sr_same_frame_def fill_slots_def fun_eq_iff split: option.splits)
  next
    fix k s assume k: "k < n" and J: "?J k s"
    have "sr_capacity s = sr_capacity r" using J by (simp add: sr_same_frame_def)
    then have "unat (kw k) < unat (sr_capacity s)" and "unat (dw k) < length data"
      using assms(2,3) k idx [of k] by simp_all
    from store_byte_ok [OF _ this] J obtain t where
      t: "store_byte data (dw k) (kw k) s = Inr t" "sr_shape t" "sr_same_frame s t"
        "sr_slot t = fill_slots (sr_slot s) (unat (kw k)) (Suc 0) (\<lambda>_. data ! unat (dw k))"
      by blast
    with J idx [OF k] have "?J (Suc k) t"
      by (simp add: sr_same_frame_def fill_slots_Suc [where f = "\<lambda>j. data ! (p + j)"])
    with t(1) show "\<exists>t. store_byte data (dw k) (kw k) s = Inr t \<and> ?J (Suc k) t" by blast
  qed
  then show ?thesis by simp
qed

section \<open>Invariant and abstract view\<close>

text \<open>
  The window starts at the next index to be assembled. Filled slots lie within the room left in
  the output stream, so that everything assembled can be written; and slot 0 is empty, because
  whatever is contiguous has been written already.
\<close>

definition sr_inv :: "StreamReassembler \<Rightarrow> bool" where
  "sr_inv r \<longleftrightarrow> bs_inv (sr_output r) \<and> bs_capacity (sr_output r) = sr_capacity r
     \<and> 0 < unat (sr_capacity r) \<and> sr_shape r
     \<and> (\<forall>j. sr_slot r j \<noteq> None \<longrightarrow> j < bs_room (sr_output r))
     \<and> sr_slot r 0 = None"

text \<open>No 64-bit sum of the window computation wraps around.\<close>

definition sr_fits :: "StreamReassembler \<Rightarrow> bool" where
  "sr_fits r \<longleftrightarrow> unat (bs_read_bytes (sr_output r)) + unat (sr_capacity r) < 2 ^ 64"

definition sr_next :: "StreamReassembler \<Rightarrow> nat" where
  "sr_next r = unat (bs_written_bytes (sr_output r))"

definition sr_limit :: "StreamReassembler \<Rightarrow> nat" where
  "sr_limit r = unat (bs_read_bytes (sr_output r)) + unat (sr_capacity r)"

text \<open>The abstract view: which stream indices are held, and with which byte.\<close>

definition sr_pending :: "StreamReassembler \<Rightarrow> nat \<Rightarrow> u8 option" where
  "sr_pending r i = (if sr_next r \<le> i then sr_slot r (i - sr_next r) else None)"

text \<open>
  The specification of a push: the bytes of \<open>data\<close> whose index lies in the window and is not
  held yet are added to the map; then the longest run held from the front is taken off.
\<close>

definition accept_bytes ::
  "nat \<Rightarrow> nat \<Rightarrow> bytes \<Rightarrow> nat \<Rightarrow> (nat \<Rightarrow> u8 option) \<Rightarrow> nat \<Rightarrow> u8 option" where
  "accept_bytes lo hi data idx held i =
     (case held i of
        Some c \<Rightarrow> Some c
      | None \<Rightarrow> if lo \<le> i \<and> i < hi \<and> idx \<le> i \<and> i < idx + length data
                then Some (data ! (i - idx)) else None)"

fun ready_bytes :: "nat \<Rightarrow> nat \<Rightarrow> (nat \<Rightarrow> u8 option) \<Rightarrow> bytes" where
  "ready_bytes 0 i held = []"
| "ready_bytes (Suc n) i held =
     (case held i of None \<Rightarrow> [] | Some c \<Rightarrow> c # ready_bytes n (Suc i) held)"

lemma ready_bytes_length: "length (ready_bytes n i held) \<le> n"
  by (induction n i held rule: ready_bytes.induct) (auto split: option.splits)

lemma ready_bytes_nth:
  "j < length (ready_bytes n i held) \<Longrightarrow> held (i + j) = Some (ready_bytes n i held ! j)"
proof (induction n i held arbitrary: j rule: ready_bytes.induct)
  case (2 n i held)
  then show ?case by (cases j) (auto split: option.splits)
qed simp

lemma ready_bytes_stop:
  "length (ready_bytes n i held) < n \<Longrightarrow> held (i + length (ready_bytes n i held)) = None"
  by (induction n i held rule: ready_bytes.induct) (auto split: option.splits)

lemma ready_bytes_window:
  assumes "length buffer = length bitmap"
    and "\<And>j. j < length bitmap \<Longrightarrow> held (i + j) = (if bitmap ! j then Some (buffer ! j) else None)"
  shows "take (length (takeWhile (\<lambda>b. b) bitmap)) buffer = ready_bytes (length bitmap) i held"
  using assms
proof (induction bitmap arbitrary: buffer i)
  case (Cons b bitmap)
  obtain c cs where buffer: "buffer = c # cs" using Cons.prems(1) by (cases buffer) auto
  have "held i = (if b then Some c else None)"
    using Cons.prems(2) [of 0] by (simp add: buffer)
  moreover have "take (length (takeWhile (\<lambda>b. b) bitmap)) cs = ready_bytes (length bitmap) (Suc i) held"
    using Cons.prems(1) Cons.prems(2) [of "Suc _"] by (intro Cons.IH) (auto simp: buffer)
  ultimately show ?case by (simp add: buffer)
qed simp

section \<open>Refinement\<close>

lemma count_true_split:
  "length (filter (\<lambda>b. b) bs) =
   length (takeWhile (\<lambda>b. b) bs) + length (filter (\<lambda>b. b) (drop (length (takeWhile (\<lambda>b. b) bs)) bs))"
  by (induction bs) auto

lemma front_run_within:
  assumes "sr_shape r" and "\<And>j. sr_slot r j \<noteq> None \<Longrightarrow> j < n"
  shows "length (takeWhile (\<lambda>b. b) (sr_bitmap r)) \<le> n"
proof (rule ccontr)
  let ?k = "length (takeWhile (\<lambda>b. b) (sr_bitmap r))"
  assume "\<not> ?k \<le> n"
  then have "n < ?k" by simp
  then have "takeWhile (\<lambda>b. b) (sr_bitmap r) ! n"
    using nth_mem [OF \<open>n < ?k\<close>] by (blast dest: set_takeWhileD)
  moreover have "n < length (sr_bitmap r)"
    using \<open>n < ?k\<close> length_takeWhile_le by (rule less_le_trans)
  ultimately have "sr_slot r n \<noteq> None"
    using \<open>n < ?k\<close> by (simp add: sr_slot_def takeWhile_nth)
  then show False using assms(2) by blast
qed

lemma slot_shift:
  assumes "sr_shape r" and "k \<le> unat (sr_capacity r)"
    and "sr_bitmap r' = drop k (sr_bitmap r) @ replicate k False"
    and "sr_buffer r' = drop k (sr_buffer r) @ replicate k 0"
  shows "sr_slot r' j = sr_slot r (j + k)"
  using assms by (auto simp: sr_slot_def sr_shape_def nth_append add.commute)

lemma assemble_front_ok:
  assumes shape: "sr_shape r" and out: "bs_inv (sr_output r)" "bs_capacity (sr_output r) = sr_capacity r"
    and cap: "0 < unat (sr_capacity r)"
    and win: "\<And>j. sr_slot r j \<noteq> None \<Longrightarrow> j < bs_room (sr_output r)"
  defines "k \<equiv> length (takeWhile (\<lambda>b. b) (sr_bitmap r))"
  shows "\<exists>r'. assemble_front r = Inr r' \<and> sr_inv r'
    \<and> sr_slot r' = (\<lambda>j. sr_slot r (j + k))
    \<and> sr_output r' = (sr_output r)\<lparr>bs_buffer := bs_buffer (sr_output r) @ take k (sr_buffer r),
         bs_written_bytes := bs_written_bytes (sr_output r) + word_of_nat k\<rparr>
    \<and> sr_capacity r' = sr_capacity r \<and> sr_eof_flag r' = sr_eof_flag r
    \<and> sr_eof_index r' = sr_eof_index r"
proof -
  let ?w = "take k (sr_buffer r)" and ?o = "sr_output r"
  define r4 where "r4 = r\<lparr>sr_buffer := drop k (sr_buffer r) @ replicate k 0,
      sr_bitmap := drop k (sr_bitmap r) @ replicate k False\<rparr>"
  define r' where "r' = r4\<lparr>sr_output := ?o\<lparr>bs_buffer := bs_buffer ?o @ ?w,
      bs_written_bytes := bs_written_bytes ?o + word_of_nat k\<rparr>,
      sr_unassembled_bytes := sr_unassembled_bytes r - word_of_nat k\<rparr>"
  have lens: "length (sr_bitmap r) = unat (sr_capacity r)" "length (sr_buffer r) = unat (sr_capacity r)"
    using shape by (simp_all add: sr_shape_def)
  have k: "k \<le> unat (sr_capacity r)"
    using length_takeWhile_le [of "\<lambda>b. b" "sr_bitmap r"] by (simp add: k_def lens)
  have room: "k \<le> bs_room ?o"
    unfolding k_def by (rule front_run_within [OF shape win])
  have kw: "k < 2 ^ 64" and w: "length ?w = k"
    using k le_less_trans [OF k, of "2 ^ 64"] by (simp_all add: lens)
  have "assemble_loop (sr_bitmap r) (sr_buffer r) [] = Inr (sr_bitmap r4, sr_buffer r4, ?w)"
    using cap lens assemble_loop_eq [of "sr_bitmap r" "sr_buffer r" "[]"]
    by (fastforce simp: r4_def k_def)
  moreover have "fst (ByteStream_write ?o ?w) = ?o\<lparr>bs_buffer := bs_buffer ?o @ ?w,
      bs_written_bytes := bs_written_bytes ?o + word_of_nat k\<rparr>"
    using room kw w by (simp add: write_eq [OF out(1)])
  moreover have "0 < size_t ?w \<longleftrightarrow> k \<noteq> 0"
    using w kw by (simp add: size_t_def word_less_nat_alt unat_of_nat_small)
  ultimately have run: "assemble_front r = Inr r'"
    using w by (auto simp: assemble_front_def r'_def r4_def size_t_def)
  have slots: "sr_slot r' = (\<lambda>j. sr_slot r (j + k))"
    by (rule ext, rule slot_shift [OF shape k]) (simp_all add: r'_def r4_def)
  have "sr_shape r'"
    using shape k count_true_split [of "sr_bitmap r"]
    by (simp add: sr_shape_def r'_def r4_def flip: k_def)
  moreover have "bs_inv (sr_output r')"
    using out(1) room w by (auto simp: r'_def bs_inv_def bs_room_def size_t_append) (simp add: size_t_def)
  moreover have "j < bs_room (sr_output r')" if "sr_slot r' j \<noteq> None" for j
    using win [of "j + k"] that w slots by (simp add: r'_def bs_room_def)
  moreover have "sr_slot r k = None"
    using nth_length_takeWhile [of "\<lambda>b. b" "sr_bitmap r"] by (simp add: sr_slot_def k_def)
  ultimately have "sr_inv r'"
    using out(2) cap slots by (simp add: sr_inv_def) (simp add: r'_def r4_def)
  with run slots show ?thesis by (auto simp: r'_def r4_def)
qed

text \<open>The window computation of the code, read on natural numbers.\<close>

lemma sr_window:
  assumes "sr_inv r" and "sr_fits r"
  shows "unat (bs_read_bytes (sr_output r) + sr_capacity r) = sr_limit r"
    and "sr_limit r = sr_next r + bs_room (sr_output r)"
    and "sr_limit r < 2 ^ 64"
    and "bs_room (sr_output r) \<le> unat (sr_capacity r)"
proof -
  let ?o = "sr_output r"
  have o: "bs_inv ?o" "bs_capacity ?o = sr_capacity r"
    using assms(1) by (simp_all add: sr_inv_def)
  show "unat (bs_read_bytes ?o + sr_capacity r) = sr_limit r" and "sr_limit r < 2 ^ 64"
    using assms(2) by (simp_all add: sr_limit_def sr_fits_def unat_add_small)
  have "length (bs_buffer ?o) \<le> unat (sr_capacity r)"
    using o by (simp add: bs_inv_def)
  moreover have "sr_next r = unat (bs_read_bytes ?o) + length (bs_buffer ?o)"
    using o(1) assms(2) calculation bs_inv_length [OF o(1)]
    by (simp add: sr_next_def bs_inv_def sr_fits_def word_nat)
  ultimately show "sr_limit r = sr_next r + bs_room ?o" and "bs_room ?o \<le> unat (sr_capacity r)"
    using o(2) by (simp_all add: sr_limit_def bs_room_def)
qed

lemma sr_pending_next [simp]: "sr_pending r (sr_next r + j) = sr_slot r j"
  by (simp add: sr_pending_def)

lemma fill_is_accept:
  assumes "a = max idx lo - lo" and "p = max idx lo - idx"
    and "n = min (idx + length data) hi - max idx lo" and "idx < hi" "lo \<le> hi" "lo < idx + length data"
    and "\<And>j. held (lo + j) = slot j"
  shows "fill_slots slot a n (\<lambda>j. data ! (p + j)) j = accept_bytes lo hi data idx held (lo + j)"
proof -
  have "a \<le> j \<and> j < a + n \<longleftrightarrow> lo + j < hi \<and> idx \<le> lo + j \<and> lo + j < idx + length data"
    using assms(1-6) by (auto simp: max_def min_def split: if_splits)
  moreover have "a \<le> j \<Longrightarrow> p + (j - a) = lo + j - idx"
    using assms(1,2) by auto
  ultimately show ?thesis
    using assms(7) by (auto simp: fill_slots_def accept_bytes_def split: option.splits)
qed

text \<open>The part of the data that falls into the window, and the loop that stores it.\<close>

lemma store_window_ok:
  fixes dw kw :: "nat \<Rightarrow> u64"
  assumes inv: "sr_inv r" and fits: "sr_fits r" and lo: "sr_next r < i + length data" and hi: "i < sr_limit r"
  defines "n \<equiv> min (i + length data) (sr_limit r) - max i (sr_next r)"
  assumes idx: "\<And>j. j < n \<Longrightarrow> unat (dw j) = max i (sr_next r) - i + j \<and> unat (kw j) = max i (sr_next r) - sr_next r + j"
  shows "\<exists>r'. for_each [0..<n] (\<lambda>j. store_byte data (dw j) (kw j)) r = Inr r' \<and> sr_shape r' \<and> sr_same_frame r r'
    \<and> (\<forall>j. sr_slot r' j = accept_bytes (sr_next r) (sr_limit r) data i (sr_pending r) (sr_next r + j))"
proof -
  let ?a = "max i (sr_next r) - sr_next r" and ?p = "max i (sr_next r) - i"
  note w = sr_window [OF inv fits]
  have shape: "sr_shape r" using inv by (simp add: sr_inv_def)
  have fit: "?a + n \<le> unat (sr_capacity r)" "?p + n \<le> length data"
    using w(2,4) lo hi by (auto simp: n_def max_def min_def)
  have filled: "fill_slots (sr_slot r) ?a n (\<lambda>j. data ! (?p + j)) j =
      accept_bytes (sr_next r) (sr_limit r) data i (sr_pending r) (sr_next r + j)" for j
    unfolding n_def by (rule fill_is_accept) (use w(2) hi lo in auto)
  show ?thesis using store_loop_ok [OF shape fit idx] filled by fastforce
qed

lemma copy_into_window_ok:
  assumes inv: "sr_inv r" and fits: "sr_fits r" and len: "unat index + length data < 2 ^ 64"
    and lo: "sr_next r < unat index + length data" and hi: "unat index < sr_limit r"
  shows "\<exists>r'. copy_into_window r data index = Inr r' \<and> sr_shape r' \<and> sr_same_frame r r'
    \<and> (\<forall>j. sr_slot r' j = accept_bytes (sr_next r) (sr_limit r) data (unat index) (sr_pending r)
          (sr_next r + j))"
proof -
  let ?fu = "bs_written_bytes (sr_output r)" and ?fa = "bs_read_bytes (sr_output r) + sr_capacity r"
  let ?e = "index + size_t data" and ?i = "unat index"
  note w = sr_window [OF inv fits]
  have e: "unat ?e = ?i + length data" and fu: "unat ?fu = sr_next r"
    using len by (simp_all add: word_nat sr_next_def)
  let ?n = "min (?i + length data) (sr_limit r) - max ?i (sr_next r)"
  let ?a = "max ?i (sr_next r) - sr_next r" and ?p = "max ?i (sr_next r) - ?i"
  note run = store_window_ok [OF inv fits lo hi]
  have n64: "?n < 2 ^ 64" using w(3) by auto
  show ?thesis
  proof (cases "sr_next r \<le> ?i")
    case True
    then have "unat (min ?e ?fa - index) = ?n"
      using e w(1) hi by (simp add: unat_sub word_nat)
    moreover have "unat (word_of_nat i + (index - ?fu)) = ?a + i"
      and "unat (word_of_nat i :: u64) = ?p + i" if "i < ?n" for i
      using True that hi w(3) fu by (simp_all add: word_nat unat_sub)
    moreover have "?fu \<le> index" using True fu by (simp add: word_nat)
    ultimately show ?thesis
      using run [of word_of_nat "\<lambda>i. word_of_nat i + (index - ?fu)"]
      by (simp add: copy_into_window_def Let_def bs_accessor_defs)
  next
    case False
    then have "unat (min ?e ?fa - max index ?fu) = ?n"
      using e w(1,2) lo fu by (simp add: unat_sub word_nat)
    moreover have "unat (word_of_nat i + (?fu - index)) = ?p + i"
      and "unat (word_of_nat i :: u64) = ?a + i" if "i < ?n" for i
      using False that hi w(3) fu by (simp_all add: word_nat unat_sub)
    moreover have "\<not> ?fu \<le> index" "?fu < ?e" using False lo e fu by (simp_all add: word_nat)
    ultimately show ?thesis
      using run [of "\<lambda>i. word_of_nat i + (?fu - index)" word_of_nat]
      by (simp add: copy_into_window_def Let_def bs_accessor_defs)
  qed
qed

text \<open>Recording the end of the stream touches neither window nor buffer.\<close>

definition sr_core :: "StreamReassembler \<Rightarrow> StreamReassembler \<Rightarrow> bool" where
  "sr_core r r' \<longleftrightarrow> sr_buffer r' = sr_buffer r \<and> sr_bitmap r' = sr_bitmap r
     \<and> sr_unassembled_bytes r' = sr_unassembled_bytes r \<and> sr_capacity r' = sr_capacity r
     \<and> (sr_output r' = sr_output r \<or> sr_output r' = ByteStream_end_input (sr_output r))"

lemma sr_core_view:
  assumes "sr_core r r'"
  shows "sr_inv r' = sr_inv r" and "sr_fits r' = sr_fits r" and "sr_next r' = sr_next r"
    and "sr_limit r' = sr_limit r" and "sr_pending r' = sr_pending r"
proof -
  have slot: "sr_slot r' = sr_slot r"
    using assms by (auto simp: sr_core_def sr_slot_def fun_eq_iff)
  show nxt: "sr_next r' = sr_next r"
    using assms by (auto simp: sr_core_def sr_next_def ByteStream_end_input_def)
  show "sr_pending r' = sr_pending r"
    by (rule ext) (simp add: sr_pending_def slot nxt)
  show "sr_inv r' = sr_inv r" and "sr_fits r' = sr_fits r" and "sr_limit r' = sr_limit r"
    using assms slot
    by (auto simp: sr_core_def sr_inv_def sr_shape_def sr_fits_def sr_limit_def bs_inv_def
        bs_room_def ByteStream_end_input_def)
qed

lemma end_if_complete_fields [simp]:
  "bs_buffer (sr_output (sr_end_if_complete n r)) = bs_buffer (sr_output r)"
  "bs_read_bytes (sr_output (sr_end_if_complete n r)) = bs_read_bytes (sr_output r)"
  "bs_written_bytes (sr_output (sr_end_if_complete n r)) = bs_written_bytes (sr_output r)"
  "bs_error (sr_output (sr_end_if_complete n r)) = bs_error (sr_output r)"
  "sr_capacity (sr_end_if_complete n r) = sr_capacity r"
  "sr_eof_flag (sr_end_if_complete n r) = sr_eof_flag r"
  "sr_eof_index (sr_end_if_complete n r) = sr_eof_index r"
  "bs_end_write (sr_output (sr_end_if_complete n r)) =
     (bs_end_write (sr_output r) \<or> sr_eof_flag r \<and> unat (sr_eof_index r) = unat n)"
  by (auto simp: sr_end_if_complete_def ByteStream_end_input_def word_unat_eq_iff)

lemma mark_eof_fields [simp]:
  "sr_output (sr_mark_eof eof e r) = sr_output r"
  "sr_capacity (sr_mark_eof eof e r) = sr_capacity r"
  "sr_eof_flag (sr_mark_eof eof e r) = (sr_eof_flag r \<or> eof)"
  "sr_eof_index (sr_mark_eof eof e r) = (if eof then e else sr_eof_index r)"
  by (simp_all add: sr_mark_eof_def)

lemma sr_core_mark_eof: "sr_core r (sr_end_if_complete n (sr_mark_eof eof e r))"
  by (simp add: sr_core_def sr_end_if_complete_def sr_mark_eof_def)

lemma sr_core_end: "sr_core r (sr_end_if_complete n r)"
  using sr_core_mark_eof [where eof = False] by (simp add: sr_mark_eof_def)

text \<open>
  What a push promises of the state after it, over the abstract view: \<open>w\<close> is appended to the
  output, the rest of the extended map stays pending, and the input is ended exactly when the
  recorded end has been reached.
\<close>

definition push_post ::
  "StreamReassembler \<Rightarrow> bytes \<Rightarrow> u64 \<Rightarrow> bool \<Rightarrow> StreamReassembler \<Rightarrow> bool" where
  "push_post r data index eof r' \<longleftrightarrow>
     (let lo = sr_next r;
          held = accept_bytes lo (sr_limit r) data (unat index) (sr_pending r);
          w = ready_bytes (unat (sr_capacity r)) lo held
      in bs_buffer (sr_output r') = bs_buffer (sr_output r) @ w
       \<and> sr_next r' = lo + length w
       \<and> sr_pending r' = (\<lambda>i. if i < lo + length w then None else held i)
       \<and> bs_read_bytes (sr_output r') = bs_read_bytes (sr_output r)
       \<and> sr_capacity r' = sr_capacity r
       \<and> bs_error (sr_output r') = bs_error (sr_output r)
       \<and> sr_eof_flag r' = (sr_eof_flag r \<or> eof)
       \<and> sr_eof_index r' = (if eof then index + size_t data else sr_eof_index r)
       \<and> bs_end_write (sr_output r') =
           (bs_end_write (sr_output r)
            \<or> sr_eof_flag r' \<and> unat (sr_eof_index r') \<in> {lo, lo + length w}))"

lemma accept_outside:
  "idx + length data \<le> lo \<or> hi \<le> idx \<Longrightarrow> accept_bytes lo hi data idx held = held"
  by (rule ext) (auto simp: accept_bytes_def split: option.splits)

lemma ready_none: "held lo = None \<Longrightarrow> ready_bytes n lo held = []"
  by (cases n) auto

lemma push_outside:
  assumes inv: "sr_inv r" and fits: "sr_fits r" and len: "unat index + length data < 2 ^ 64"
    and out: "unat index + length data \<le> sr_next r \<or> sr_limit r \<le> unat index"
  shows "\<exists>r'. push_substring r data index eof = Inr r' \<and> sr_inv r' \<and> push_post r data index eof r'"
proof -
  let ?e = "index + size_t data" and ?fu = "bs_written_bytes (sr_output r)"
  let ?r = "sr_end_if_complete ?fu (sr_mark_eof eof ?e r)"
  note core = sr_core_view [OF sr_core_mark_eof [of r ?fu eof ?e]]
  have "?e \<le> ?fu \<or> bs_read_bytes (sr_output r) + sr_capacity r \<le> index"
    using out len sr_window(1) [OF inv fits] by (simp add: word_nat sr_next_def)
  then have "push_substring r data index eof = Inr ?r"
    by (simp add: push_substring_def Let_def bs_accessor_defs)
  moreover have "sr_pending r (sr_next r) = None"
    using inv sr_pending_next [of r 0] by (simp add: sr_inv_def)
  moreover have "(\<lambda>i. if i < sr_next r then None else sr_pending r i) = sr_pending r"
    by (auto simp: sr_pending_def fun_eq_iff)
  moreover have "unat ?fu = sr_next r" by (simp add: sr_next_def)
  moreover have "accept_bytes (sr_next r) (sr_limit r) data (unat index) (sr_pending r) = sr_pending r"
    using out by (rule accept_outside)
  ultimately show ?thesis
    using core inv by (simp add: push_post_def Let_def ready_none cong: if_cong)
qed

text \<open>The filled slots at the front of the window hold the bytes that are ready.\<close>

lemma front_ready:
  assumes shape: "sr_shape r" and slot: "\<And>j. sr_slot r j = held (lo + j)"
  shows "take (length (takeWhile (\<lambda>b. b) (sr_bitmap r))) (sr_buffer r) = ready_bytes (unat (sr_capacity r)) lo held"
    and "length (ready_bytes (unat (sr_capacity r)) lo held) = length (takeWhile (\<lambda>b. b) (sr_bitmap r))"
proof -
  show w: "take (length (takeWhile (\<lambda>b. b) (sr_bitmap r))) (sr_buffer r) = ready_bytes (unat (sr_capacity r)) lo held"
    using shape slot ready_bytes_window [of "sr_buffer r" "sr_bitmap r" held lo]
    by (simp add: sr_shape_def flip: slot) (simp add: sr_slot_def)
  show "length (ready_bytes (unat (sr_capacity r)) lo held) = length (takeWhile (\<lambda>b. b) (sr_bitmap r))"
    using shape length_takeWhile_le [of "\<lambda>b. b" "sr_bitmap r"] by (simp add: sr_shape_def flip: w)
qed

text \<open>After the copy: every waiting byte lies within the room of the output stream.\<close>

lemma copied_ok:
  fixes eof :: bool
  assumes inv: "sr_inv r" and fits: "sr_fits r" and len: "unat index + length data < 2 ^ 64"
    and lo: "sr_next r < unat index + length data" and hi: "unat index < sr_limit r"
  defines "r2 \<equiv> sr_end_if_complete (bs_written_bytes (sr_output r)) (sr_mark_eof eof (index + size_t data) r)"
  shows "\<exists>r3. copy_into_window r2 data index = Inr r3 \<and> sr_shape r3 \<and> sr_same_frame r2 r3
    \<and> (\<forall>j. sr_slot r3 j = accept_bytes (sr_next r) (sr_limit r) data (unat index) (sr_pending r) (sr_next r + j))
    \<and> sr_output r3 = sr_output r2 \<and> sr_capacity r3 = sr_capacity r \<and> bs_room (sr_output r2) = bs_room (sr_output r)
    \<and> bs_inv (sr_output r3) \<and> bs_capacity (sr_output r3) = sr_capacity r3 \<and> 0 < unat (sr_capacity r3)
    \<and> (\<forall>j. sr_slot r3 j \<noteq> None \<longrightarrow> j < bs_room (sr_output r3))"
proof -
  let ?held = "accept_bytes (sr_next r) (sr_limit r) data (unat index) (sr_pending r)"
  note core = sr_core_view [OF sr_core_mark_eof [of r "bs_written_bytes (sr_output r)" eof "index + size_t data"], folded r2_def]
  note win = sr_window [OF inv fits]
  obtain r3 where copy: "copy_into_window r2 data index = Inr r3" and shape: "sr_shape r3"
    and frame: "sr_same_frame r2 r3" and slot: "\<And>j. sr_slot r3 j = ?held (sr_next r + j)"
    using copy_into_window_ok [of r2 index data] core inv fits len lo hi by auto
  have out3: "sr_output r3 = sr_output r2" and cap3: "sr_capacity r3 = sr_capacity r"
    and cap2: "sr_capacity r2 = sr_capacity r"
    using frame by (simp_all add: sr_same_frame_def r2_def)
  have inv2: "sr_inv r2" using core inv by simp
  have room: "bs_room (sr_output r2) = bs_room (sr_output r)"
    using sr_window(2) [OF inv2] sr_window(2) [OF inv fits] core fits by simp
  have within: "j < bs_room (sr_output r3)" if "sr_slot r3 j \<noteq> None" for j
    using that inv win(2) unfolding slot out3 room
    by (auto simp: accept_bytes_def sr_inv_def split: option.splits if_splits)
  have "bs_inv (sr_output r3)" "bs_capacity (sr_output r3) = sr_capacity r3" "0 < unat (sr_capacity r3)"
    using inv2 by (simp_all add: sr_inv_def out3 cap3 cap2)
  with copy shape frame slot out3 cap3 room within show ?thesis by blast
qed

lemma push_inside:
  assumes inv: "sr_inv r" and fits: "sr_fits r" and len: "unat index + length data < 2 ^ 64"
    and lo: "sr_next r < unat index + length data" and hi: "unat index < sr_limit r"
  shows "\<exists>r'. push_substring r data index eof = Inr r' \<and> sr_inv r' \<and> push_post r data index eof r'"
proof -
  let ?e = "index + size_t data" and ?fu = "bs_written_bytes (sr_output r)"
  let ?held = "accept_bytes (sr_next r) (sr_limit r) data (unat index) (sr_pending r)"
  let ?w = "ready_bytes (unat (sr_capacity r)) (sr_next r) ?held"
  define r2 where "r2 = sr_end_if_complete ?fu (sr_mark_eof eof ?e r)"
  note win = sr_window [OF inv fits]
  obtain r3 where copy: "copy_into_window r2 data index = Inr r3" and shape: "sr_shape r3"
    and frame: "sr_same_frame r2 r3" and slot: "\<And>j. sr_slot r3 j = ?held (sr_next r + j)"
    and out3: "sr_output r3 = sr_output r2" and cap3: "sr_capacity r3 = sr_capacity r"
    and room: "bs_room (sr_output r2) = bs_room (sr_output r)"
    and pre: "bs_inv (sr_output r3)" "bs_capacity (sr_output r3) = sr_capacity r3" "0 < unat (sr_capacity r3)"
    and within: "\<And>j. sr_slot r3 j \<noteq> None \<Longrightarrow> j < bs_room (sr_output r3)"
    using copied_ok [OF assms, of eof, folded r2_def] by blast
  define k where "k = length (takeWhile (\<lambda>b. b) (sr_bitmap r3))"
  obtain r5 where asm: "assemble_front r3 = Inr r5" and inv5: "sr_inv r5"
    and slot5: "sr_slot r5 = (\<lambda>j. sr_slot r3 (j + k))"
    and out5: "sr_output r5 = (sr_output r3)\<lparr>bs_buffer := bs_buffer (sr_output r3) @ take k (sr_buffer r3),
         bs_written_bytes := bs_written_bytes (sr_output r3) + word_of_nat k\<rparr>"
    and rest5: "sr_capacity r5 = sr_capacity r3" "sr_eof_flag r5 = sr_eof_flag r3"
      "sr_eof_index r5 = sr_eof_index r3"
    using assemble_front_ok [OF shape pre within, folded k_def] by blast
  note w = front_ready(1) [OF shape slot, folded k_def, unfolded cap3]
    and wk = front_ready(2) [OF shape slot, folded k_def, unfolded cap3]
  have "k \<le> bs_room (sr_output r3)"
    unfolding k_def by (rule front_run_within [OF shape within])
  then have next5: "sr_next r5 = sr_next r + k"
    using win(2,3) unfolding out3 room
    by (simp add: sr_next_def out5 out3 r2_def word_nat)
  have pending5: "sr_pending r5 = (\<lambda>i. if i < sr_next r + k then None else ?held i)"
    by (rule ext) (simp add: sr_pending_def next5 slot5 slot not_less)
  let ?r = "sr_end_if_complete (bs_written_bytes (sr_output r5)) r5"
  note core5 = sr_core_view [OF sr_core_end [of r5 "bs_written_bytes (sr_output r5)"]]
  have "\<not> ?e \<le> ?fu" "\<not> bs_read_bytes (sr_output r) + sr_capacity r \<le> index"
    using lo hi len win(1) by (simp_all add: word_nat sr_next_def)
  then have "push_substring r data index eof = Inr ?r"
    using copy asm by (simp add: push_substring_def Let_def bs_accessor_defs flip: r2_def)
  moreover have "push_post r data index eof ?r"
    unfolding push_post_def Let_def wk core5 next5 pending5
    using frame rest5 next5
    by (auto simp: out5 out3 w cap3 sr_same_frame_def r2_def sr_next_def)
  ultimately show ?thesis using core5(1) inv5 by blast
qed

text \<open>Every push succeeds, keeps the invariant and does what the specification says.\<close>

lemma push_substring_ok:
  assumes "sr_inv r" and "sr_fits r" and "unat index + length data < 2 ^ 64"
  shows "\<exists>r'. push_substring r data index eof = Inr r' \<and> sr_inv r' \<and> push_post r data index eof r'"
proof (cases "unat index + length data \<le> sr_next r \<or> sr_limit r \<le> unat index")
  case True
  with assms show ?thesis by (rule push_outside)
next
  case False
  with assms show ?thesis by (intro push_inside) simp_all
qed

section \<open>Reassembling a given stream\<close>

text \<open>
  An excerpt of a stream: the bytes found at its index, with the end flag only on an excerpt that
  reaches the end. No bytes at all, without the end flag, are an excerpt at any index.
\<close>

definition excerpt :: "bytes \<Rightarrow> bytes \<Rightarrow> u64 \<Rightarrow> bool \<Rightarrow> bool" where
  "excerpt s data index eof \<longleftrightarrow> data = [] \<and> \<not> eof \<or>
     unat index + length data \<le> length s
     \<and> data = take (length data) (drop (unat index) s)
     \<and> (eof \<longrightarrow> unat index + length data = length s)"

datatype assembler_op = Push bytes u64 bool | Pull u64

fun op_excerpt :: "bytes \<Rightarrow> assembler_op \<Rightarrow> bool" where
  "op_excerpt s (Push data index eof) = excerpt s data index eof"
| "op_excerpt s (Pull n) = True"

fun assembler_run ::
  "('s \<Rightarrow> bytes \<Rightarrow> u64 \<Rightarrow> bool \<Rightarrow> 's result) \<Rightarrow> ('s \<Rightarrow> u64 \<Rightarrow> 's \<times> bytes) \<Rightarrow> assembler_op list \<Rightarrow> 's
     \<Rightarrow> ('s \<times> bytes) result" where
  "assembler_run push pull [] r = Inr (r, [])"
| "assembler_run push pull (Push data index eof # ops) r =
     try_bind (push r data index eof) (assembler_run push pull ops)"
| "assembler_run push pull (Pull n # ops) r =
     (let (r1, d) = pull r n
      in try_bind (assembler_run push pull ops r1) (\<lambda>(r2, taken). Inr (r2, d @ taken)))"

text \<open>
  The contract of a component that reassembles a stream from excerpts: pushing an excerpt never
  fails and appends the newly contiguous part of the stream to what the reader can take.
\<close>

locale assembler =
  fixes push :: "'s \<Rightarrow> bytes \<Rightarrow> u64 \<Rightarrow> bool \<Rightarrow> 's result"
    and pull :: "'s \<Rightarrow> u64 \<Rightarrow> 's \<times> bytes"
    and tracks :: "bytes \<Rightarrow> 's \<Rightarrow> bool"
    and nxt :: "'s \<Rightarrow> nat"
    and unread :: "'s \<Rightarrow> bytes"
  assumes push_ok: "tracks s r \<Longrightarrow> excerpt s data index eof \<Longrightarrow>
      \<exists>r'. push r data index eof = Inr r' \<and> tracks s r' \<and> nxt r \<le> nxt r'
        \<and> unread r' = unread r @ take (nxt r' - nxt r) (drop (nxt r) s)"
    and pull_tracks: "tracks s r \<Longrightarrow> tracks s (fst (pull r n))"
    and pull_next: "tracks s r \<Longrightarrow> nxt (fst (pull r n)) = nxt r"
    and pull_unread: "tracks s r \<Longrightarrow> unread r = snd (pull r n) @ unread (fst (pull r n))"
begin

text \<open>Over any run, the reader has taken, and can still take, a contiguous piece of the stream.\<close>

lemma run_ok:
  assumes "tracks s r" and "list_all (op_excerpt s) ops"
  shows "\<exists>r' taken. assembler_run push pull ops r = Inr (r', taken) \<and> tracks s r' \<and> nxt r \<le> nxt r'
    \<and> taken @ unread r' = unread r @ take (nxt r' - nxt r) (drop (nxt r) s)"
  using assms
proof (induction ops arbitrary: r)
  case Nil
  then show ?case by simp
next
  case (Cons oper ops)
  show ?case
  proof (cases oper)
    case (Push data index eof)
    have ex: "excerpt s data index eof" using Cons.prems(2) by (simp add: Push)
    obtain r1 where r1: "push r data index eof = Inr r1" "tracks s r1" "nxt r \<le> nxt r1"
        "unread r1 = unread r @ take (nxt r1 - nxt r) (drop (nxt r) s)"
      using push_ok [OF Cons.prems(1) ex] by blast
    obtain r' taken where run: "assembler_run push pull ops r1 = Inr (r', taken)" "tracks s r'"
        "nxt r1 \<le> nxt r'" "taken @ unread r' = unread r1 @ take (nxt r' - nxt r1) (drop (nxt r1) s)"
      using Cons.IH [OF r1(2)] Cons.prems(2) by auto
    have "take (nxt r1 - nxt r) (drop (nxt r) s) @ take (nxt r' - nxt r1) (drop (nxt r1) s)
        = take (nxt r' - nxt r) (drop (nxt r) s)"
      using take_add [of "nxt r1 - nxt r" "nxt r' - nxt r1" "drop (nxt r) s"] r1(3) run(3) by simp
    with r1 run show ?thesis by (auto simp: Push)
  next
    case (Pull n)
    obtain r' taken where run: "assembler_run push pull ops (fst (pull r n)) = Inr (r', taken)"
        "tracks s r'" "nxt r \<le> nxt r'"
        "taken @ unread r' = unread (fst (pull r n)) @ take (nxt r' - nxt r) (drop (nxt r) s)"
      using Cons.IH [OF pull_tracks [OF Cons.prems(1), of n]] Cons.prems
        pull_next [OF Cons.prems(1), of n] by auto
    with pull_unread [OF Cons.prems(1), of n] show ?thesis
      by (auto simp: Pull Let_def split: prod.splits)
  qed
qed

end

section \<open>The reassembler keeps the contract\<close>

definition sr_tracks :: "bytes \<Rightarrow> StreamReassembler \<Rightarrow> bool" where
  "sr_tracks s r \<longleftrightarrow> sr_inv r \<and> length s + unat (sr_capacity r) < 2 ^ 64
     \<and> sr_next r \<le> length s
     \<and> (\<forall>i c. sr_pending r i = Some c \<longrightarrow> i < length s \<and> c = s ! i)
     \<and> (sr_eof_flag r \<longrightarrow> unat (sr_eof_index r) = length s)
     \<and> (bs_end_write (sr_output r) \<longleftrightarrow> sr_eof_flag r \<and> sr_next r = length s)
     \<and> unat (bs_read_bytes (sr_output r)) + length (bs_buffer (sr_output r)) = sr_next r"

lemma sr_tracks_fits: "sr_tracks s r \<Longrightarrow> sr_fits r"
  by (auto simp: sr_tracks_def sr_fits_def)

lemma sr_tracksD:
  assumes "sr_tracks s r"
  shows "sr_inv r" and "length s + unat (sr_capacity r) < 2 ^ 64" and "sr_next r \<le> length s"
    and "\<And>i c. sr_pending r i = Some c \<Longrightarrow> i < length s \<and> c = s ! i"
    and "sr_eof_flag r \<Longrightarrow> unat (sr_eof_index r) = length s"
    and "bs_end_write (sr_output r) \<longleftrightarrow> sr_eof_flag r \<and> sr_next r = length s"
    and "unat (bs_read_bytes (sr_output r)) + length (bs_buffer (sr_output r)) = sr_next r"
  using assms unfolding sr_tracks_def by blast+

lemma sr_tracks_new:
  assumes "0 < unat cap" and "length s + unat cap < 2 ^ 64"
  shows "sr_tracks s (StreamReassembler_new cap)"
  using assms
  by (auto simp: sr_tracks_def sr_inv_def sr_shape_def sr_slot_def sr_pending_def sr_next_def
      StreamReassembler_new_def ByteStream_new_def bs_inv_def)

lemma excerpt_nth:
  "excerpt s data index eof \<Longrightarrow> unat index \<le> i \<Longrightarrow> i < unat index + length data \<Longrightarrow>
   i < length s \<and> data ! (i - unat index) = s ! i"
proof -
  assume ex: "excerpt s data index eof" and i: "unat index \<le> i" "i < unat index + length data"
  define n where "n = length data"
  have data: "data = take n (drop (unat index) s)" and n: "unat index + n \<le> length s"
    using ex i by (auto simp: excerpt_def n_def)
  show ?thesis unfolding data using i n by (simp add: n_def)
qed

text \<open>An accepted excerpt keeps the map inside the stream, so the run taken off is a piece of it.\<close>

lemma accept_in_stream:
  assumes "\<And>i c. held i = Some c \<Longrightarrow> i < length s \<and> c = s ! i" and "excerpt s data index eof"
    and "accept_bytes lo hi data (unat index) held i = Some c"
  shows "i < length s \<and> c = s ! i"
  using assms excerpt_nth [OF assms(2), of i]
  by (auto simp: accept_bytes_def split: option.splits if_splits)

lemma ready_in_stream:
  fixes n lo :: nat
  assumes "\<And>i c. held i = Some c \<Longrightarrow> i < length s \<and> c = s ! i" and "lo \<le> length s"
  defines "w \<equiv> ready_bytes n lo held"
  shows "lo + length w \<le> length s" and "w = take (length w) (drop lo s)"
proof -
  have nth: "lo + j < length s \<and> w ! j = s ! (lo + j)" if "j < length w" for j
    using assms(1) ready_bytes_nth [of j n lo held] that by (simp add: w_def)
  show le: "lo + length w \<le> length s"
    using nth [of "length w - 1"] assms(2) by (cases w) auto
  show "w = take (length w) (drop lo s)"
    by (rule nth_equalityI) (use le nth in auto)
qed

lemma sr_push_tracks:
  assumes track: "sr_tracks s r" and ex: "excerpt s data index eof"
  shows "\<exists>r'. push_substring r data index eof = Inr r' \<and> push_post r data index eof r'
    \<and> sr_tracks s r' \<and> sr_next r \<le> sr_next r'
    \<and> bs_buffer (sr_output r') =
        bs_buffer (sr_output r) @ take (sr_next r' - sr_next r) (drop (sr_next r) s)"
proof -
  let ?held = "accept_bytes (sr_next r) (sr_limit r) data (unat index) (sr_pending r)"
  let ?w = "ready_bytes (unat (sr_capacity r)) (sr_next r) ?held"
  have len: "unat index + length data < 2 ^ 64"
    using track ex by (auto simp: sr_tracks_def excerpt_def)
  obtain r' where r': "push_substring r data index eof = Inr r'" "sr_inv r'"
      and post: "push_post r data index eof r'"
    using push_substring_ok [OF sr_tracksD(1) [OF track] sr_tracks_fits [OF track] len] by blast
  have held: "\<And>i c. ?held i = Some c \<Longrightarrow> i < length s \<and> c = s ! i"
    using accept_in_stream [OF _ ex] sr_tracksD(4) [OF track] by blast
  have nx: "sr_next r \<le> length s" using track by (rule sr_tracksD)
  note w = ready_in_stream [where held = ?held and n = "unat (sr_capacity r)", OF held nx]
  have out: "bs_buffer (sr_output r') = bs_buffer (sr_output r) @ ?w"
    and nx': "sr_next r' = sr_next r + length ?w"
    and pend: "sr_pending r' = (\<lambda>i. if i < sr_next r + length ?w then None else ?held i)"
    and rd: "bs_read_bytes (sr_output r') = bs_read_bytes (sr_output r)"
    and cap: "sr_capacity r' = sr_capacity r"
    and flag: "sr_eof_flag r' = (sr_eof_flag r \<or> eof)"
    and ix: "sr_eof_index r' = (if eof then index + size_t data else sr_eof_index r)"
    and fin: "bs_end_write (sr_output r') = (bs_end_write (sr_output r)
         \<or> sr_eof_flag r' \<and> unat (sr_eof_index r') \<in> {sr_next r, sr_next r + length ?w})"
    using post unfolding push_post_def Let_def by blast+
  have "unat (index + size_t data) = length s" if eof
    using ex len that by (simp add: excerpt_def word_nat)
  then have eof_index: "sr_eof_flag r' \<Longrightarrow> unat (sr_eof_index r') = length s"
    using flag ix sr_tracksD(5) [OF track] by (cases eof) simp_all
  have "bs_end_write (sr_output r') \<longleftrightarrow> sr_eof_flag r' \<and> sr_next r' = length s"
    using fin flag nx' eof_index w(1) nx sr_tracksD(6) [OF track] by auto
  moreover have "\<forall>i c. sr_pending r' i = Some c \<longrightarrow> i < length s \<and> c = s ! i"
    using held by (simp add: pend)
  ultimately have "sr_tracks s r'"
    using r'(2) eof_index w(1) sr_tracksD(2,7) [OF track] unfolding sr_tracks_def
    by (simp add: out nx' rd cap)
  with r'(1) post w(2) show ?thesis by (auto simp: out nx')
qed

lemma sr_read_eq:
  assumes "bs_inv (sr_output r)"
  shows "stream_out_read r n =
    (r\<lparr>sr_output := fst (ByteStream_read (sr_output r) n)\<rparr>, snd (ByteStream_read (sr_output r) n))"
  by (simp add: stream_out_read_def Let_def split: prod.splits)

lemma sr_read_tracks:
  assumes track: "sr_tracks s r"
  shows "sr_tracks s (fst (stream_out_read r n)) \<and> sr_next (fst (stream_out_read r n)) = sr_next r"
proof -
  let ?o = "sr_output r" and ?o' = "fst (ByteStream_read (sr_output r) n)"
  have inv: "bs_inv ?o" using sr_tracksD(1) [OF track] by (simp add: sr_inv_def)
  have room: "bs_room ?o \<le> bs_room ?o'" using bs.get_room [OF inv] by simp
  have written: "bs_written_bytes ?o' = bs_written_bytes ?o" "bs_capacity ?o' = bs_capacity ?o"
      "bs_end_write ?o' = bs_end_write ?o"
    by (simp_all add: read_eq [OF inv])
  have "unat (bs_read_bytes ?o) + length (bs_buffer ?o) < 2 ^ 64"
    using sr_tracksD(2,3,7) [OF track] by simp
  then have "unat (bs_read_bytes ?o') + length (bs_buffer ?o')
      = unat (bs_read_bytes ?o) + length (bs_buffer ?o)"
    by (simp add: read_eq [OF inv] unat_add_small)
  moreover have "sr_inv (r\<lparr>sr_output := ?o'\<rparr>)"
    using sr_tracksD(1) [OF track] room bs.get_inv [OF inv, of n]
    by (auto simp: sr_inv_def sr_shape_def sr_slot_def written split: if_splits)
  ultimately show ?thesis
    using track
    by (simp add: sr_tracks_def sr_read_eq [OF inv] sr_next_def sr_pending_def sr_slot_def written)
qed

interpretation sr: assembler push_substring stream_out_read sr_tracks sr_next
  "\<lambda>r. bs_buffer (sr_output r)"
proof unfold_locales
  fix s r data index eof
  assume "sr_tracks s r" "excerpt s data index eof"
  then show "\<exists>r'. push_substring r data index eof = Inr r' \<and> sr_tracks s r' \<and> sr_next r \<le> sr_next r'
      \<and> bs_buffer (sr_output r') =
          bs_buffer (sr_output r) @ take (sr_next r' - sr_next r) (drop (sr_next r) s)"
    using sr_push_tracks by blast
next
  fix s r n
  assume track: "sr_tracks s r"
  then show "sr_tracks s (fst (stream_out_read r n))"
    and "sr_next (fst (stream_out_read r n)) = sr_next r"
    by (simp_all add: sr_read_tracks)
  have inv: "bs_inv (sr_output r)" using sr_tracksD(1) [OF track] by (simp add: sr_inv_def)
  show "bs_buffer (sr_output r) =
      snd (stream_out_read r n) @ bs_buffer (sr_output (fst (stream_out_read r n)))"
    using bs.get_split [OF inv, of n] by (simp add: sr_read_eq [OF inv])
qed

section \<open>Completeness\<close>

text \<open>Index \<open>j\<close> has arrived: it is written to the output or waits in the window.\<close>

definition sr_has :: "StreamReassembler \<Rightarrow> nat \<Rightarrow> bool" where
  "sr_has r j \<longleftrightarrow> j < sr_next r \<or> sr_pending r j \<noteq> None"

fun op_covers :: "nat \<Rightarrow> assembler_op \<Rightarrow> bool" where
  "op_covers j (Push data index eof) = (unat index \<le> j \<and> j < unat index + length data)"
| "op_covers j (Pull n) = False"

fun op_ends :: "assembler_op \<Rightarrow> bool" where
  "op_ends (Push data index eof) = eof"
| "op_ends (Pull n) = False"

lemma push_has:
  assumes "push_post r data index eof r'"
    and "sr_has r j \<or> unat index \<le> j \<and> j < unat index + length data \<and> j < sr_limit r"
  shows "sr_has r' j"
  using assms
  by (auto simp: push_post_def Let_def sr_has_def accept_bytes_def not_less split: option.splits)

lemma sr_tracks_limit: "sr_tracks s r \<Longrightarrow> unat (sr_capacity r) \<le> sr_limit r"
  by (simp add: sr_limit_def)

lemma sr_has_read:
  assumes "sr_tracks s r"
  shows "sr_has (fst (stream_out_read r n)) = sr_has r"
    and "sr_capacity (fst (stream_out_read r n)) = sr_capacity r"
    and "sr_eof_flag (fst (stream_out_read r n)) = sr_eof_flag r"
  using sr_read_tracks [OF assms, of n]
  by (auto simp: sr_has_def fun_eq_iff sr_pending_def sr_slot_def stream_out_read_def Let_def
      split: prod.splits)

lemma run_has:
  assumes "sr_tracks s r" and "list_all (op_excerpt s) ops" and "length s \<le> unat (sr_capacity r)"
    and "assembler_run push_substring stream_out_read ops r = Inr (r', taken)"
  shows "(sr_has r j \<or> j < length s \<and> list_ex (op_covers j) ops \<longrightarrow> sr_has r' j)
    \<and> (sr_eof_flag r \<or> list_ex op_ends ops \<longrightarrow> sr_eof_flag r')"
  using assms
proof (induction ops arbitrary: r taken)
  case (Cons oper ops)
  show ?case
  proof (cases oper)
    case (Push data index eof)
    have "excerpt s data index eof" using Cons.prems(2) by (simp add: Push)
    from sr_push_tracks [OF Cons.prems(1) this] obtain r1 where
        r1: "push_substring r data index eof = Inr r1" "push_post r data index eof r1" "sr_tracks s r1"
      by blast
    have run: "assembler_run push_substring stream_out_read ops r1 = Inr (r', taken)"
      using Cons.prems(4) by (simp add: Push r1)
    have frame: "sr_capacity r1 = sr_capacity r" "sr_eof_flag r1 = (sr_eof_flag r \<or> eof)"
      using r1(2) by (simp_all add: push_post_def Let_def)
    have "j < length s \<Longrightarrow> j < sr_limit r"
      using sr_tracks_limit [OF Cons.prems(1)] Cons.prems(3) by simp
    then have has: "sr_has r j \<or> j < length s \<and> op_covers j oper \<Longrightarrow> sr_has r1 j"
      using push_has [OF r1(2), of j] by (auto simp: Push)
    show ?thesis
      using Cons.IH [OF r1(3) _ _ run] Cons.prems(2,3) frame has by (auto simp: Push)
  next
    case (Pull n)
    let ?r1 = "fst (stream_out_read r n)"
    obtain taken' where run: "assembler_run push_substring stream_out_read ops ?r1 = Inr (r', taken')"
      using Cons.prems(4) by (auto simp: Pull Let_def split: prod.splits)
    show ?thesis
      using Cons.IH [OF sr.pull_tracks [OF Cons.prems(1)] _ _ run] Cons.prems(2,3)
        sr_has_read [OF Cons.prems(1), of n] by (simp add: Pull)
  qed
qed simp

lemma run_capacity:
  assumes "sr_tracks s r" and "list_all (op_excerpt s) ops"
    and "assembler_run push_substring stream_out_read ops r = Inr (r', taken)"
  shows "sr_capacity r' = sr_capacity r"
  using assms
proof (induction ops arbitrary: r taken)
  case (Cons oper ops)
  show ?case
  proof (cases oper)
    case (Push data index eof)
    have "excerpt s data index eof" using Cons.prems(2) by (simp add: Push)
    from sr_push_tracks [OF Cons.prems(1) this] obtain r1 where
        "push_substring r data index eof = Inr r1" "sr_capacity r1 = sr_capacity r" "sr_tracks s r1"
      by (auto simp: push_post_def Let_def)
    then show ?thesis using Cons.IH [of r1] Cons.prems(2,3) by (simp add: Push)
  next
    case (Pull n)
    then show ?thesis
      using Cons.IH [OF sr.pull_tracks [OF Cons.prems(1), of n]] Cons.prems(2,3)
        sr_has_read(2) [OF Cons.prems(1), of n] by (auto simp: Let_def split: prod.splits)
  qed
qed simp

lemma sr_has_front:
  assumes "sr_inv r"
  shows "\<not> sr_has r (sr_next r)"
  using assms sr_pending_next [of r 0] by (simp add: sr_has_def sr_inv_def)

section \<open>The memory bound\<close>

lemma sr_pending_card:
  "card {i. sr_pending r i \<noteq> None} = length (filter (\<lambda>b. b) (sr_bitmap r))"
proof -
  have "{i. sr_pending r i \<noteq> None} = (+) (sr_next r) ` {j. j < length (sr_bitmap r) \<and> sr_bitmap r ! j}"
    by (auto simp: sr_pending_def sr_slot_def image_iff split: if_splits)
      (metis le_add_diff_inverse)
  then show ?thesis by (simp add: card_image length_filter_conv_card)
qed

lemma sr_inv_bound:
  assumes "sr_inv r"
  shows "unat (ByteStream_buffer_size (sr_output r)) + unat (unassembled_bytes r) \<le> unat (sr_capacity r)
    \<and> unat (unassembled_bytes r) = card {i. sr_pending r i \<noteq> None}"
proof -
  let ?n = "length (filter (\<lambda>b. b) (sr_bitmap r))"
  have bs: "bs_inv (sr_output r)" "bs_capacity (sr_output r) = sr_capacity r"
    and shape: "sr_shape r" and slots: "\<And>j. sr_slot r j \<noteq> None \<Longrightarrow> j < bs_room (sr_output r)"
    using assms by (auto simp: sr_inv_def)
  have "{j. j < length (sr_bitmap r) \<and> sr_bitmap r ! j} \<subseteq> {..<bs_room (sr_output r)}"
    using slots by (auto simp: sr_slot_def)
  then have n: "?n \<le> bs_room (sr_output r)"
    using card_mono [of "{..<bs_room (sr_output r)}"] by (fastforce simp: length_filter_conv_card)
  have "bs_room (sr_output r) < 2 ^ 64"
    by (rule le_less_trans [of _ "unat (bs_capacity (sr_output r))"]) (simp_all add: bs_room_def)
  then have "unat (unassembled_bytes r) = ?n"
    using n shape by (simp add: unassembled_bytes_def sr_shape_def unat_of_nat_small)
  then show ?thesis
    using n bs bs_inv_length [OF bs(1)] sr_pending_card [of r]
    by (simp add: ByteStream_buffer_size_def unat_size_t bs_room_def bs_inv_def) linarith
qed

section \<open>Properties\<close>

text \<open>
  C5. Over every sequence of pushed excerpts of a stream \<open>s\<close> (in any order, overlapping, repeated)
  and reads, no operation fails or touches memory out of bounds; what the reader has taken followed
  by what it can still take is exactly the first \<open>bytes_written\<close> bytes of \<open>s\<close>; and the output is
  ended only once all of \<open>s\<close> has been written.
\<close>

theorem reassembler_prefix:
  assumes "0 < unat cap" and "length s + unat cap < 2 ^ 64" and "list_all (op_excerpt s) ops"
  shows "\<exists>r taken. assembler_run push_substring stream_out_read ops (StreamReassembler_new cap)
        = Inr (r, taken)
    \<and> taken @ bs_buffer (sr_output r) = take (unat (ByteStream_bytes_written (sr_output r))) s
    \<and> (ByteStream_input_ended (sr_output r) \<longrightarrow> taken @ bs_buffer (sr_output r) = s)"
proof -
  note track = sr_tracks_new [OF assms(1,2)]
  obtain r taken where run:
      "assembler_run push_substring stream_out_read ops (StreamReassembler_new cap) = Inr (r, taken)"
      and r: "sr_tracks s r"
      and t: "taken @ bs_buffer (sr_output r) = take (sr_next r) s"
    using sr.run_ok [OF track assms(3)]
    by (auto simp: StreamReassembler_new_def ByteStream_new_def sr_next_def)
  have "ByteStream_input_ended (sr_output r) \<longrightarrow> sr_next r = length s"
    using sr_tracksD(6) [OF r] by (simp add: ByteStream_input_ended_def)
  with run t show ?thesis
    by (simp add: sr_next_def ByteStream_bytes_written_def)
qed

theorem reassembler_prefix_witness:
  "\<exists>r taken. assembler_run push_substring stream_out_read
        [Push [3] 2 True, Push [1, 2] 0 False, Pull 1] (StreamReassembler_new 4) = Inr (r, taken)
    \<and> taken @ bs_buffer (sr_output r) = take (unat (ByteStream_bytes_written (sr_output r))) [1, 2, 3]"
  using reassembler_prefix [of 4 "[1, 2, 3]" "[Push [3] 2 True, Push [1, 2] 0 False, Pull 1]"]
  by (simp add: excerpt_def) blast

text \<open>
  C6. Nothing is lost: once every index of \<open>s\<close> has been pushed at least once, the last index with
  the end flag, and the capacity is at least the length of \<open>s\<close>, the reassembler has written all of
  \<open>s\<close> and ended the output, whatever the order of the excerpts and however reads are interleaved.
\<close>

theorem reassembler_complete:
  assumes "0 < unat cap" and "length s \<le> unat cap" and "length s + unat cap < 2 ^ 64"
    and "list_all (op_excerpt s) ops"
    and "\<And>j. j < length s \<Longrightarrow> list_ex (op_covers j) ops" and "list_ex op_ends ops"
  shows "\<exists>r taken. assembler_run push_substring stream_out_read ops (StreamReassembler_new cap)
        = Inr (r, taken)
    \<and> taken @ bs_buffer (sr_output r) = s \<and> ByteStream_input_ended (sr_output r)"
proof -
  let ?r0 = "StreamReassembler_new cap"
  note track = sr_tracks_new [OF assms(1,3)]
  obtain r taken where run: "assembler_run push_substring stream_out_read ops ?r0 = Inr (r, taken)"
      and r: "sr_tracks s r" and t: "taken @ bs_buffer (sr_output r) = take (sr_next r) s"
    using sr.run_ok [OF track assms(4)]
    by (auto simp: StreamReassembler_new_def ByteStream_new_def sr_next_def)
  have cap: "length s \<le> unat (sr_capacity ?r0)"
    using assms(2) by (simp add: StreamReassembler_new_def)
  note has = run_has [OF track assms(4) cap run]
  have "\<not> sr_next r < length s"
    using has [of "sr_next r"] assms(5) sr_has_front [OF sr_tracksD(1) [OF r]] by blast
  then have all: "sr_next r = length s" using sr_tracksD(3) [OF r] by simp
  have "sr_eof_flag r" using has assms(6) by blast
  then show ?thesis
    using run t all sr_tracksD(6) [OF r] by (simp add: ByteStream_input_ended_def)
qed

theorem reassembler_complete_witness:
  "\<exists>r taken. assembler_run push_substring stream_out_read
        [Push [3] 2 True, Push [1, 2] 0 False, Pull 1] (StreamReassembler_new 4) = Inr (r, taken)
    \<and> taken @ bs_buffer (sr_output r) = [1, 2, 3] \<and> ByteStream_input_ended (sr_output r)"
proof (rule reassembler_complete)
  show "list_ex (op_covers j) [Push [3] 2 True, Push [1, 2] 0 False, Pull 1]"
    if "j < length [1, 2, 3 :: u8]" for j
    using that by auto
qed (simp_all add: excerpt_def)

text \<open>
  C7. One push against its specification, for arbitrary (even contradictory) data: no access is out
  of bounds; the bytes whose index lies between the first unassembled and the first unacceptable
  index and is not held yet are stored, the first arrival of an index winning; the longest run held
  from the front goes to the output; and the output is ended exactly when the recorded end is reached.
\<close>

theorem push_substring_refines:
  assumes "sr_inv r" and "sr_fits r" and "unat index + length data < 2 ^ 64"
  shows "\<exists>r'. push_substring r data index eof = Inr r' \<and> sr_inv r' \<and> push_post r data index eof r'"
  using assms by (rule push_substring_ok)

theorem push_substring_refines_witness:
  "\<exists>r'. push_substring (StreamReassembler_new 2) [9, 9] 1 False = Inr r'
     \<and> push_post (StreamReassembler_new 2) [9, 9] 1 False r' \<and> sr_pending r' 1 = Some 9
     \<and> sr_pending r' 2 = None"
proof -
  let ?r = "StreamReassembler_new 2"
  have new: "sr_inv ?r" "sr_fits ?r"
    using sr_tracks_new [of 2 "[]"] sr_tracksD(1) sr_tracks_fits by auto
  obtain r' where r': "push_substring ?r [9, 9] 1 False = Inr r'" "push_post ?r [9, 9] 1 False r'"
    using push_substring_refines [OF new, of 1 "[9, 9]" False] by auto
  then have "sr_pending r' 1 = Some 9 \<and> sr_pending r' 2 = None"
    by (simp add: push_post_def Let_def StreamReassembler_new_def ByteStream_new_def sr_next_def
        sr_limit_def sr_pending_def sr_slot_def accept_bytes_def ready_none)
  with r' show ?thesis by blast
qed

text \<open>
  C19. The memory bound holds after any push, also of data that is no excerpt of one stream: unread
  and waiting bytes together never exceed the capacity, and \<open>unassembled_bytes\<close> counts every waiting
  index once.
\<close>

theorem push_memory_bound:
  assumes "sr_inv r" and "sr_fits r" and "unat index + length data < 2 ^ 64"
  shows "\<exists>r'. push_substring r data index eof = Inr r'
    \<and> unat (ByteStream_buffer_size (sr_output r')) + unat (unassembled_bytes r') \<le> unat (sr_capacity r)
    \<and> unat (unassembled_bytes r') = card {i. sr_pending r' i \<noteq> None}
    \<and> (StreamReassembler_empty r' \<longleftrightarrow> (\<forall>i. sr_pending r' i = None))"
proof -
  obtain r' where r': "push_substring r data index eof = Inr r'" "sr_inv r'"
      and cap: "sr_capacity r' = sr_capacity r"
    using push_substring_ok [OF assms] by (auto simp: push_post_def Let_def)
  have "finite {i. sr_pending r' i \<noteq> None}"
    by (rule finite_subset [of _ "{..<sr_next r' + length (sr_bitmap r')}"])
      (auto simp: sr_pending_def sr_slot_def split: if_splits)
  then have "StreamReassembler_empty r' \<longleftrightarrow> (\<forall>i. sr_pending r' i = None)"
    using sr_inv_bound [OF r'(2)]
    by (auto simp: StreamReassembler_empty_def unassembled_bytes_def unat_eq_0)
  with r'(1) sr_inv_bound [OF r'(2)] cap show ?thesis by auto
qed

theorem push_memory_bound_witness:
  "\<exists>r'. push_substring (StreamReassembler_new 2) [9, 9, 9] 1 False = Inr r'
     \<and> unat (ByteStream_buffer_size (sr_output r')) + unat (unassembled_bytes r') \<le> 2"
proof -
  let ?r = "StreamReassembler_new 2"
  have new: "sr_inv ?r" "sr_fits ?r"
    using sr_tracks_new [of 2 "[]"] sr_tracksD(1) sr_tracks_fits by auto
  show ?thesis
    using push_memory_bound [OF new, of 1 "[9, 9, 9]" False]
    by (auto simp: StreamReassembler_new_def)
qed

end
