(* ===== verification/Buffers.thy ===== *)
theory Buffers
  imports Sponge_Prelude
begin

text \<open>
  The string holders of \<open>util/buffer.hh\<close> and \<open>util/buffer.cc\<close>: \<open>Buffer\<close>, \<open>BufferList\<close> and
  \<open>BufferViewList\<close>. A \<open>shared_ptr\<close> to a string that nobody modifies is an optional byte list; the
  reference count is not visible to the program. The three classes share one contract, the locale
  \<open>discardable\<close>: a string whose front can be discarded.
\<close>

section \<open>Buffer\<close>

record Buffer =
  buf_storage :: "bytes option"
  buf_starting_offset :: u64

definition Buffer_default :: Buffer where
  "Buffer_default = \<lparr>buf_storage = None, buf_starting_offset = 0\<rparr>"

definition Buffer_of_string :: "bytes \<Rightarrow> Buffer" where
  "Buffer_of_string str = \<lparr>buf_storage = Some str, buf_starting_offset = 0\<rparr>"

text \<open>The view from the offset to the end; the offset never passes the end (\<open>buffer_ok\<close> below).\<close>

definition Buffer_str :: "Buffer \<Rightarrow> bytes" where
  "Buffer_str b =
     (case buf_storage b of
        None \<Rightarrow> []
      | Some st \<Rightarrow> take (unat (size_t st - buf_starting_offset b)) (drop (unat (buf_starting_offset b)) st))"

definition Buffer_at :: "Buffer \<Rightarrow> u64 \<Rightarrow> u8 result" where
  "Buffer_at b n =
     (if n < size_t (Buffer_str b) then Inr (Buffer_str b ! unat n)
      else Inl (OutOfRange ''string_view::at''))"

definition Buffer_size :: "Buffer \<Rightarrow> u64" where
  "Buffer_size b = size_t (Buffer_str b)"

definition Buffer_copy :: "Buffer \<Rightarrow> bytes" where
  "Buffer_copy b = Buffer_str b"

definition Buffer_remove_prefix :: "Buffer \<Rightarrow> u64 \<Rightarrow> Buffer result" where
  "Buffer_remove_prefix b n =
     (if size_t (Buffer_str b) < n then Inl (OutOfRange ''Buffer::remove_prefix'')
      else let b1 = b\<lparr>buf_starting_offset := buf_starting_offset b + n\<rparr>
           in Inr (case buf_storage b1 of
                     None \<Rightarrow> b1
                   | Some st \<Rightarrow> if buf_starting_offset b1 = size_t st then b1\<lparr>buf_storage := None\<rparr> else b1))"

section \<open>BufferList\<close>

record BufferList =
  bl_buffers :: "Buffer list"

definition BufferList_default :: BufferList where
  "BufferList_default = \<lparr>bl_buffers = []\<rparr>"

definition BufferList_of_Buffer :: "Buffer \<Rightarrow> BufferList" where
  "BufferList_of_Buffer buffer = \<lparr>bl_buffers = [buffer]\<rparr>"

definition BufferList_append :: "BufferList \<Rightarrow> BufferList \<Rightarrow> BufferList" where
  "BufferList_append l other =
     fold (\<lambda>buf l. l\<lparr>bl_buffers := bl_buffers l @ [buf]\<rparr>) (bl_buffers other) l"

definition BufferList_of_string :: "bytes \<Rightarrow> BufferList" where
  "BufferList_of_string str =
     BufferList_append BufferList_default (BufferList_of_Buffer (Buffer_of_string str))"

definition BufferList_to_Buffer :: "BufferList \<Rightarrow> Buffer result" where
  "BufferList_to_Buffer l =
     (case bl_buffers l of
        [] \<Rightarrow> Inr Buffer_default
      | [b] \<Rightarrow> Inr b
      | _ \<Rightarrow> Inl (RuntimeError ''BufferList: please use concatenate() to combine a multi-Buffer BufferList into one Buffer''))"

definition BufferList_concatenate :: "BufferList \<Rightarrow> bytes" where
  "BufferList_concatenate l = fold (\<lambda>buf ret. ret @ Buffer_str buf) (bl_buffers l) []"

definition BufferList_size :: "BufferList \<Rightarrow> u64" where
  "BufferList_size l = fold (\<lambda>buf ret. ret + Buffer_size buf) (bl_buffers l) 0"

fun remove_prefix_loop :: "Buffer list \<Rightarrow> u64 \<Rightarrow> Buffer list result" where
  "remove_prefix_loop bs n =
     (if \<not> 0 < n then Inr bs
      else case bs of
          [] \<Rightarrow> Inl (OutOfRange ''BufferList::remove_prefix'')
        | b # rest \<Rightarrow>
            if n < size_t (Buffer_str b)
            then try_bind (Buffer_remove_prefix b n) (\<lambda>b'. Inr (b' # rest))
            else remove_prefix_loop rest (n - size_t (Buffer_str b)))"

declare remove_prefix_loop.simps [simp del]

definition BufferList_remove_prefix :: "BufferList \<Rightarrow> u64 \<Rightarrow> BufferList result" where
  "BufferList_remove_prefix l n =
     try_bind (remove_prefix_loop (bl_buffers l) n) (\<lambda>bs. Inr (l\<lparr>bl_buffers := bs\<rparr>))"

section \<open>BufferViewList\<close>

record BufferViewList =
  bvl_views :: "bytes list"

record iovec =
  iov_base :: bytes
  iov_len :: u64

definition BufferViewList_of_string_view :: "bytes \<Rightarrow> BufferViewList" where
  "BufferViewList_of_string_view str = \<lparr>bvl_views = [str]\<rparr>"

definition BufferViewList_of_BufferList :: "BufferList \<Rightarrow> BufferViewList" where
  "BufferViewList_of_BufferList buffers =
     fold (\<lambda>x l. l\<lparr>bvl_views := bvl_views l @ [Buffer_str x]\<rparr>) (bl_buffers buffers) \<lparr>bvl_views = []\<rparr>"

fun view_prefix_loop :: "bytes list \<Rightarrow> u64 \<Rightarrow> bytes list result" where
  "view_prefix_loop vs n =
     (if \<not> 0 < n then Inr vs
      else case vs of
          [] \<Rightarrow> Inl (OutOfRange ''BufferListView::remove_prefix'')
        | v # rest \<Rightarrow>
            if n < size_t v then Inr (drop (unat n) v # rest)
            else view_prefix_loop rest (n - size_t v))"

declare view_prefix_loop.simps [simp del]

definition BufferViewList_remove_prefix :: "BufferViewList \<Rightarrow> u64 \<Rightarrow> BufferViewList result" where
  "BufferViewList_remove_prefix l n =
     try_bind (view_prefix_loop (bvl_views l) n) (\<lambda>vs. Inr (l\<lparr>bvl_views := vs\<rparr>))"

definition BufferViewList_size :: "BufferViewList \<Rightarrow> u64" where
  "BufferViewList_size l = fold (\<lambda>buf ret. ret + size_t buf) (bvl_views l) 0"

definition as_iovecs :: "BufferViewList \<Rightarrow> iovec list" where
  "as_iovecs l = fold (\<lambda>x ret. ret @ [\<lparr>iov_base = x, iov_len = size_t x\<rparr>]) (bvl_views l) []"

section \<open>The contract of a string whose front can be discarded\<close>

locale discardable =
  fixes contents :: "'s \<Rightarrow> bytes"
    and discard :: "'s \<Rightarrow> u64 \<Rightarrow> 's result"
    and ok :: "'s \<Rightarrow> bool"
  assumes discard_ok: "ok b \<Longrightarrow> unat n \<le> length (contents b) \<Longrightarrow>
      \<exists>b'. discard b n = Inr b' \<and> ok b' \<and> contents b' = drop (unat n) (contents b)"
    and discard_error: "ok b \<Longrightarrow> length (contents b) < unat n \<Longrightarrow> \<exists>what. discard b n = Inl (OutOfRange what)"
begin

lemma discard_iff:
  assumes "ok b"
  shows "(\<exists>b'. discard b n = Inr b') \<longleftrightarrow> unat n \<le> length (contents b)"
  using discard_ok [OF assms, of n] discard_error [OF assms, of n] by (cases "unat n \<le> length (contents b)") auto

text \<open>Consuming a string piece by piece: every piece within what is left, nothing lost or repeated.\<close>

lemma discard_pieces:
  assumes "ok b" and "sum_list (map unat ns) \<le> length (contents b)"
  shows "\<exists>b'. for_each ns (\<lambda>n b. discard b n) b = Inr b' \<and> ok b'
    \<and> contents b' = drop (sum_list (map unat ns)) (contents b)"
  using assms
proof (induction ns arbitrary: b)
  case (Cons n ns)
  obtain b1 where b1: "discard b n = Inr b1" "ok b1" "contents b1 = drop (unat n) (contents b)"
    using discard_ok [of b n] Cons.prems by auto
  have "sum_list (map unat ns) \<le> length (contents b1)" using Cons.prems(2) by (simp add: b1)
  from Cons.IH [OF b1(2) this] obtain b' where
    "for_each ns (\<lambda>n b. discard b n) b1 = Inr b'" "ok b'"
    "contents b' = drop (sum_list (map unat ns)) (contents b1)" by blast
  then show ?case by (simp add: b1 add.commute)
qed simp

end

section \<open>The three classes keep the contract\<close>

definition buffer_ok :: "Buffer \<Rightarrow> bool" where
  "buffer_ok b = (case buf_storage b of
     None \<Rightarrow> True
   | Some st \<Rightarrow> length st < 2 ^ 64 \<and> unat (buf_starting_offset b) \<le> length st)"

lemma buffer_ok_default [simp]: "buffer_ok Buffer_default" "Buffer_str Buffer_default = []"
  by (simp_all add: Buffer_default_def buffer_ok_def Buffer_str_def)

lemma buffer_ok_of_string [simp]: "length str < 2 ^ 64 \<Longrightarrow> buffer_ok (Buffer_of_string str)"
  by (simp add: Buffer_of_string_def buffer_ok_def)

lemma Buffer_str_of_string [simp]: "length str < 2 ^ 64 \<Longrightarrow> Buffer_str (Buffer_of_string str) = str"
  by (simp add: Buffer_of_string_def Buffer_str_def unat_size_t)

lemma Buffer_str_Some:
  assumes "length st < 2 ^ 64" and "unat off \<le> length st"
  shows "Buffer_str \<lparr>buf_storage = Some st, buf_starting_offset = off\<rparr> = drop (unat off) st"
proof -
  have "off \<le> size_t st" using assms by (simp add: word_nat)
  then show ?thesis using assms by (simp add: Buffer_str_def unat_sub unat_size_t)
qed

lemma Buffer_str_length:
  assumes "buffer_ok b"
  shows "length (Buffer_str b) < 2 ^ 64"
proof (cases "buf_storage b")
  case (Some st)
  have "length (Buffer_str b) \<le> length st" by (simp add: Buffer_str_def Some)
  also have "\<dots> < 2 ^ 64" using assms by (simp add: buffer_ok_def Some)
  finally show ?thesis .
qed (simp add: Buffer_str_def)

lemma Buffer_remove_prefix_ok:
  assumes ok: "buffer_ok b" and n: "unat n \<le> length (Buffer_str b)"
  shows "\<exists>b'. Buffer_remove_prefix b n = Inr b' \<and> buffer_ok b'
    \<and> Buffer_str b' = drop (unat n) (Buffer_str b)"
proof (cases "buf_storage b")
  case None
  then show ?thesis
    using n by (auto simp: Buffer_remove_prefix_def Buffer_str_def buffer_ok_def unat_eq_0 Let_def)
next
  case (Some st)
  obtain off where b: "b = \<lparr>buf_storage = Some st, buf_starting_offset = off\<rparr>"
    using Some by (cases b) simp
  have st: "length st < 2 ^ 64" "unat off \<le> length st" using ok by (simp_all add: buffer_ok_def b)
  have str: "Buffer_str b = drop (unat off) st" by (simp only: b Buffer_str_Some [OF st])
  have sum: "unat off + unat n \<le> length st" using n st by (simp add: str)
  then have off': "unat (off + n) = unat off + unat n" using st by (simp add: unat_add_small)
  have "\<not> size_t (Buffer_str b) < n" using n st by (simp add: str word_nat)
  moreover have "off + n = size_t st \<longleftrightarrow> unat off + unat n = length st"
    using off' st(1) by (metis unat_size_t word_eq_iff_unsigned)
  ultimately have "Buffer_remove_prefix b n =
      Inr (if unat off + unat n = length st then \<lparr>buf_storage = None, buf_starting_offset = off + n\<rparr>
           else \<lparr>buf_storage = Some st, buf_starting_offset = off + n\<rparr>)"
    by (simp add: Buffer_remove_prefix_def Let_def b)
  moreover have "Buffer_str \<lparr>buf_storage = None, buf_starting_offset = off + n\<rparr> = []"
    by (simp add: Buffer_str_def)
  ultimately show ?thesis
    using sum off' st Buffer_str_Some [OF st(1), of "off + n"]
    by (auto simp: buffer_ok_def str add.commute)
qed

lemma Buffer_remove_prefix_error:
  assumes "buffer_ok b" and "length (Buffer_str b) < unat n"
  shows "Buffer_remove_prefix b n = Inl (OutOfRange ''Buffer::remove_prefix'')"
  using assms Buffer_str_length [OF assms(1)] by (simp add: Buffer_remove_prefix_def word_nat)

interpretation buf: discardable Buffer_str Buffer_remove_prefix buffer_ok
  by unfold_locales (auto simp: Buffer_remove_prefix_ok Buffer_remove_prefix_error)

lemma fold_append_map: "fold (\<lambda>x acc. acc @ f x) xs a = a @ concat (map f xs)"
  by (induction xs arbitrary: a) auto

lemma fold_push_map: "fold (\<lambda>x acc. acc @ [f x]) xs a = a @ map f xs"
  by (induction xs arbitrary: a) auto

lemma fold_size: "fold (\<lambda>x n. n + size_t (f x)) xs (size_t a) = size_t (a @ concat (map f xs))"
proof (induction xs arbitrary: a)
  case (Cons x xs)
  then show ?case using Cons.IH [of "a @ f x"] by (simp add: size_t_append)
qed simp

lemma BufferList_concatenate_eq: "BufferList_concatenate l = concat (map Buffer_str (bl_buffers l))"
  by (simp add: BufferList_concatenate_def fold_append_map)

lemma BufferList_size_eq: "BufferList_size l = size_t (BufferList_concatenate l)"
  using fold_size [of Buffer_str "bl_buffers l" "[]"]
  by (simp add: BufferList_concatenate_eq BufferList_size_def Buffer_size_def)

lemma BufferViewList_size_eq: "BufferViewList_size l = size_t (concat (bvl_views l))"
  using fold_size [of "\<lambda>x. x" "bvl_views l" "[]"] by (simp add: BufferViewList_size_def)

lemma fold_snoc_buffers:
  "fold (\<lambda>buf l. l\<lparr>bl_buffers := bl_buffers l @ [buf]\<rparr>) bs l = l\<lparr>bl_buffers := bl_buffers l @ bs\<rparr>"
  by (induction bs arbitrary: l) simp_all

lemma BufferList_append_eq: "BufferList_append l other = l\<lparr>bl_buffers := bl_buffers l @ bl_buffers other\<rparr>"
  by (simp add: BufferList_append_def fold_snoc_buffers)

lemma BufferList_of_string_buffers: "bl_buffers (BufferList_of_string str) = [Buffer_of_string str]"
  by (simp add: BufferList_of_string_def BufferList_append_eq BufferList_default_def
      BufferList_of_Buffer_def)

lemma fold_snoc_views:
  "bvl_views (fold (\<lambda>x l. l\<lparr>bvl_views := bvl_views l @ [Buffer_str x]\<rparr>) bs l) = bvl_views l @ map Buffer_str bs"
  by (induction bs arbitrary: l) simp_all

lemma views_of_buffers: "bvl_views (BufferViewList_of_BufferList l) = map Buffer_str (bl_buffers l)"
  by (simp add: BufferViewList_of_BufferList_def fold_snoc_views)

lemma as_iovecs_eq: "as_iovecs l = map (\<lambda>x. \<lparr>iov_base = x, iov_len = size_t x\<rparr>) (bvl_views l)"
  by (simp add: as_iovecs_def fold_push_map)

text \<open>Both loops at once: pieces of which the first may be shortened, the others are dropped whole.\<close>

lemma remove_prefix_loop_ok:
  assumes "list_all buffer_ok bs" and "unat n \<le> length (concat (map Buffer_str bs))"
  shows "\<exists>bs'. remove_prefix_loop bs n = Inr bs' \<and> list_all buffer_ok bs'
    \<and> concat (map Buffer_str bs') = drop (unat n) (concat (map Buffer_str bs))"
  using assms
proof (induction bs arbitrary: n)
  case Nil
  then show ?case by (simp add: remove_prefix_loop.simps unat_eq_0)
next
  case (Cons b bs)
  let ?k = "size_t (Buffer_str b)"
  have b: "buffer_ok b" and k: "unat ?k = length (Buffer_str b)"
    using Cons.prems(1) Buffer_str_length [of b] by (simp_all add: unat_size_t)
  show ?case
  proof (cases "n < ?k")
    case True
    then have "unat n < length (Buffer_str b)" by (simp add: word_less_nat_alt k)
    moreover from this obtain b' where "Buffer_remove_prefix b n = Inr b'" "buffer_ok b'"
        "Buffer_str b' = drop (unat n) (Buffer_str b)"
      using Buffer_remove_prefix_ok [OF b, of n] by auto
    ultimately show ?thesis
      using True Cons.prems(1) by (cases "n = 0") (auto simp: remove_prefix_loop.simps word_gt_0)
  next
    case False
    then have n: "unat (n - ?k) = unat n - length (Buffer_str b)" "length (Buffer_str b) \<le> unat n"
      by (simp_all add: unat_sub word_less_nat_alt word_le_nat_alt k linorder_not_less)
    have rest: "unat (n - ?k) \<le> length (concat (map Buffer_str bs))" "list_all buffer_ok bs"
      using Cons.prems by (simp_all add: n)
    from Cons.IH [OF rest(2,1)] obtain bs' where
        "remove_prefix_loop bs (n - ?k) = Inr bs'" "list_all buffer_ok bs'"
        "concat (map Buffer_str bs') = drop (unat (n - ?k)) (concat (map Buffer_str bs))"
      by blast
    with n False Cons.prems(1) show ?thesis
      by (cases "n = 0") (auto simp: remove_prefix_loop.simps [of "b # bs"] word_gt_0)
  qed
qed

lemma remove_prefix_loop_error:
  assumes "list_all buffer_ok bs" and "length (concat (map Buffer_str bs)) < unat n"
  shows "remove_prefix_loop bs n = Inl (OutOfRange ''BufferList::remove_prefix'')"
  using assms
proof (induction bs arbitrary: n)
  case Nil
  then show ?case by (auto simp: remove_prefix_loop.simps word_gt_0)
next
  case (Cons b bs)
  let ?k = "size_t (Buffer_str b)"
  have k: "unat ?k = length (Buffer_str b)"
    using Cons.prems(1) Buffer_str_length [of b] by (simp add: unat_size_t)
  have n: "unat (n - ?k) = unat n - length (Buffer_str b)" and "\<not> n < ?k" "n \<noteq> 0"
    using Cons.prems(2) by (auto simp: unat_sub word_less_nat_alt word_le_nat_alt k)
  moreover have "remove_prefix_loop bs (n - ?k) = Inl (OutOfRange ''BufferList::remove_prefix'')"
    using Cons.IH [of "n - ?k"] Cons.prems by (simp add: n)
  ultimately show ?case by (simp add: remove_prefix_loop.simps [of "b # bs"] word_gt_0)
qed

interpretation bl: discardable BufferList_concatenate BufferList_remove_prefix
  "\<lambda>l :: BufferList. list_all buffer_ok (bl_buffers l)"
proof unfold_locales
  fix b :: BufferList and n assume ok: "list_all buffer_ok (bl_buffers b)"
  show "\<exists>b'. BufferList_remove_prefix b n = Inr b' \<and> list_all buffer_ok (bl_buffers b')
      \<and> BufferList_concatenate b' = drop (unat n) (BufferList_concatenate b)"
    if "unat n \<le> length (BufferList_concatenate b)"
    using remove_prefix_loop_ok [OF ok, of n] that
    by (auto simp: BufferList_concatenate_eq BufferList_remove_prefix_def)
  show "\<exists>what. BufferList_remove_prefix b n = Inl (OutOfRange what)"
    if "length (BufferList_concatenate b) < unat n"
    using remove_prefix_loop_error [OF ok, of n] that
    by (auto simp: BufferList_concatenate_eq BufferList_remove_prefix_def)
qed

lemma view_prefix_loop_zero [simp]: "view_prefix_loop vs 0 = Inr vs"
  by (simp add: view_prefix_loop.simps)

lemma view_prefix_loop_ok:
  assumes "\<forall>v \<in> set vs. length v < 2 ^ 64" and "unat n \<le> length (concat vs)"
  shows "\<exists>vs'. view_prefix_loop vs n = Inr vs' \<and> (\<forall>v \<in> set vs'. length v < 2 ^ 64)
    \<and> concat vs' = drop (unat n) (concat vs)"
  using assms
proof (induction vs arbitrary: n)
  case Nil
  then show ?case by (simp add: view_prefix_loop.simps unat_eq_0)
next
  case (Cons v vs)
  have k: "unat (size_t v) = length v" using Cons.prems(1) by (simp add: unat_size_t)
  show ?case
  proof (cases "n < size_t v")
    case True
    then show ?thesis
      using Cons.prems(1) by (cases "n = 0") (auto simp: view_prefix_loop.simps word_less_nat_alt k)
  next
    case False
    then have n: "unat (n - size_t v) = unat n - length v" "length v \<le> unat n"
      by (simp_all add: unat_sub word_less_nat_alt word_le_nat_alt k linorder_not_less)
    have rest: "\<forall>v \<in> set vs. length v < 2 ^ 64" "unat (n - size_t v) \<le> length (concat vs)"
      using Cons.prems by (simp_all add: n)
    obtain vs' where "view_prefix_loop vs (n - size_t v) = Inr vs'"
        "\<forall>v \<in> set vs'. length v < 2 ^ 64" "concat vs' = drop (unat n - length v) (concat vs)"
      using Cons.IH [OF rest] by (auto simp: n)
    with n False Cons.prems(1) show ?thesis
      by (cases "n = 0") (auto simp: view_prefix_loop.simps [of "v # vs"] word_gt_0)
  qed
qed

lemma view_prefix_loop_error:
  assumes "\<forall>v \<in> set vs. length v < 2 ^ 64" and "length (concat vs) < unat n"
  shows "view_prefix_loop vs n = Inl (OutOfRange ''BufferListView::remove_prefix'')"
  using assms
proof (induction vs arbitrary: n)
  case Nil
  then show ?case by (auto simp: view_prefix_loop.simps word_gt_0)
next
  case (Cons v vs)
  have k: "unat (size_t v) = length v" using Cons.prems(1) by (simp add: unat_size_t)
  have n: "unat (n - size_t v) = unat n - length v" and "\<not> n < size_t v" "n \<noteq> 0"
    using Cons.prems(2) by (auto simp: unat_sub word_less_nat_alt word_le_nat_alt k)
  then show ?case
    using Cons.IH [of "n - size_t v"] Cons.prems by (simp add: view_prefix_loop.simps [of "v # vs"] word_gt_0)
qed

definition bvl_contents :: "BufferViewList \<Rightarrow> bytes" where
  "bvl_contents l = concat (bvl_views l)"

interpretation bvl: discardable bvl_contents BufferViewList_remove_prefix
  "\<lambda>l :: BufferViewList. \<forall>v \<in> set (bvl_views l). length v < 2 ^ 64"
proof unfold_locales
  fix b :: BufferViewList and n assume ok: "\<forall>v \<in> set (bvl_views b). length v < 2 ^ 64"
  show "\<exists>b'. BufferViewList_remove_prefix b n = Inr b' \<and> (\<forall>v \<in> set (bvl_views b'). length v < 2 ^ 64)
      \<and> bvl_contents b' = drop (unat n) (bvl_contents b)"
    if "unat n \<le> length (bvl_contents b)"
    using view_prefix_loop_ok [OF ok, of n] that
    by (auto simp: bvl_contents_def BufferViewList_remove_prefix_def)
  show "\<exists>what. BufferViewList_remove_prefix b n = Inl (OutOfRange what)"
    if "length (bvl_contents b) < unat n"
    using view_prefix_loop_error [OF ok, of n] that
    by (auto simp: bvl_contents_def BufferViewList_remove_prefix_def)
qed

lemma view_ok_of_buffers:
  "list_all buffer_ok (bl_buffers l) \<Longrightarrow>
   \<forall>v \<in> set (bvl_views (BufferViewList_of_BufferList l)). length v < 2 ^ 64"
  using Buffer_str_length by (auto simp: views_of_buffers list_all_iff)

lemma bvl_contents_of_buffers:
  "bvl_contents (BufferViewList_of_BufferList l) = BufferList_concatenate l"
  by (simp add: bvl_contents_def views_of_buffers BufferList_concatenate_eq)

section \<open>Properties\<close>

text \<open>
  C34. Discarding a buffer list piece by piece: as long as the pieces do not exceed what the list
  holds, every call succeeds, exactly the discarded bytes are gone from the front, and a view list
  made of the buffers, given the same calls, shows the same bytes; a piece larger than what is held
  raises \<open>out_of_range\<close> in both.
\<close>

theorem buffer_list_pieces:
  assumes "list_all buffer_ok (bl_buffers l)"
    and "sum_list (map unat ns) \<le> length (BufferList_concatenate l)"
  shows "\<exists>l' v'. for_each ns (\<lambda>n b. BufferList_remove_prefix b n) l = Inr l'
    \<and> for_each ns (\<lambda>n b. BufferViewList_remove_prefix b n) (BufferViewList_of_BufferList l) = Inr v'
    \<and> BufferList_concatenate l' = drop (sum_list (map unat ns)) (BufferList_concatenate l)
    \<and> concat (map iov_base (as_iovecs v')) = BufferList_concatenate l'
    \<and> BufferList_size l' = size_t (BufferList_concatenate l')
    \<and> BufferViewList_size v' = BufferList_size l'
    \<and> (\<forall>n. length (BufferList_concatenate l') < unat n \<longrightarrow>
         (\<exists>w w'. BufferList_remove_prefix l' n = Inl (OutOfRange w)
               \<and> BufferViewList_remove_prefix v' n = Inl (OutOfRange w')))"
proof -
  let ?v = "BufferViewList_of_BufferList l"
  obtain l' where l': "for_each ns (\<lambda>n b. BufferList_remove_prefix b n) l = Inr l'"
      "list_all buffer_ok (bl_buffers l')"
      "BufferList_concatenate l' = drop (sum_list (map unat ns)) (BufferList_concatenate l)"
    using bl.discard_pieces [OF assms] by blast
  obtain v' where v': "for_each ns (\<lambda>n b. BufferViewList_remove_prefix b n) ?v = Inr v'"
      "\<forall>v \<in> set (bvl_views v'). length v < 2 ^ 64"
      "bvl_contents v' = drop (sum_list (map unat ns)) (bvl_contents ?v)"
    using bvl.discard_pieces [OF view_ok_of_buffers [OF assms(1)], of ns] assms(2)
    by (auto simp: bvl_contents_of_buffers)
  have same: "bvl_contents v' = BufferList_concatenate l'"
    by (simp add: v'(3) l'(3) bvl_contents_of_buffers)
  then have "concat (map iov_base (as_iovecs v')) = BufferList_concatenate l'"
    by (simp add: as_iovecs_eq bvl_contents_def comp_def)
  moreover have "BufferViewList_size v' = BufferList_size l'"
    using same by (simp add: BufferViewList_size_eq BufferList_size_eq bvl_contents_def)
  moreover have "\<exists>w w'. BufferList_remove_prefix l' n = Inl (OutOfRange w)
      \<and> BufferViewList_remove_prefix v' n = Inl (OutOfRange w')"
    if "length (BufferList_concatenate l') < unat n" for n
    using bl.discard_error [OF l'(2) that] bvl.discard_error [OF v'(2)] that same by auto
  ultimately show ?thesis
    using l' v'(1) BufferList_size_eq by blast
qed

theorem buffer_list_pieces_witness:
  "\<exists>l'. for_each [1, 2] (\<lambda>n b. BufferList_remove_prefix b n)
          (BufferList_append (BufferList_of_string [10, 20]) (BufferList_of_string [30, 40, 50])) = Inr l'
     \<and> BufferList_concatenate l' = [40, 50]"
proof -
  let ?l = "BufferList_append (BufferList_of_string [10, 20]) (BufferList_of_string [30, 40, 50])"
  have l: "bl_buffers ?l = [Buffer_of_string [10, 20], Buffer_of_string [30, 40, 50]]"
    by (simp add: BufferList_append_eq BufferList_of_string_buffers)
  then have c: "BufferList_concatenate ?l = [10, 20, 30, 40, 50]"
    by (simp add: BufferList_concatenate_eq)
  have "list_all buffer_ok (bl_buffers ?l)" by (simp add: l)
  from buffer_list_pieces [OF this, of "[1, 2]"] show ?thesis by (auto simp: c)
qed

end
