(* ===== verification/Net_Parser.thy ===== *)
theory Net_Parser
  imports Buffers
begin

text \<open>
  Reading and writing integers in network byte order: \<open>NetParser\<close> and \<open>NetUnparser\<close> of
  \<open>util/parser.hh\<close> and \<open>util/parser.cc\<close>. The two function templates are definitions polymorphic
  in the word width, used at 8, 16 and 32 bits. A parser in an error state returns 0 and consumes
  nothing; the exceptions the underlying \<open>Buffer\<close> could raise are shown never to be raised.
\<close>

unbundle bit_operations_syntax

section \<open>Definitions\<close>

datatype ParseResult =
    NoError
  | BadChecksum
  | PacketTooShort
  | WrongIPVersion
  | HeaderTooShort
  | TruncatedPacket
  | Unsupported

fun parse_result_index :: "ParseResult \<Rightarrow> nat" where
  "parse_result_index NoError = 0"
| "parse_result_index BadChecksum = 1"
| "parse_result_index PacketTooShort = 2"
| "parse_result_index WrongIPVersion = 3"
| "parse_result_index HeaderTooShort = 4"
| "parse_result_index TruncatedPacket = 5"
| "parse_result_index Unsupported = 6"

definition as_string :: "ParseResult \<Rightarrow> string result" where
  "as_string r =
     (let names = [''NoError'', ''BadChecksum'', ''PacketTooShort'', ''WrongIPVersion'',
                   ''HeaderTooShort'', ''TruncatedPacket'']
      in if parse_result_index r < length names then Inr (names ! parse_result_index r)
         else Inl UndefinedBehaviour)"

record NetParser =
  np_buffer :: Buffer
  np_error :: ParseResult

definition NetParser_new :: "Buffer \<Rightarrow> NetParser" where
  "NetParser_new buffer = \<lparr>np_buffer = buffer, np_error = NoError\<rparr>"

definition NetParser_set_error :: "NetParser \<Rightarrow> ParseResult \<Rightarrow> NetParser" where
  "NetParser_set_error p res = p\<lparr>np_error := res\<rparr>"

definition NetParser_error :: "NetParser \<Rightarrow> bool" where
  "NetParser_error p \<longleftrightarrow> np_error p \<noteq> NoError"

definition check_size :: "NetParser \<Rightarrow> u64 \<Rightarrow> NetParser" where
  "check_size p sz =
     (if Buffer_size (np_buffer p) < sz then NetParser_set_error p PacketTooShort else p)"

definition parse_int :: "NetParser \<Rightarrow> ('a::len word \<times> NetParser) result" where
  "parse_int p =
     (let len = LENGTH('a) div 8;
          p1 = check_size p (word_of_nat len)
      in if NetParser_error p1 then Inr (0, p1)
         else try_bind
           (for_each [0..<len] (\<lambda>i ret.
              try_bind (Buffer_at (np_buffer p1) (word_of_nat i)) (\<lambda>b.
                Inr (push_bit 8 ret + ucast b))) 0)
           (\<lambda>ret. try_bind (Buffer_remove_prefix (np_buffer p1) (word_of_nat len)) (\<lambda>buf'.
              Inr (ret, p1\<lparr>np_buffer := buf'\<rparr>))))"

definition NetParser_remove_prefix :: "NetParser \<Rightarrow> u64 \<Rightarrow> NetParser result" where
  "NetParser_remove_prefix p n =
     (let p1 = check_size p n
      in if NetParser_error p1 then Inr p1
         else try_bind (Buffer_remove_prefix (np_buffer p1) n) (\<lambda>buf'. Inr (p1\<lparr>np_buffer := buf'\<rparr>)))"

definition NetParser_u32 :: "NetParser \<Rightarrow> (u32 \<times> NetParser) result" where
  "NetParser_u32 p = parse_int p"

definition NetParser_u16 :: "NetParser \<Rightarrow> (u16 \<times> NetParser) result" where
  "NetParser_u16 p = parse_int p"

definition NetParser_u8 :: "NetParser \<Rightarrow> (u8 \<times> NetParser) result" where
  "NetParser_u8 p = parse_int p"

definition unparse_int :: "bytes \<Rightarrow> 'a::len word \<Rightarrow> bytes" where
  "unparse_int s val =
     (let len = LENGTH('a) div 8
      in fold (\<lambda>i s. s @ [ucast (drop_bit ((len - i - 1) * 8) val AND 0xff)]) [0..<len] s)"

definition NetUnparser_u32 :: "bytes \<Rightarrow> u32 \<Rightarrow> bytes" where
  "NetUnparser_u32 s val = unparse_int s val"

definition NetUnparser_u16 :: "bytes \<Rightarrow> u16 \<Rightarrow> bytes" where
  "NetUnparser_u16 s val = unparse_int s val"

definition NetUnparser_u8 :: "bytes \<Rightarrow> u8 \<Rightarrow> bytes" where
  "NetUnparser_u8 s val = unparse_int s val"

section \<open>Big-endian numbers\<close>

definition be_nat :: "bytes \<Rightarrow> nat" where
  "be_nat bs = foldl (\<lambda>a b. a * 256 + unat b) 0 bs"

lemma be_nat_snoc [simp]: "be_nat (bs @ [b]) = be_nat bs * 256 + unat b" "be_nat [] = 0"
  by (simp_all add: be_nat_def)

lemma be_nat_digits:
  "be_nat (map (\<lambda>i. word_of_nat (x div 256 ^ (n - i - 1))) [0..<n]) = x mod 256 ^ n"
proof (induction n arbitrary: x)
  case (Suc n)
  let ?f = "\<lambda>i. word_of_nat (x div 256 ^ (Suc n - i - 1)) :: u8"
    and ?g = "\<lambda>i. word_of_nat (x div 256 div 256 ^ (n - i - 1)) :: u8"
  have "map ?f [0..<n] = map ?g [0..<n]"
  proof (rule map_cong [OF refl])
    fix i assume "i \<in> set [0..<n]"
    then have "Suc n - i - 1 = Suc (n - i - 1)" by auto
    then show "?f i = ?g i" by (simp only: power_Suc div_mult2_eq)
  qed
  then have "map ?f [0..<Suc n] = map ?g [0..<n] @ [word_of_nat x]"
    by (simp only: upt_Suc_append map_append) simp
  then have "be_nat (map ?f [0..<Suc n]) = (x div 256) mod 256 ^ n * 256 + x mod 256"
    using Suc.IH [of "x div 256"] by (simp only: be_nat_snoc) (simp add: unat_of_nat)
  also have "\<dots> = x mod 256 ^ Suc n"
    by (simp add: mod_mult2_eq [of x 256 "256 ^ n"] mult.commute)
  finally show ?case .
qed simp

text \<open>The loop of \<open>_parse_int\<close> computes the big-endian value of the first bytes, modulo the width.\<close>

lemma parse_step: "push_bit 8 (word_of_nat a :: 'a::len word) + ucast (b :: u8) = word_of_nat (a * 256 + unat b)"
proof -
  have "(ucast b :: 'a word) = word_of_nat (unat b)" by (simp add: of_nat_unat)
  then show ?thesis by (simp add: push_bit_eq_mult mult.commute)
qed

lemma Buffer_at_eq:
  assumes "buffer_ok b" and "i < length (Buffer_str b)"
  shows "Buffer_at b (word_of_nat i) = Inr (Buffer_str b ! i)"
proof -
  have "i < 2 ^ 64" using Buffer_str_length [OF assms(1)] assms(2) by linarith
  then show ?thesis
    using assms Buffer_str_length [OF assms(1)] by (simp add: Buffer_at_def word_nat)
qed

lemma parse_loop:
  assumes "buffer_ok b" and "n \<le> length (Buffer_str b)"
  shows "for_each [0..<n] (\<lambda>i ret. try_bind (Buffer_at b (word_of_nat i)) (\<lambda>c.
      Inr (push_bit 8 ret + ucast c))) (0 :: 'a::len word) = Inr (word_of_nat (be_nat (take n (Buffer_str b))))"
  using assms(2)
proof (induction n)
  case (Suc n)
  then show ?case
    by (simp add: for_each_append Buffer_at_eq [OF assms(1)] parse_step take_Suc_conv_app_nth)
qed simp

text \<open>The state of a parser whose unread bytes are \<open>bs\<close> and that has met no error.\<close>

definition reads_from :: "NetParser \<Rightarrow> bytes \<Rightarrow> bool" where
  "reads_from p bs \<longleftrightarrow> buffer_ok (np_buffer p) \<and> Buffer_str (np_buffer p) = bs \<and> np_error p = NoError"

lemma check_size_eq:
  assumes "buffer_ok (np_buffer p)"
  shows "check_size p n = (if length (Buffer_str (np_buffer p)) < unat n then p\<lparr>np_error := PacketTooShort\<rparr> else p)"
  using Buffer_str_length [OF assms]
  by (simp add: check_size_def Buffer_size_def NetParser_set_error_def word_nat)

lemma parse_int_ok:
  assumes "reads_from p bs" and len: "LENGTH('a::len) div 8 \<le> length bs"
  shows "\<exists>p'. parse_int p = Inr (word_of_nat (be_nat (take (LENGTH('a) div 8) bs)) :: 'a word, p')
    \<and> reads_from p' (drop (LENGTH('a) div 8) bs)"
proof -
  let ?n = "LENGTH('a) div 8" and ?b = "np_buffer p"
  have ok: "buffer_ok ?b" "Buffer_str ?b = bs" "np_error p = NoError"
    using assms(1) by (simp_all add: reads_from_def)
  have n: "unat (word_of_nat ?n :: u64) = ?n"
    using len Buffer_str_length [OF ok(1)] ok(2) by (simp add: unat_of_nat_small)
  obtain b' where b': "Buffer_remove_prefix ?b (word_of_nat ?n) = Inr b'" "buffer_ok b'"
      "Buffer_str b' = drop ?n bs"
    using buf.discard_ok [OF ok(1), of "word_of_nat ?n"] len by (auto simp: n ok(2))
  then show ?thesis
    using parse_loop [OF ok(1), of ?n, where 'a = 'a] len
    by (simp add: parse_int_def Let_def check_size_eq [OF ok(1)] n ok NetParser_error_def reads_from_def)
qed

lemma parse_int_short:
  assumes "buffer_ok (np_buffer p)" and "length (Buffer_str (np_buffer p)) < LENGTH('a::len) div 8"
    and "LENGTH('a) < 2 ^ 64"
  shows "parse_int p = Inr (0 :: 'a word, p\<lparr>np_error := PacketTooShort\<rparr>)"
  using assms
  by (simp add: parse_int_def Let_def check_size_eq NetParser_error_def unat_of_nat_small)

lemma parse_int_error:
  assumes "buffer_ok (np_buffer p)" and "np_error p \<noteq> NoError"
  shows "\<exists>e. parse_int p = Inr (0 :: 'a::len word, p\<lparr>np_error := e\<rparr>) \<and> e \<noteq> NoError"
  using assms
  by (auto simp: parse_int_def Let_def check_size_eq NetParser_error_def intro: exI [of _ "np_error p"])

section \<open>Writing\<close>

lemma byte_and_mask: "(ucast ((x :: 'a::len word) AND 0xff) :: u8) = ucast x"
proof -
  have "x AND 0xff = take_bit 8 x"
    by (simp add: take_bit_eq_mask mask_eq_exp_minus_1)
  then show ?thesis
    by (simp add: unsigned_take_bit_eq flip: take_bit_eq_mod) (transfer, simp)
qed

lemma unparse_digit:
  "(ucast (drop_bit (m * 8) (v :: 'a::len word) AND 0xff) :: u8) = word_of_nat (unat v div 256 ^ m)"
proof -
  have "(256 :: nat) ^ m = 2 ^ (m * 8)" by (simp add: power_mult mult.commute [of m])
  then have "unat (drop_bit (m * 8) v) = unat v div 256 ^ m"
    using unat_drop_bit_eq [of "m * 8" v] drop_bit_eq_div [of "m * 8" "unat v"] by (simp only:)
  then show ?thesis by (metis byte_and_mask of_nat_unat)
qed

lemma unparse_int_eq:
  "unparse_int s (v :: 'a::len word) =
     s @ map (\<lambda>i. word_of_nat (unat v div 256 ^ (LENGTH('a) div 8 - i - 1))) [0..<LENGTH('a) div 8]"
  by (simp only: unparse_int_def Let_def unparse_digit fold_snoc_upt)

lemma be_nat_less: "be_nat bs < 256 ^ length bs"
proof (induction bs rule: rev_induct)
  case (snoc b bs)
  have "unat b < 256" using unsigned_less [where w = b and 'a = nat] by simp
  moreover have "Suc (be_nat bs) * 256 \<le> 256 ^ length bs * 256" using snoc by (simp del: mult_Suc)
  ultimately show ?case by simp
qed simp

lemma digits_be_nat: "map (\<lambda>i. word_of_nat (be_nat bs div 256 ^ (length bs - i - 1))) [0..<length bs] = bs"
proof (rule nth_equalityI; clarsimp)
  fix i assume "i < length bs"
  then show "(word_of_nat (be_nat bs div 256 ^ (length bs - Suc i)) :: u8) = bs ! i"
  proof (induction bs rule: rev_induct)
    case (snoc b bs)
    have b: "unat b < 256" using unsigned_less [where w = b and 'a = nat] by simp
    show ?case
    proof (cases "i < length bs")
      case True
      then have "length (bs @ [b]) - Suc i = Suc (length bs - Suc i)" by simp
      then have "be_nat (bs @ [b]) div 256 ^ (length (bs @ [b]) - Suc i)
          = be_nat bs div 256 ^ (length bs - Suc i)"
        using b by (simp only: power_Suc div_mult2_eq be_nat_snoc) simp
      then show ?thesis using snoc.IH [OF True] True by (simp add: nth_append)
    next
      case False
      have "(word_of_nat (be_nat bs * 256 + unat b) :: u8) = word_of_nat (unat b)"
        by transfer (simp add: take_bit_eq_mod)
      with False snoc.prems show ?thesis by (simp add: nth_append)
    qed
  qed simp
qed

section \<open>The contract of an integer codec\<close>

locale net_codec =
  fixes put :: "bytes \<Rightarrow> 'v \<Rightarrow> bytes"
    and get :: "NetParser \<Rightarrow> ('v \<times> NetParser) result"
    and width :: nat
  assumes put_append: "put s v = s @ put [] v"
    and put_width: "length (put [] v) = width"
    and get_put: "reads_from p (put [] v @ rest) \<Longrightarrow> \<exists>p'. get p = Inr (v, p') \<and> reads_from p' rest"
    and put_get: "reads_from p (bs @ rest) \<Longrightarrow> length bs = width \<Longrightarrow>
      \<exists>v p'. get p = Inr (v, p') \<and> reads_from p' rest \<and> put [] v = bs"
    and get_short: "buffer_ok (np_buffer p) \<Longrightarrow> length (Buffer_str (np_buffer p)) < width \<Longrightarrow>
      \<exists>v. get p = Inr (v, p\<lparr>np_error := PacketTooShort\<rparr>)"
    and get_error: "buffer_ok (np_buffer p) \<Longrightarrow> np_error p \<noteq> NoError \<Longrightarrow>
      \<exists>v e. get p = Inr (v, p\<lparr>np_error := e\<rparr>) \<and> e \<noteq> NoError"
begin

text \<open>What was written comes back, also through a string that already holds other data.\<close>

lemma get_put_after:
  assumes "reads_from p (drop (length s) (put s v) @ rest)"
  shows "\<exists>p'. get p = Inr (v, p') \<and> reads_from p' rest"
  using assms get_put by (simp add: put_append [of s v])

text \<open>A read succeeds, moving past \<open>width\<close> bytes, or leaves the parser in an error state.\<close>

lemma get_total:
  assumes "buffer_ok (np_buffer p)"
  shows "\<exists>v p'. get p = Inr (v, p') \<and> buffer_ok (np_buffer p')
    \<and> (np_error p' = NoError \<longleftrightarrow> np_error p = NoError \<and> width \<le> length (Buffer_str (np_buffer p)))
    \<and> (np_error p' = NoError \<longrightarrow> Buffer_str (np_buffer p') = drop width (Buffer_str (np_buffer p)))"
proof (cases "np_error p = NoError \<and> width \<le> length (Buffer_str (np_buffer p))")
  case True
  let ?bs = "Buffer_str (np_buffer p)"
  have "reads_from p (take width ?bs @ drop width ?bs)" using True assms by (simp add: reads_from_def)
  from put_get [OF this] True show ?thesis by (auto simp: reads_from_def)
next
  case False
  then show ?thesis
    using get_error [OF assms] get_short [OF assms] assms by fastforce
qed

end

lemma be_nat_unparse:
  fixes v :: "'a::len word"
  assumes width: "LENGTH('a) = 8 * n"
  shows "be_nat (unparse_int [] v) = unat v"
proof -
  have "unat v mod 256 ^ n = unat v"
    using unsigned_less [where w = v and 'a = nat] by (simp add: width power_mult)
  then show ?thesis
    using be_nat_digits [of "unat v" n] width by (simp add: unparse_int_eq)
qed

lemma codec_laws:
  assumes width: "LENGTH('a::len) = 8 * n" and n: "8 * n < 2 ^ 64"
  shows "net_codec (unparse_int :: bytes \<Rightarrow> 'a word \<Rightarrow> bytes) parse_int n"
proof unfold_locales
  have div: "LENGTH('a) div 8 = n" using width by simp
  have pow: "(256 :: nat) ^ n = 2 ^ LENGTH('a)" by (simp add: width power_mult)
  fix s rest bs :: bytes and v :: "'a word" and p
  show "unparse_int s v = s @ unparse_int [] v" and len: "length (unparse_int [] v) = n" for v :: "'a word"
    by (simp_all add: unparse_int_eq div)
  show "\<exists>p'. parse_int p = Inr (v, p') \<and> reads_from p' rest" if "reads_from p (unparse_int [] v @ rest)"
  proof -
    have "be_nat (unparse_int [] v) = unat v" using width by (rule be_nat_unparse)
    then show ?thesis
      using parse_int_ok [OF that, where 'a = 'a] len [of v] by (simp add: div)
  qed
  show "\<exists>(v :: 'a word) p'. parse_int p = Inr (v, p') \<and> reads_from p' rest \<and> unparse_int [] v = bs"
    if "reads_from p (bs @ rest)" "length bs = n"
  proof -
    have "unat (word_of_nat (be_nat bs) :: 'a word) = be_nat bs"
      using be_nat_less [of bs] that(2) by (simp add: unat_of_nat pow)
    then have "unparse_int [] (word_of_nat (be_nat bs) :: 'a word) = bs"
      using digits_be_nat [of bs] that(2) by (simp add: unparse_int_eq div)
    then show ?thesis
      using parse_int_ok [OF that(1), where 'a = 'a] that(2) by (auto simp: div)
  qed
  show "\<exists>v :: 'a word. parse_int p = Inr (v, p\<lparr>np_error := PacketTooShort\<rparr>)"
    if "buffer_ok (np_buffer p)" "length (Buffer_str (np_buffer p)) < n"
    using parse_int_short [OF that(1), where 'a = 'a] that(2) n by (simp add: width)
  show "\<exists>(v :: 'a word) e. parse_int p = Inr (v, p\<lparr>np_error := e\<rparr>) \<and> e \<noteq> NoError"
    if "buffer_ok (np_buffer p)" "np_error p \<noteq> NoError"
    using parse_int_error [OF that] by blast
qed

lemma codec_eta:
  "NetUnparser_u32 = unparse_int" "NetParser_u32 = parse_int"
  "NetUnparser_u16 = unparse_int" "NetParser_u16 = parse_int"
  "NetUnparser_u8 = unparse_int" "NetParser_u8 = parse_int"
  by (simp_all add: fun_eq_iff NetUnparser_u32_def NetUnparser_u16_def NetUnparser_u8_def
      NetParser_u32_def NetParser_u16_def NetParser_u8_def)

interpretation u32: net_codec NetUnparser_u32 NetParser_u32 4
  unfolding codec_eta by (rule codec_laws) simp_all

interpretation u16: net_codec NetUnparser_u16 NetParser_u16 2
  unfolding codec_eta by (rule codec_laws) simp_all

interpretation u8: net_codec NetUnparser_u8 NetParser_u8 1
  unfolding codec_eta by (rule codec_laws) simp_all

section \<open>Records of integers\<close>

text \<open>A packet layout: a list of fields of the three widths, written and read in order.\<close>

datatype net_field = F8 u8 | F16 u16 | F32 u32

fun put_field :: "bytes \<Rightarrow> net_field \<Rightarrow> bytes" where
  "put_field s (F8 v) = NetUnparser_u8 s v"
| "put_field s (F16 v) = NetUnparser_u16 s v"
| "put_field s (F32 v) = NetUnparser_u32 s v"

fun get_field :: "net_field \<Rightarrow> NetParser \<Rightarrow> (net_field \<times> NetParser) result" where
  "get_field (F8 _) p = try_bind (NetParser_u8 p) (\<lambda>(v, p'). Inr (F8 v, p'))"
| "get_field (F16 _) p = try_bind (NetParser_u16 p) (\<lambda>(v, p'). Inr (F16 v, p'))"
| "get_field (F32 _) p = try_bind (NetParser_u32 p) (\<lambda>(v, p'). Inr (F32 v, p'))"

fun get_fields :: "net_field list \<Rightarrow> NetParser \<Rightarrow> (net_field list \<times> NetParser) result" where
  "get_fields [] p = Inr ([], p)"
| "get_fields (f # fs) p =
     try_bind (get_field f p) (\<lambda>(v, p1). try_bind (get_fields fs p1) (\<lambda>(vs, p2). Inr (v # vs, p2)))"

definition field_bytes :: "net_field list \<Rightarrow> bytes" where
  "field_bytes fs = concat (map (put_field []) fs)"

lemma put_field_append: "put_field s f = s @ put_field [] f"
  by (cases f) (simp_all add: u8.put_append [of s] u16.put_append [of s] u32.put_append [of s])

lemma put_fields: "foldl put_field s fs = s @ field_bytes fs"
proof (induction fs arbitrary: s)
  case (Cons f fs)
  show ?case
    using Cons.IH [of "put_field s f"] put_field_append [of s f] by (simp add: field_bytes_def)
qed (simp add: field_bytes_def)

lemma get_field_put:
  "reads_from p (put_field [] f @ rest) \<Longrightarrow> \<exists>p'. get_field f p = Inr (f, p') \<and> reads_from p' rest"
  using u8.get_put u16.get_put u32.get_put by (cases f) fastforce+

lemma get_fields_put:
  assumes "reads_from p (field_bytes fs @ rest)"
  shows "\<exists>p'. get_fields fs p = Inr (fs, p') \<and> reads_from p' rest"
  using assms
proof (induction fs arbitrary: p)
  case (Cons f fs)
  have "reads_from p (put_field [] f @ (field_bytes fs @ rest))"
    using Cons.prems by (simp add: field_bytes_def)
  from get_field_put [OF this] obtain p1 where
    "get_field f p = Inr (f, p1)" "reads_from p1 (field_bytes fs @ rest)" by blast
  with Cons.IH [of p1] show ?case by auto
qed (simp add: field_bytes_def)

lemma get_field_onto:
  assumes "reads_from p (bs @ rest)" and "length bs = length (put_field [] f)"
  shows "\<exists>f' p'. get_field f p = Inr (f', p') \<and> reads_from p' rest \<and> put_field [] f' = bs"
  using u8.put_get [OF assms(1)] u16.put_get [OF assms(1)] u32.put_get [OF assms(1)] assms(2)
  by (cases f) (fastforce simp: u8.put_width u16.put_width u32.put_width)+

lemma get_fields_onto:
  assumes "reads_from p (bs @ rest)" and "length bs = length (field_bytes fs)"
  shows "\<exists>fs' p'. get_fields fs p = Inr (fs', p') \<and> reads_from p' rest \<and> field_bytes fs' = bs"
  using assms
proof (induction fs arbitrary: p bs)
  case (Cons f fs)
  let ?n = "length (put_field [] f)"
  have bs: "take ?n bs @ drop ?n bs @ rest = bs @ rest" "length (take ?n bs) = ?n"
      "length (drop ?n bs) = length (field_bytes fs)"
    using Cons.prems(2) by (simp_all add: field_bytes_def)
  obtain f' p1 where f': "get_field f p = Inr (f', p1)" "reads_from p1 (drop ?n bs @ rest)"
      "put_field [] f' = take ?n bs"
    using get_field_onto [of p "take ?n bs" "drop ?n bs @ rest" f] Cons.prems(1) bs(1,2) by auto
  obtain fs' p' where "get_fields fs p1 = Inr (fs', p')" "reads_from p' rest" "field_bytes fs' = drop ?n bs"
    using Cons.IH [OF f'(2) bs(3)] by blast
  then show ?case using f' by (auto simp: field_bytes_def)
qed (simp add: field_bytes_def)

lemma get_field_total:
  assumes "buffer_ok (np_buffer p)"
  shows "\<exists>v p'. get_field f p = Inr (v, p') \<and> buffer_ok (np_buffer p')
    \<and> (np_error p' = NoError \<longleftrightarrow>
        np_error p = NoError \<and> length (put_field [] f) \<le> length (Buffer_str (np_buffer p)))
    \<and> (np_error p' = NoError \<longrightarrow>
        Buffer_str (np_buffer p') = drop (length (put_field [] f)) (Buffer_str (np_buffer p)))"
  using u8.get_total [OF assms] u16.get_total [OF assms] u32.get_total [OF assms]
  by (cases f) (force simp: u8.put_width u16.put_width u32.put_width)+

lemma get_fields_total:
  assumes "buffer_ok (np_buffer p)"
  shows "\<exists>vs p'. get_fields fs p = Inr (vs, p') \<and> buffer_ok (np_buffer p')
    \<and> (np_error p' = NoError \<longleftrightarrow>
        np_error p = NoError \<and> length (field_bytes fs) \<le> length (Buffer_str (np_buffer p)))"
  using assms
proof (induction fs arbitrary: p)
  case (Cons f fs)
  obtain v p1 where p1: "get_field f p = Inr (v, p1)" "buffer_ok (np_buffer p1)"
      "np_error p1 = NoError \<longleftrightarrow>
        np_error p = NoError \<and> length (put_field [] f) \<le> length (Buffer_str (np_buffer p))"
      "np_error p1 = NoError \<longrightarrow>
        Buffer_str (np_buffer p1) = drop (length (put_field [] f)) (Buffer_str (np_buffer p))"
    using get_field_total [OF Cons.prems, of f] by blast
  obtain vs p2 where "get_fields fs p1 = Inr (vs, p2)" "buffer_ok (np_buffer p2)"
      "np_error p2 = NoError \<longleftrightarrow>
        np_error p1 = NoError \<and> length (field_bytes fs) \<le> length (Buffer_str (np_buffer p1))"
    using Cons.IH [OF p1(2)] by blast
  then show ?case using p1 by (auto simp: field_bytes_def)
qed (simp add: field_bytes_def)

section \<open>Properties\<close>

text \<open>
  C32. Integers in network byte order survive the round trip: whatever sequence of 8-, 16- and
  32-bit integers is appended to a string, a parser over those bytes reads the same integers back,
  raises no error, and stops exactly at the bytes that follow.
\<close>

theorem net_roundtrip:
  assumes "length (foldl put_field [] fs @ rest) < 2 ^ 64"
  shows "\<exists>p'. get_fields fs (NetParser_new (Buffer_of_string (foldl put_field [] fs @ rest))) = Inr (fs, p')
    \<and> Buffer_str (np_buffer p') = rest \<and> \<not> NetParser_error p'"
proof -
  let ?p = "NetParser_new (Buffer_of_string (foldl put_field [] fs @ rest))"
  have "reads_from ?p (field_bytes fs @ rest)"
    using assms by (simp add: reads_from_def NetParser_new_def put_fields)
  from get_fields_put [OF this] show ?thesis
    by (auto simp: reads_from_def NetParser_error_def)
qed

theorem net_roundtrip_witness:
  "\<exists>p'. get_fields [F16 443, F32 0xdeadbeef]
      (NetParser_new (Buffer_of_string (foldl put_field [] [F16 443, F32 0xdeadbeef] @ [7])))
    = Inr ([F16 443, F32 0xdeadbeef], p') \<and> Buffer_str (np_buffer p') = [7]"
proof -
  have "length (foldl put_field [] [F16 443, F32 0xdeadbeef] @ [7]) < 2 ^ 64"
    by (simp only: put_fields) (simp add: field_bytes_def u16.put_width u32.put_width)
  from net_roundtrip [OF this] show ?thesis by blast
qed

text \<open>
  C33. Parsing is total: on any buffer, reading any sequence of fields raises no exception, and the
  parser ends in an error state exactly when it was in one before or the buffer is shorter than the
  fields; once an error is recorded it stays recorded.
\<close>

theorem net_parse_total:
  assumes "buffer_ok (np_buffer p)"
  shows "\<exists>vs p'. get_fields fs p = Inr (vs, p')
    \<and> (NetParser_error p' \<longleftrightarrow>
        NetParser_error p \<or> length (Buffer_str (np_buffer p)) < length (foldl put_field [] fs))"
  using get_fields_total [OF assms, of fs] by (auto simp: NetParser_error_def put_fields not_le)

theorem net_parse_total_witness:
  "\<exists>vs p'. get_fields [F32 0, F16 0] (NetParser_new (Buffer_of_string [1, 2, 3, 4, 5])) = Inr (vs, p')
    \<and> NetParser_error p'"
proof -
  let ?p = "NetParser_new (Buffer_of_string [1, 2, 3, 4, 5])"
  have "buffer_ok (np_buffer ?p)" by (simp add: NetParser_new_def)
  moreover have "length (foldl put_field [] [F32 0, F16 0]) = 6"
    by (simp only: put_fields) (simp add: field_bytes_def u16.put_width u32.put_width)
  ultimately show ?thesis
    using net_parse_total [of ?p "[F32 0, F16 0]"] by (auto simp: NetParser_new_def)
qed

text \<open>
  The table of names of \<open>as_string\<close> has no entry for \<open>Unsupported\<close>: printing that result
  reads past the end of the array, and it is the only one that does.
\<close>

theorem as_string_unsupported: "as_string r = Inl UndefinedBehaviour \<longleftrightarrow> r = Unsupported"
  by (cases r) (simp_all add: as_string_def Let_def)

end
