(* ===== verification/Wrapping_Integers.thy ===== *)
theory Wrapping_Integers
  imports Sponge_Prelude
begin

text \<open>
  The 32-bit sequence numbers of \<open>wrapping_integers.hh\<close> and \<open>wrapping_integers.cc\<close>: the
  class \<open>WrappingInt32\<close> with its operators, and the translations \<open>wrap\<close> and \<open>unwrap\<close>
  between 64-bit absolute numbers and their 32-bit wire form. The locale \<open>seq_codec\<close> states
  the contract on which the TCP sender and receiver rely.
\<close>

section \<open>Definitions\<close>

datatype WrappingInt32 = WrappingInt32 (raw_value: u32)

text \<open>\<open>operator-(WrappingInt32, WrappingInt32)\<close>: the difference as an \<open>int32_t\<close>.\<close>

definition wi_diff :: "WrappingInt32 \<Rightarrow> WrappingInt32 \<Rightarrow> int" where
  "wi_diff a b = sint (raw_value a - raw_value b)"

definition wi_eq :: "WrappingInt32 \<Rightarrow> WrappingInt32 \<Rightarrow> bool" where
  "wi_eq a b = (raw_value a = raw_value b)"

definition wi_neq :: "WrappingInt32 \<Rightarrow> WrappingInt32 \<Rightarrow> bool" where
  "wi_neq a b = (\<not> wi_eq a b)"

definition wi_plus :: "WrappingInt32 \<Rightarrow> u32 \<Rightarrow> WrappingInt32" where
  "wi_plus a b = WrappingInt32 (raw_value a + b)"

definition wi_minus :: "WrappingInt32 \<Rightarrow> u32 \<Rightarrow> WrappingInt32" where
  "wi_minus a b = wi_plus a (- b)"

definition wrap :: "u64 \<Rightarrow> WrappingInt32 \<Rightarrow> WrappingInt32" where
  "wrap n isn = wi_plus isn (ucast n)"

text \<open>
  \<open>checkpoint + offset\<close> adds a sign-extended \<open>int32_t\<close> to a \<open>uint64_t\<close>; the sum is then
  read as an \<open>int64_t\<close> for the comparison with zero.
\<close>

definition unwrap :: "WrappingInt32 \<Rightarrow> WrappingInt32 \<Rightarrow> u64 \<Rightarrow> u64" where
  "unwrap n isn checkpoint =
     (let offset = wi_diff n (wrap checkpoint isn);
          result = checkpoint + word_of_int offset
      in if sint result < 0 then result + 4294967296 else result)"

text \<open>
  An absolute number that a checkpoint decodes: it is below \<open>2^63\<close> and lies in the half-open
  window of \<open>2^32\<close> numbers centred on the checkpoint.
\<close>

definition near_seq :: "u64 \<Rightarrow> u64 \<Rightarrow> bool" where
  "near_seq x cp \<longleftrightarrow>
     unat x < 2 ^ 63 \<and> unat cp \<le> unat x + 2 ^ 31 \<and> unat x < unat cp + 2 ^ 31"

section \<open>The contract of a sequence-number codec\<close>

locale seq_codec =
  fixes enc :: "u64 \<Rightarrow> 'i \<Rightarrow> 'w"
    and dec :: "'w \<Rightarrow> 'i \<Rightarrow> u64 \<Rightarrow> u64"
  assumes dec_enc: "near_seq x cp \<Longrightarrow> dec (enc x isn) isn cp = x"
    and enc_dec: "enc (dec w isn cp) isn = w"
begin

lemma enc_inj_near:
  assumes "near_seq x cp" and "near_seq y cp"
  shows "enc x isn = enc y isn \<longleftrightarrow> x = y"
  using assms dec_enc by metis

lemma dec_mono_near:
  assumes "near_seq x cp" and "near_seq y cp"
  shows "dec (enc x isn) isn cp \<le> dec (enc y isn) isn cp \<longleftrightarrow> x \<le> y"
  using assms by (simp add: dec_enc)

text \<open>Any two checkpoints that both see a number agree on it.\<close>

lemma dec_checkpoint_irrelevant:
  assumes "near_seq x cp" and "near_seq x cp'"
  shows "dec (enc x isn) isn cp = dec (enc x isn) isn cp'"
  using assms by (simp add: dec_enc)

end

section \<open>\<open>wrap\<close> and \<open>unwrap\<close> implement it\<close>

lemma mod_absorb: "e = k + b mod m \<Longrightarrow> f = k + b \<Longrightarrow> e mod m = f mod (m :: int)"
  by (simp add: mod_add_right_eq)

lemma mod_shift_left: "((r + x) mod m - r - c + k) mod m = (x - c + k) mod (m :: int)"
  by (rule mod_absorb [where k = "k - c - r"]) auto

lemma mod_shift_back: "(r + (c + ((n - r - c + k) mod m - k))) mod m = n mod (m :: int)"
  by (rule mod_absorb [where k = "r + c - k"]) auto

lemma sint_centered:
  fixes w :: "'a::len word"
  shows "sint w = (uint w + 2 ^ (LENGTH('a) - 1)) mod 2 ^ LENGTH('a) - 2 ^ (LENGTH('a) - 1)"
  using int_word_sint [of "uint w", where 'a = 'a] by simp

lemma sint_neg_iff: "sint (x :: u64) < 0 \<longleftrightarrow> 2 ^ 63 \<le> unat x"
proof -
  define a where "a = unat x"
  have a: "uint x = int a" "a < 2 ^ 64"
    using unsigned_less [where 'a = nat and w = x] by (simp_all add: a_def)
  show ?thesis
  proof (cases "a < 2 ^ 63")
    case True
    then have "(int a + 2 ^ 63) mod 2 ^ 64 = int a + 2 ^ 63" by simp
    with True a show ?thesis by (simp add: sint_centered [of x] flip: a_def)
  next
    case False
    with a have "(int a - 2 ^ 63) mod 2 ^ 64 = int a - 2 ^ 63" by simp
    moreover have "(int a + 2 ^ 63) mod 2 ^ 64 = (int a - 2 ^ 63) mod 2 ^ 64"
      using mod_add_self2 [of "int a - 2 ^ 63" "2 ^ 64"] by (simp add: add.commute)
    ultimately show ?thesis
      using False a by (simp add: sint_centered [of x] flip: a_def)
  qed
qed

lemma sint_neg_uint: "sint (x :: u64) < 0 \<longleftrightarrow> 2 ^ 63 \<le> uint x"
proof -
  define a where "a = unat x"
  then have "uint x = int a" by simp
  then show ?thesis
    unfolding sint_neg_iff a_def [symmetric] by simp
qed

lemma uint_add_of_int: "uint (x + word_of_int k :: u64) = (uint x + k) mod 2 ^ 64"
  by (simp add: uint_word_ariths(1) uint_word_of_int mod_simps)

lemma uint_raw_wrap: "uint (raw_value (wrap x isn)) = (uint (raw_value isn) + uint x) mod 2 ^ 32"
  by (simp add: wrap_def wi_plus_def uint_word_ariths(1) unsigned_ucast_eq take_bit_eq_mod
      mod_simps)

lemma wrap_eq_iff: "wrap x isn = n \<longleftrightarrow> (uint (raw_value isn) + uint x) mod 2 ^ 32 = uint (raw_value n)"
  by (metis uint_raw_wrap WrappingInt32.expand word_uint_eqI)

text \<open>The signed difference is the centred residue of the true difference.\<close>

lemma wi_diff_wrap:
  "wi_diff n (wrap cp isn) =
     (uint (raw_value n) - uint (raw_value isn) - uint cp + 2 ^ 31) mod 2 ^ 32 - 2 ^ 31"
proof -
  have "uint (raw_value n - raw_value (wrap cp isn)) =
      (uint (raw_value n) - uint (raw_value isn) - uint cp) mod 2 ^ 32"
    by (simp add: uint_word_ariths(2) uint_raw_wrap mod_simps algebra_simps)
  then show ?thesis
    unfolding wi_diff_def sint_centered by (simp add: mod_simps)
qed

lemma near_seq_int:
  "near_seq x cp \<longleftrightarrow> uint x < 2 ^ 63 \<and> uint cp - 2 ^ 31 \<le> uint x \<and> uint x < uint cp + 2 ^ 31"
proof -
  define a c where "a = unat x" and "c = unat cp"
  have "uint x = int a" "uint cp = int c"
    by (simp_all add: a_def c_def)
  then show ?thesis
    unfolding near_seq_def a_def [symmetric] c_def [symmetric] by auto
qed

lemma near_seq_nonneg: "near_seq x cp \<Longrightarrow> \<not> sint x < 0"
  by (simp add: near_seq_def sint_neg_iff)

lemma unwrap_wrap_near:
  assumes "near_seq x cp"
  shows "unwrap (wrap x isn) isn cp = x"
proof -
  have "(uint x - uint cp + 2 ^ 31) mod 2 ^ 32 = uint x - uint cp + 2 ^ 31"
    using assms by (simp add: near_seq_int)
  moreover have "(uint (raw_value (wrap x isn)) - uint (raw_value isn) - uint cp + 2 ^ 31) mod 2 ^ 32
      = (uint x - uint cp + 2 ^ 31) mod 2 ^ 32"
    unfolding uint_raw_wrap by (rule mod_shift_left)
  ultimately have d: "wi_diff (wrap x isn) (wrap cp isn) = uint x - uint cp"
    by (simp add: wi_diff_wrap)
  moreover have "cp + word_of_int (uint x - uint cp) = x"
    by simp
  ultimately show ?thesis
    using near_seq_nonneg [OF assms] by (simp add: unwrap_def)
qed

lemma mod_2p64_2p32: "(a + b mod 18446744073709551616) mod 4294967296 = (a + b) mod (4294967296 :: int)"
proof -
  have "b mod 18446744073709551616 mod 4294967296 = b mod (4294967296 :: int)"
    by (rule mod_mod_cancel) simp
  then show ?thesis by (metis mod_add_right_eq)
qed

lemma wrap_add_2p32: "wrap (x + 4294967296) isn = wrap x isn"
  by (simp add: wrap_eq_iff uint_raw_wrap uint_word_ariths(1) mod_2p64_2p32
      mod_add_self2 [of "uint (raw_value isn) + uint x", simplified add.assoc])

lemma wrap_unwrap_any: "wrap (unwrap n isn cp) isn = n"
proof -
  let ?d = "wi_diff n (wrap cp isn)"
  have "(uint (raw_value isn) + (uint cp + ?d)) mod 2 ^ 32 = uint (raw_value n) mod 2 ^ 32"
    unfolding wi_diff_wrap by (rule mod_shift_back)
  also have "\<dots> = uint (raw_value n)"
    using uint_bounded [of "raw_value n"] by simp
  finally have "wrap (cp + word_of_int ?d) isn = n"
    unfolding wrap_eq_iff uint_add_of_int by (simp add: mod_2p64_2p32)
  then show ?thesis
    by (simp add: unwrap_def Let_def wrap_add_2p32)
qed

interpretation wi: seq_codec wrap unwrap
  by unfold_locales (rule unwrap_wrap_near, assumption, rule wrap_unwrap_any)

section \<open>Properties\<close>

text \<open>
  C16. Round trip of the sequence-number codec: an absolute number below \<open>2^63\<close> that is at
  most \<open>2^31\<close> below and less than \<open>2^31\<close> above the checkpoint is recovered exactly from its 32-bit form,
  for every initial sequence number.
\<close>

theorem unwrap_wrap:
  assumes "near_seq x checkpoint"
  shows "unwrap (wrap x isn) isn checkpoint = x"
  using assms by (rule wi.dec_enc)

theorem unwrap_wrap_witness:
  "near_seq 4294967301 4294967290
    \<and> unwrap (wrap 4294967301 (WrappingInt32 4294967295)) (WrappingInt32 4294967295) 4294967290
        = 4294967301"
proof -
  have "near_seq 4294967301 4294967290" by (simp add: near_seq_def)
  with unwrap_wrap [OF this] show ?thesis by blast
qed

lemma wi_diff_bounds: "- (2 ^ 31) \<le> wi_diff a b \<and> wi_diff a b < 2 ^ 31"
  using sint_ge [of "raw_value a - raw_value b"] sint_lt [of "raw_value a - raw_value b"]
  by (simp add: wi_diff_def)

text \<open>Every absolute number with a given wire form differs by a multiple of \<open>2^32\<close>.\<close>

lemma wrap_offset_multiple:
  assumes "wrap m isn = n"
  obtains k where "uint m = uint cp + wi_diff n (wrap cp isn) + k * 2 ^ 32"
proof -
  let ?d = "wi_diff n (wrap cp isn)"
  have "(uint (raw_value isn) + uint m) mod 2 ^ 32 = uint (raw_value n)"
    using assms by (simp add: wrap_eq_iff)
  moreover have "(uint (raw_value isn) + (uint cp + ?d)) mod 2 ^ 32 = uint (raw_value n) mod 2 ^ 32"
    unfolding wi_diff_wrap by (rule mod_shift_back)
  ultimately have "(uint (raw_value isn) + uint m) mod 2 ^ 32
      = (uint (raw_value isn) + (uint cp + ?d)) mod 2 ^ 32"
    by simp
  then have "2 ^ 32 dvd uint (raw_value isn) + uint m - (uint (raw_value isn) + (uint cp + ?d))"
    by (simp only: mod_eq_dvd_iff)
  then have "2 ^ 32 dvd uint m - (uint cp + ?d)" by simp
  then obtain k where "uint m - (uint cp + ?d) = 2 ^ 32 * k" ..
  then have "uint m = uint cp + ?d + k * 2 ^ 32" by (simp add: algebra_simps)
  with that show ?thesis .
qed

lemma uint_unwrap:
  assumes "uint cp \<le> 2 ^ 63 - 2 ^ 31"
  shows "uint (unwrap n isn cp) =
    (let r = uint cp + wi_diff n (wrap cp isn) in if r < 0 then r + 2 ^ 32 else r)"
proof -
  let ?d = "wi_diff n (wrap cp isn)"
  let ?w = "cp + word_of_int ?d"
  have d: "- (2 ^ 31) \<le> ?d" "?d < 2 ^ 31"
    using wi_diff_bounds [of n "wrap cp isn"] by simp_all
  have "0 \<le> uint cp" by simp
  with d have b: "- (2 ^ 31) \<le> uint cp + ?d" by linarith
  show ?thesis
  proof (cases "uint cp + ?d < 0")
    case True
    have "(uint cp + ?d + 2 ^ 64) mod 2 ^ 64 = uint cp + ?d + 2 ^ 64"
      by (rule mod_pos_pos_trivial) (use True b in simp_all)
    then have w: "uint ?w = uint cp + ?d + 2 ^ 64"
      by (simp add: uint_add_of_int)
    then have "sint ?w < 0"
      unfolding sint_neg_uint using b by simp
    moreover have "uint (?w + 4294967296) = (uint cp + ?d + 2 ^ 64 + 2 ^ 32) mod 2 ^ 64"
      unfolding uint_word_ariths(1) [of ?w] w by simp
    moreover have "\<dots> = uint cp + ?d + 2 ^ 32"
      using True b mod_add_self2 [of "uint cp + ?d + 2 ^ 32" "2 ^ 64"] by (simp add: algebra_simps)
    ultimately show ?thesis
      using True by (simp add: unwrap_def Let_def)
  next
    case False
    then have w: "uint ?w = uint cp + ?d"
      using b d assms by (simp add: uint_add_of_int)
    then have "\<not> sint ?w < 0"
      unfolding sint_neg_uint using b d assms by simp
    with False w show ?thesis
      by (simp add: unwrap_def Let_def)
  qed
qed

lemma closest_residue:
  fixes c d k :: int
  assumes "- (2 ^ 31) \<le> d" "d < 2 ^ 31" "0 \<le> c" "0 \<le> c + d + k * 2 ^ 32"
  shows "\<bar>(if c + d < 0 then c + d + 2 ^ 32 else c + d) - c\<bar> \<le> \<bar>c + d + k * 2 ^ 32 - c\<bar>"
proof -
  consider "k \<le> -1" | "k = 0" | "1 \<le> k" by linarith
  then show ?thesis
  proof cases
    case 1
    then have "k * 2 ^ 32 \<le> (- 1) * 2 ^ 32" by (intro mult_right_mono) simp_all
    with assms show ?thesis by auto
  next
    case 2
    with assms show ?thesis by auto
  next
    case 3
    then have "1 * 2 ^ 32 \<le> k * 2 ^ 32" by (intro mult_right_mono) simp_all
    with assms show ?thesis by auto
  qed
qed

text \<open>
  C17. \<open>unwrap\<close> returns a number that wraps to \<open>n\<close>, and none of the 64-bit numbers that wrap
  to \<open>n\<close> is closer to the checkpoint, for every checkpoint up to \<open>2^63 - 2^31\<close>.
\<close>

theorem unwrap_closest:
  assumes "unat checkpoint \<le> 2 ^ 63 - 2 ^ 31" and "wrap m isn = n"
  shows "wrap (unwrap n isn checkpoint) isn = n
    \<and> \<bar>uint (unwrap n isn checkpoint) - uint checkpoint\<bar> \<le> \<bar>uint m - uint checkpoint\<bar>"
proof
  show "wrap (unwrap n isn checkpoint) isn = n" by (rule wi.enc_dec)
  let ?d = "wi_diff n (wrap checkpoint isn)"
  obtain k where k: "uint m = uint checkpoint + ?d + k * 2 ^ 32"
    using assms(2) by (rule wrap_offset_multiple)
  have b: "- (2 ^ 31) \<le> ?d" "?d < 2 ^ 31" "0 \<le> uint checkpoint" "0 \<le> uint m"
    using wi_diff_bounds [of n "wrap checkpoint isn"] by simp_all
  have "int (unat checkpoint) \<le> int (2 ^ 63 - 2 ^ 31)"
    using assms(1) by (simp only: of_nat_le_iff)
  then have "uint checkpoint \<le> 2 ^ 63 - 2 ^ 31" by simp
  then have u: "uint (unwrap n isn checkpoint)
      = (if uint checkpoint + ?d < 0 then uint checkpoint + ?d + 2 ^ 32 else uint checkpoint + ?d)"
    by (simp add: uint_unwrap Let_def)
  show "\<bar>uint (unwrap n isn checkpoint) - uint checkpoint\<bar> \<le> \<bar>uint m - uint checkpoint\<bar>"
    unfolding u k by (rule closest_residue) (use b k in linarith)+
qed

theorem unwrap_closest_witness:
  "wrap (unwrap (WrappingInt32 5) (WrappingInt32 7) 4294967300) (WrappingInt32 7) = WrappingInt32 5
    \<and> \<bar>uint (unwrap (WrappingInt32 5) (WrappingInt32 7) 4294967300) - uint (4294967300 :: u64)\<bar>
        \<le> \<bar>uint (8589934590 :: u64) - uint (4294967300 :: u64)\<bar>"
  by (rule unwrap_closest) (simp_all add: wrap_def wi_plus_def)

text \<open>
  C39. Checkpoints from \<open>2^63\<close> on: the sign test misfires, because the 64-bit sum is read as a
  signed number, and \<open>unwrap\<close> returns a number \<open>2^32\<close> away from the one that equals the
  checkpoint.
\<close>

theorem unwrap_high_checkpoint:
  assumes "2 ^ 63 \<le> unat checkpoint"
  shows "unwrap (wrap checkpoint isn) isn checkpoint = checkpoint + 4294967296"
  using assms by (simp add: unwrap_def wi_diff_def sint_neg_iff)

theorem unwrap_high_checkpoint_witness:
  "unwrap (wrap 9223372036854775808 (WrappingInt32 0)) (WrappingInt32 0) 9223372036854775808
     = 9223372041149743104"
  using unwrap_high_checkpoint [of 9223372036854775808 "WrappingInt32 0"] by simp

end
