(* ===== verification/TCP_Header.thy ===== *)
theory TCP_Header
  imports Net_Parser Wrapping_Integers
begin

text \<open>
  The struct \<open>TCPHeader\<close> of \<open>tcp_helpers/tcp_header.hh\<close> and \<open>tcp_helpers/tcp_header.cc\<close> with
  \<open>parse\<close>, \<open>serialize\<close> and the comparison. The lemmas show that the two are inverse to each other
  on headers whose data offset fits its four bits, and what \<open>parse\<close> does on arbitrary bytes.
\<close>

unbundle bit_operations_syntax

section \<open>Definitions\<close>

record TCPHeader =
  th_sport :: u16
  th_dport :: u16
  th_seqno :: WrappingInt32
  th_ackno :: WrappingInt32
  th_doff :: u8
  th_urg :: bool
  th_ack :: bool
  th_psh :: bool
  th_rst :: bool
  th_syn :: bool
  th_fin :: bool
  th_win :: u16
  th_cksum :: u16
  th_uptr :: u16

definition TCPHeader_LENGTH :: u64 where
  "TCPHeader_LENGTH = 20"

definition TCPHeader_default :: TCPHeader where
  "TCPHeader_default =
     \<lparr>th_sport = 0, th_dport = 0, th_seqno = WrappingInt32 0, th_ackno = WrappingInt32 0,
      th_doff = ucast (TCPHeader_LENGTH div 4), th_urg = False, th_ack = False, th_psh = False,
      th_rst = False, th_syn = False, th_fin = False, th_win = 0, th_cksum = 0, th_uptr = 0\<rparr>"

text \<open>\<open>parse\<close> overwrites every field of the header it is called on, also when it fails.\<close>

definition TCPHeader_parse ::
  "TCPHeader \<Rightarrow> NetParser \<Rightarrow> (TCPHeader \<times> NetParser \<times> ParseResult) result" where
  "TCPHeader_parse h p0 =
     try_bind (NetParser_u16 p0) (\<lambda>(sport, p1).
     try_bind (NetParser_u16 p1) (\<lambda>(dport, p2).
     try_bind (NetParser_u32 p2) (\<lambda>(seqno, p3).
     try_bind (NetParser_u32 p3) (\<lambda>(ackno, p4).
     try_bind (NetParser_u8 p4) (\<lambda>(off, p5).
     try_bind (NetParser_u8 p5) (\<lambda>(fl_b, p6).
     try_bind (NetParser_u16 p6) (\<lambda>(win, p7).
     try_bind (NetParser_u16 p7) (\<lambda>(cksum, p8).
     try_bind (NetParser_u16 p8) (\<lambda>(uptr, p9).
       let doff = drop_bit 4 off;
           h' = h\<lparr>th_sport := sport, th_dport := dport, th_seqno := WrappingInt32 seqno,
                  th_ackno := WrappingInt32 ackno, th_doff := doff,
                  th_urg := (fl_b AND 0b00100000 \<noteq> 0), th_ack := (fl_b AND 0b00010000 \<noteq> 0),
                  th_psh := (fl_b AND 0b00001000 \<noteq> 0), th_rst := (fl_b AND 0b00000100 \<noteq> 0),
                  th_syn := (fl_b AND 0b00000010 \<noteq> 0), th_fin := (fl_b AND 0b00000001 \<noteq> 0),
                  th_win := win, th_cksum := cksum, th_uptr := uptr\<rparr>
       in if doff < 5 then Inr (h', p9, HeaderTooShort)
          else try_bind (NetParser_remove_prefix p9 (ucast doff * 4 - TCPHeader_LENGTH)) (\<lambda>p10.
            if NetParser_error p10 then Inr (h', p10, np_error p10)
            else Inr (h', p10, NoError)))))))))))"

definition header_flags :: "TCPHeader \<Rightarrow> u8" where
  "header_flags h =
     (if th_urg h then 0b00100000 else 0) OR (if th_ack h then 0b00010000 else 0)
     OR (if th_psh h then 0b00001000 else 0) OR (if th_rst h then 0b00000100 else 0)
     OR (if th_syn h then 0b00000010 else 0) OR (if th_fin h then 0b00000001 else 0)"

text \<open>\<open>std::string::resize\<close>: cut, or pad with \<open>'\\0'\<close>.\<close>

definition string_resize :: "bytes \<Rightarrow> nat \<Rightarrow> bytes" where
  "string_resize s n = take n s @ replicate (n - length s) 0"

definition TCPHeader_serialize :: "TCPHeader \<Rightarrow> bytes result" where
  "TCPHeader_serialize h =
     (if th_doff h < 5 then Inl (RuntimeError ''TCP header too short'')
      else let ret1 = NetUnparser_u16 [] (th_sport h);
               ret2 = NetUnparser_u16 ret1 (th_dport h);
               ret3 = NetUnparser_u32 ret2 (raw_value (th_seqno h));
               ret4 = NetUnparser_u32 ret3 (raw_value (th_ackno h));
               ret5 = NetUnparser_u8 ret4 (push_bit 4 (th_doff h));
               ret6 = NetUnparser_u8 ret5 (header_flags h);
               ret7 = NetUnparser_u16 ret6 (th_win h);
               ret8 = NetUnparser_u16 ret7 (th_cksum h);
               ret9 = NetUnparser_u16 ret8 (th_uptr h)
           in Inr (string_resize ret9 (4 * unat (th_doff h))))"

definition TCPHeader_eq :: "TCPHeader \<Rightarrow> TCPHeader \<Rightarrow> bool" where
  "TCPHeader_eq h other \<longleftrightarrow>
     wi_eq (th_seqno h) (th_seqno other) \<and> wi_eq (th_ackno h) (th_ackno other)
     \<and> th_doff h = th_doff other \<and> th_urg h = th_urg other \<and> th_ack h = th_ack other
     \<and> th_psh h = th_psh other \<and> th_rst h = th_rst other \<and> th_syn h = th_syn other
     \<and> th_fin h = th_fin other \<and> th_win h = th_win other \<and> th_uptr h = th_uptr other"

section \<open>The layout\<close>

definition header_fields :: "TCPHeader \<Rightarrow> net_field list" where
  "header_fields h =
     [F16 (th_sport h), F16 (th_dport h), F32 (raw_value (th_seqno h)), F32 (raw_value (th_ackno h)),
      F8 (push_bit 4 (th_doff h)), F8 (header_flags h), F16 (th_win h), F16 (th_cksum h), F16 (th_uptr h)]"

lemma header_fields_length [simp]: "length (field_bytes (header_fields h)) = 20"
  by (simp add: field_bytes_def header_fields_def u8.put_width u16.put_width u32.put_width)

lemma serialize_eq:
  assumes "\<not> th_doff h < 5"
  shows "TCPHeader_serialize h =
    Inr (field_bytes (header_fields h) @ replicate (4 * unat (th_doff h) - 20) 0)"
proof -
  let ?b = "field_bytes (header_fields h)"
  have "20 \<le> 4 * unat (th_doff h)" using assms by (simp add: word_less_nat_alt)
  then have "string_resize ?b (4 * unat (th_doff h)) = ?b @ replicate (4 * unat (th_doff h) - 20) 0"
    by (simp add: string_resize_def)
  moreover have "?b = foldl put_field [] (header_fields h)" by (simp add: put_fields)
  ultimately show ?thesis
    using assms by (simp add: TCPHeader_serialize_def Let_def header_fields_def)
qed

lemma flags_roundtrip:
  "(header_flags h AND 0b00100000 \<noteq> 0) = th_urg h" "(header_flags h AND 0b00010000 \<noteq> 0) = th_ack h"
  "(header_flags h AND 0b00001000 \<noteq> 0) = th_psh h" "(header_flags h AND 0b00000100 \<noteq> 0) = th_rst h"
  "(header_flags h AND 0b00000010 \<noteq> 0) = th_syn h" "(header_flags h AND 0b00000001 \<noteq> 0) = th_fin h"
  by (simp_all add: header_flags_def)

section \<open>Parsing\<close>

text \<open>The header that nine raw fields stand for.\<close>

definition raw_header ::
  "u16 \<Rightarrow> u16 \<Rightarrow> u32 \<Rightarrow> u32 \<Rightarrow> u8 \<Rightarrow> u8 \<Rightarrow> u16 \<Rightarrow> u16 \<Rightarrow> u16 \<Rightarrow> TCPHeader" where
  "raw_header sp dp sq ak off fl wn ck up =
     \<lparr>th_sport = sp, th_dport = dp, th_seqno = WrappingInt32 sq, th_ackno = WrappingInt32 ak,
      th_doff = drop_bit 4 off, th_urg = (fl AND 0b00100000 \<noteq> 0), th_ack = (fl AND 0b00010000 \<noteq> 0),
      th_psh = (fl AND 0b00001000 \<noteq> 0), th_rst = (fl AND 0b00000100 \<noteq> 0),
      th_syn = (fl AND 0b00000010 \<noteq> 0), th_fin = (fl AND 0b00000001 \<noteq> 0),
      th_win = wn, th_cksum = ck, th_uptr = up\<rparr>"

definition raw_fields ::
  "u16 \<Rightarrow> u16 \<Rightarrow> u32 \<Rightarrow> u32 \<Rightarrow> u8 \<Rightarrow> u8 \<Rightarrow> u16 \<Rightarrow> u16 \<Rightarrow> u16 \<Rightarrow> net_field list" where
  "raw_fields sp dp sq ak off fl wn ck up =
     [F16 sp, F16 dp, F32 sq, F32 ak, F8 off, F8 fl, F16 wn, F16 ck, F16 up]"

lemma header_fields_raw:
  "header_fields h = raw_fields (th_sport h) (th_dport h) (raw_value (th_seqno h)) (raw_value (th_ackno h))
     (push_bit 4 (th_doff h)) (header_flags h) (th_win h) (th_cksum h) (th_uptr h)"
  by (simp add: header_fields_def raw_fields_def)

lemma nibble_roundtrip: "(n :: u8) < 16 \<Longrightarrow> drop_bit 4 (push_bit 4 n) = n"
proof -
  assume "n < 16"
  then have n: "unat n < 16" by (simp add: word_less_nat_alt)
  have "unat (push_bit 4 n) = unat n * 16"
    using n by (simp add: push_bit_eq_mult unat_word_ariths mult.commute)
  then have "unat (drop_bit 4 (push_bit 4 n)) = unat n"
    using unat_drop_bit_eq [of 4 "push_bit 4 n"] by (simp add: drop_bit_eq_div)
  then show ?thesis using word_eq_iff_unsigned by blast
qed

lemma raw_header_id:
  assumes "th_doff h < 16"
  shows "raw_header (th_sport h) (th_dport h) (raw_value (th_seqno h)) (raw_value (th_ackno h))
     (push_bit 4 (th_doff h)) (header_flags h) (th_win h) (th_cksum h) (th_uptr h) = h"
  using assms by (cases h) (simp add: raw_header_def nibble_roundtrip flags_roundtrip)

lemma field_bytes_Cons [simp]: "field_bytes (f # fs) = put_field [] f @ field_bytes fs" "field_bytes [] = []"
  by (simp_all add: field_bytes_def)

text \<open>What \<open>parse\<close> does once the nine fields have been read.\<close>

definition parse_rest :: "TCPHeader \<Rightarrow> NetParser \<Rightarrow> (TCPHeader \<times> NetParser \<times> ParseResult) result" where
  "parse_rest h p =
     (if th_doff h < 5 then Inr (h, p, HeaderTooShort)
      else try_bind (NetParser_remove_prefix p (ucast (th_doff h) * 4 - TCPHeader_LENGTH)) (\<lambda>q.
        if NetParser_error q then Inr (h, q, np_error q) else Inr (h, q, NoError)))"

fun field_header :: "net_field list \<Rightarrow> TCPHeader" where
  "field_header [F16 sp, F16 dp, F32 sq, F32 ak, F8 off, F8 fl, F16 wn, F16 ck, F16 up] =
     raw_header sp dp sq ak off fl wn ck up"
| "field_header _ = TCPHeader_default"

lemma raw_header_update:
  "h\<lparr>th_sport := sp, th_dport := dp, th_seqno := WrappingInt32 sq, th_ackno := WrappingInt32 ak,
     th_doff := drop_bit 4 off, th_urg := (fl AND 0b00100000 \<noteq> 0), th_ack := (fl AND 0b00010000 \<noteq> 0),
     th_psh := (fl AND 0b00001000 \<noteq> 0), th_rst := (fl AND 0b00000100 \<noteq> 0),
     th_syn := (fl AND 0b00000010 \<noteq> 0), th_fin := (fl AND 0b00000001 \<noteq> 0),
     th_win := wn, th_cksum := ck, th_uptr := up\<rparr> = raw_header sp dp sq ak off fl wn ck up"
  by (cases h) (simp add: raw_header_def)

lemma raw_header_doff [simp]: "th_doff (raw_header sp dp sq ak off fl wn ck up) = drop_bit 4 off"
  by (simp add: raw_header_def)

lemma parse_as_fields:
  "TCPHeader_parse h p =
     try_bind (get_fields (raw_fields 0 0 0 0 0 0 0 0 0) p) (\<lambda>(fs, q). parse_rest (field_header fs) q)"
  by (simp add: TCPHeader_parse_def raw_fields_def parse_rest_def try_bind_assoc split_def Let_def
      raw_header_update cong: if_cong)

lemma parse_raw:
  assumes "reads_from p (field_bytes (raw_fields sp dp sq ak off fl wn ck up) @ rest)"
  shows "\<exists>p'. reads_from p' rest \<and>
    TCPHeader_parse h p = parse_rest (raw_header sp dp sq ak off fl wn ck up) p'"
proof -
  obtain p' where p': "get_fields (raw_fields sp dp sq ak off fl wn ck up) p
      = Inr (raw_fields sp dp sq ak off fl wn ck up, p')" "reads_from p' rest"
    using get_fields_put [OF assms] by blast
  have "get_fields (raw_fields sp dp sq ak off fl wn ck up) p = get_fields (raw_fields 0 0 0 0 0 0 0 0 0) p"
    by (simp add: raw_fields_def)
  with p' show ?thesis by (auto simp: parse_as_fields raw_fields_def)
qed

lemma u8_bytes: "NetUnparser_u8 [] v = [v]"
proof -
  obtain w where w: "NetUnparser_u8 [] v = [w]"
    using u8.put_width [of v] by (auto simp: length_Suc_conv)
  have "be_nat (NetUnparser_u8 [] v) = unat v"
    using be_nat_unparse [where 'a = 8 and n = 1] by (simp add: NetUnparser_u8_def)
  then show ?thesis using word_eq_iff_unsigned by (fastforce simp: w be_nat_def)
qed

text \<open>On arbitrary bytes: the fixed part is nine raw fields, the data offset the high half of byte 12.\<close>

lemma parse_any:
  assumes "reads_from p bs" and "20 \<le> length bs"
  shows "\<exists>h' p'. th_doff h' = drop_bit 4 (bs ! 12) \<and> reads_from p' (drop 20 bs)
    \<and> TCPHeader_parse h p = parse_rest h' p'"
proof -
  let ?z = "raw_fields 0 0 0 0 0 0 0 0 0"
  have "reads_from p (take 20 bs @ drop 20 bs)" "length (take 20 bs) = length (field_bytes ?z)"
    using assms by (simp_all add: raw_fields_def u8.put_width u16.put_width u32.put_width)
  from get_fields_onto [OF this] obtain fs p' where
      fs: "get_fields ?z p = Inr (fs, p')" "reads_from p' (drop 20 bs)" "field_bytes fs = take 20 bs"
    by blast
  then obtain sp dp sq ak off fl wn ck up where raw: "fs = raw_fields sp dp sq ak off fl wn ck up"
    by (auto simp: raw_fields_def split: prod.splits)
  have "bs ! 12 = field_bytes fs ! 12" by (simp add: fs(3))
  also have "\<dots> = off"
    by (simp add: raw raw_fields_def nth_append u8.put_width u16.put_width u32.put_width u8_bytes)
  finally have "th_doff (field_header fs) = drop_bit 4 (bs ! 12)"
    by (simp add: raw raw_fields_def)
  moreover have "TCPHeader_parse h p = parse_rest (field_header fs) p'"
    by (simp add: parse_as_fields fs(1))
  ultimately show ?thesis using fs(2) by blast
qed

lemma remove_prefix_error:
  assumes "buffer_ok (np_buffer p)" and "np_error p \<noteq> NoError"
  shows "\<exists>p'. NetParser_remove_prefix p n = Inr p' \<and> np_error p' \<noteq> NoError"
  using assms by (auto simp: NetParser_remove_prefix_def Let_def check_size_eq NetParser_error_def)

lemma remove_prefix_reads:
  assumes "reads_from p bs"
  shows "unat n \<le> length bs \<Longrightarrow> \<exists>p'. NetParser_remove_prefix p n = Inr p' \<and> reads_from p' (drop (unat n) bs)"
    and "length bs < unat n \<Longrightarrow> NetParser_remove_prefix p n = Inr (p\<lparr>np_error := PacketTooShort\<rparr>)"
proof -
  have ok: "buffer_ok (np_buffer p)" "Buffer_str (np_buffer p) = bs" "np_error p = NoError"
    using assms by (simp_all add: reads_from_def)
  show "\<exists>p'. NetParser_remove_prefix p n = Inr p' \<and> reads_from p' (drop (unat n) bs)"
    if "unat n \<le> length bs"
    using buf.discard_ok [OF ok(1), of n] that ok
    by (auto simp: NetParser_remove_prefix_def Let_def check_size_eq NetParser_error_def reads_from_def)
  show "NetParser_remove_prefix p n = Inr (p\<lparr>np_error := PacketTooShort\<rparr>)" if "length bs < unat n"
    using that ok by (simp add: NetParser_remove_prefix_def Let_def check_size_eq NetParser_error_def)
qed

lemma parse_short:
  assumes "buffer_ok (np_buffer p)" and "length (Buffer_str (np_buffer p)) < 20"
  shows "\<exists>h' p' res. TCPHeader_parse h p = Inr (h', p', res) \<and> np_error p' \<noteq> NoError"
proof -
  let ?z = "raw_fields 0 0 0 0 0 0 0 0 0"
  have "length (field_bytes ?z) = 20"
    by (simp add: raw_fields_def u8.put_width u16.put_width u32.put_width)
  then obtain fs q where q: "get_fields ?z p = Inr (fs, q)" "buffer_ok (np_buffer q)" "np_error q \<noteq> NoError"
    using get_fields_total [OF assms(1), of ?z] assms(2) by auto
  have "TCPHeader_parse h p = parse_rest (field_header fs) q" by (simp add: parse_as_fields q(1))
  then show ?thesis
    using q(3) remove_prefix_error [OF q(2,3), of "ucast (th_doff (field_header fs)) * 4 - TCPHeader_LENGTH"]
    by (auto simp: parse_rest_def NetParser_error_def)
qed

text \<open>The outcome of \<open>parse\<close> on at least 20 bytes, by the data offset.\<close>

lemma parse_rest_cases:
  assumes p: "reads_from p bs" and "th_doff h < 16"
  shows "th_doff h < 5 \<Longrightarrow> parse_rest h p = Inr (h, p, HeaderTooShort)"
    and "5 \<le> th_doff h \<Longrightarrow> 4 * unat (th_doff h) - 20 \<le> length bs \<Longrightarrow>
      \<exists>q. parse_rest h p = Inr (h, q, NoError) \<and> reads_from q (drop (4 * unat (th_doff h) - 20) bs)"
    and "5 \<le> th_doff h \<Longrightarrow> length bs < 4 * unat (th_doff h) - 20 \<Longrightarrow>
      parse_rest h p = Inr (h, p\<lparr>np_error := PacketTooShort\<rparr>, PacketTooShort)"
proof -
  let ?n = "ucast (th_doff h) * 4 - TCPHeader_LENGTH :: u64"
  have d: "unat (th_doff h) < 16" using assms(2) by (simp add: word_less_nat_alt)
  have n: "unat ?n = 4 * unat (th_doff h) - 20" if "5 \<le> th_doff h"
  proof -
    have "5 \<le> unat (th_doff h)" using that by (simp add: word_le_nat_alt)
    moreover have four: "unat (ucast (th_doff h) * 4 :: u64) = 4 * unat (th_doff h)"
      using d by (simp add: unat_word_ariths unsigned_ucast_eq take_bit_eq_mod mult.commute)
    ultimately have "TCPHeader_LENGTH \<le> ucast (th_doff h) * 4"
      by (simp add: TCPHeader_LENGTH_def word_le_nat_alt)
    then show ?thesis by (simp add: unat_sub four) (simp add: TCPHeader_LENGTH_def)
  qed
  show "th_doff h < 5 \<Longrightarrow> parse_rest h p = Inr (h, p, HeaderTooShort)"
    by (simp add: parse_rest_def)
  show "\<exists>q. parse_rest h p = Inr (h, q, NoError) \<and> reads_from q (drop (4 * unat (th_doff h) - 20) bs)"
    if "5 \<le> th_doff h" "4 * unat (th_doff h) - 20 \<le> length bs"
    using remove_prefix_reads(1) [OF p, of ?n] that n
    by (auto simp: parse_rest_def NetParser_error_def reads_from_def)
  show "parse_rest h p = Inr (h, p\<lparr>np_error := PacketTooShort\<rparr>, PacketTooShort)"
    if "5 \<le> th_doff h" "length bs < 4 * unat (th_doff h) - 20"
    using remove_prefix_reads(2) [OF p, of ?n] that n
    by (auto simp: parse_rest_def NetParser_error_def)
qed

lemma parse_serialized:
  assumes doff: "5 \<le> th_doff h" "th_doff h < 16"
    and p: "reads_from p (field_bytes (header_fields h) @ replicate (4 * unat (th_doff h) - 20) 0 @ rest)"
  shows "\<exists>p'. TCPHeader_parse h0 p = Inr (h, p', NoError) \<and> reads_from p' rest"
proof -
  obtain q where q: "reads_from q (replicate (4 * unat (th_doff h) - 20) 0 @ rest)"
      "TCPHeader_parse h0 p = parse_rest h q"
    using parse_raw [OF p [unfolded header_fields_raw], of h0] raw_header_id [OF doff(2)] by auto
  then show ?thesis using parse_rest_cases(2) [OF q(1) doff(2,1)] by simp
qed

section \<open>Properties\<close>

text \<open>
  C24. A header whose data offset is between 5 and 15 survives serialization: the string has the
  advertised length, and parsing it, followed by any payload, into any header object reports no
  error, gives back every field, and stops at the payload.
\<close>

theorem tcp_header_roundtrip:
  assumes "5 \<le> th_doff h" and "th_doff h < 16" and "length rest < 2 ^ 63"
  shows "\<exists>bs. TCPHeader_serialize h = Inr bs \<and> length bs = 4 * unat (th_doff h)
    \<and> (\<exists>p'. TCPHeader_parse h0 (NetParser_new (Buffer_of_string (bs @ rest))) = Inr (h, p', NoError)
        \<and> Buffer_str (np_buffer p') = rest)"
proof -
  let ?bs = "field_bytes (header_fields h) @ replicate (4 * unat (th_doff h) - 20) 0"
  have d: "5 \<le> unat (th_doff h)" "unat (th_doff h) < 16"
    using assms(1,2) by (simp_all add: word_le_nat_alt word_less_nat_alt)
  have ser: "TCPHeader_serialize h = Inr ?bs"
    by (rule serialize_eq) (use assms(1) in simp)
  have len: "length ?bs = 4 * unat (th_doff h)" using d(1) by simp
  have "reads_from (NetParser_new (Buffer_of_string (?bs @ rest)))
      (field_bytes (header_fields h) @ replicate (4 * unat (th_doff h) - 20) 0 @ rest)"
    using assms(3) len d(2) by (simp add: reads_from_def NetParser_new_def)
  from parse_serialized [OF assms(1,2) this] ser len show ?thesis
    by (auto simp: reads_from_def)
qed

theorem tcp_header_roundtrip_witness:
  "\<exists>bs. TCPHeader_serialize (TCPHeader_default\<lparr>th_syn := True, th_doff := 6, th_win := 500\<rparr>) = Inr bs
    \<and> length bs = 24
    \<and> (\<exists>p'. TCPHeader_parse TCPHeader_default (NetParser_new (Buffer_of_string (bs @ [104, 105])))
          = Inr (TCPHeader_default\<lparr>th_syn := True, th_doff := 6, th_win := 500\<rparr>, p', NoError)
        \<and> Buffer_str (np_buffer p') = [104, 105])"
  using tcp_header_roundtrip [of "TCPHeader_default\<lparr>th_syn := True, th_doff := 6, th_win := 500\<rparr>"
      "[104, 105]" TCPHeader_default] by simp

end
