(* ===== verification/Internet_Checksum.thy ===== *)
theory Internet_Checksum
  imports Net_Parser
begin

text \<open>
  The class \<open>InternetChecksum\<close> of \<open>util/util.hh\<close> and \<open>util/util.cc\<close>: a 32-bit running sum of
  16-bit words fed byte by byte, folded to 16 bits and complemented on demand. The lemmas read the
  sum as a natural number and the folded value as its residue in ones' complement arithmetic, which
  gives the two facts a protocol relies on: a segment with its checksum filled in verifies, and a
  damaged byte is noticed.
\<close>

unbundle bit_operations_syntax

section \<open>Definitions\<close>

record InternetChecksum =
  ic_sum :: u32
  ic_parity :: bool

definition InternetChecksum_new :: "u32 \<Rightarrow> InternetChecksum" where
  "InternetChecksum_new initial_sum = \<lparr>ic_sum = initial_sum, ic_parity = False\<rparr>"

definition InternetChecksum_add :: "InternetChecksum \<Rightarrow> bytes \<Rightarrow> InternetChecksum" where
  "InternetChecksum_add c data =
     fold (\<lambda>b c.
        let val0 = (ucast b :: u16);
            val = (if \<not> ic_parity c then push_bit 8 val0 else val0)
        in c\<lparr>ic_sum := ic_sum c + ucast val, ic_parity := \<not> ic_parity c\<rparr>) data c"

lemma unat_fold_step:
  "unat (drop_bit 16 ret + (ret AND 0xffff) :: u32) = unat ret div 65536 + unat ret mod 65536"
proof -
  have "ret AND 0xffff = take_bit 16 ret"
    by (simp add: take_bit_eq_mask mask_eq_exp_minus_1)
  moreover have "unat (take_bit 16 ret) = take_bit 16 (unat ret)"
    by (rule unsigned_take_bit_eq)
  ultimately have lo: "unat (ret AND 0xffff) = unat ret mod 65536"
    using take_bit_eq_mod [of 16 "unat ret"] by simp
  have hi: "unat (drop_bit 16 ret) = unat ret div 65536"
    using unat_drop_bit_eq [of 16 ret] drop_bit_eq_div [of 16 "unat ret"] by simp
  have "unat ret < 2 ^ 32" using unsigned_less [where w = ret and 'a = nat] by simp
  then have "unat ret div 65536 < 65536" by (simp add: div_less_iff_less_mult)
  moreover have "unat ret mod 65536 < 65536" by simp
  ultimately have "unat ret div 65536 + unat ret mod 65536 < 2 ^ 32"
    by simp
  then show ?thesis
    using unat_add_lem [of "drop_bit 16 ret" "ret AND 0xffff"] by (simp add: lo hi)
qed

lemma fold_step_less: "65535 < n \<Longrightarrow> n div 65536 + n mod 65536 < (n :: nat)"
proof -
  assume "65535 < n"
  then have "0 < n div 65536" by (simp add: div_greater_zero_iff)
  then show ?thesis using div_mult_mod_eq [of n 65536] by linarith
qed

function fold_carries :: "u32 \<Rightarrow> u32" where
  "fold_carries ret =
     (if 0xffff < ret then fold_carries (drop_bit 16 ret + (ret AND 0xffff)) else ret)"
  by pat_completeness auto
termination
proof (relation "measure unat")
  fix ret :: u32
  assume "0xffff < ret"
  then have "65535 < unat ret" by (simp add: word_less_nat_alt)
  then have "unat ret div 65536 + unat ret mod 65536 < unat ret"
    by (rule fold_step_less)
  then show "(drop_bit 16 ret + (ret AND 0xffff), ret) \<in> measure unat"
    by (simp add: unat_fold_step)
qed simp

declare fold_carries.simps [simp del]

definition InternetChecksum_value :: "InternetChecksum \<Rightarrow> u16" where
  "InternetChecksum_value c = ucast (NOT (fold_carries (ic_sum c)))"

section \<open>The sum as a natural number\<close>

text \<open>The contribution of bytes: the first byte of a pair is the high one.\<close>

fun word_sum :: "bool \<Rightarrow> bytes \<Rightarrow> nat" where
  "word_sum par [] = 0"
| "word_sum par (b # bs) = (if par then unat b else unat b * 256) + word_sum (\<not> par) bs"

lemma word_sum_append: "word_sum par (xs @ ys) = word_sum par xs + word_sum (par \<noteq> (length xs mod 2 = 1)) ys"
proof (induction xs arbitrary: par)
  case (Cons x xs)
  have "(Suc (length xs) mod 2 = 1) \<longleftrightarrow> \<not> (length xs mod 2 = 1)" by presburger
  then show ?case by (cases par) (simp_all add: Cons.IH)
qed simp

lemma byte_lt: "unat (b :: u8) < 256"
  using unsigned_less [where w = b and 'a = nat] by simp

lemma word_sum_bound:
  "word_sum par bs \<le> 65280 * ((length bs + (if par then 0 else 1)) div 2)
     + 255 * ((length bs + (if par then 1 else 0)) div 2)"
proof (induction bs arbitrary: par)
  case (Cons b bs)
  then show ?case using Cons.IH [of "\<not> par"] byte_lt [of b] by (cases par) simp_all
qed simp

lemma unat_add_val:
  assumes "b < 65536"
  shows "unat (s + word_of_nat b :: u32) = (unat s + b) mod 2 ^ 32"
  using assms by (simp add: unat_word_ariths unat_of_nat)

lemma add_step_val:
  "(ucast (if \<not> par then push_bit 8 (ucast b :: u16) else ucast b) :: u32)
     = word_of_nat (if par then unat (b :: u8) else unat b * 256)"
proof -
  have "unat (push_bit 8 (ucast b :: u16)) = unat b * 256"
    using byte_lt [of b] by (simp add: push_bit_eq_mult unat_word_ariths mult.commute unsigned_ucast_eq take_bit_eq_mod)
  then have "(ucast (push_bit 8 (ucast b :: u16)) :: u32) = word_of_nat (unat b * 256)"
    by (metis of_nat_unat)
  moreover have u: "unat (ucast b :: u16) = unat b"
    using byte_lt [of b] by (simp add: unsigned_ucast_eq take_bit_eq_mod)
  have "(ucast (ucast b :: u16) :: u32) = word_of_nat (unat b)"
    by (metis of_nat_unat u)
  ultimately show ?thesis by simp
qed

lemma checksum_add:
  "unat (ic_sum (InternetChecksum_add c data)) = (unat (ic_sum c) + word_sum (ic_parity c) data) mod 2 ^ 32
   \<and> ic_parity (InternetChecksum_add c data) = (ic_parity c \<noteq> (length data mod 2 = 1))"
  unfolding InternetChecksum_add_def Let_def add_step_val
proof (induction data arbitrary: c)
  case Nil
  have "unat (ic_sum c) < 2 ^ 32" using unsigned_less [where w = "ic_sum c" and 'a = nat] by simp
  then show ?case by simp
next
  case (Cons b data)
  let ?v = "if ic_parity c then unat b else unat b * 256"
  let ?c = "c\<lparr>ic_sum := ic_sum c + word_of_nat ?v, ic_parity := \<not> ic_parity c\<rparr>"
  have "?v < 65536" using byte_lt [of b] by simp
  then have "unat (ic_sum ?c) = (unat (ic_sum c) + ?v) mod 2 ^ 32"
    using unat_add_val [of ?v "ic_sum c"] by simp
  then have "(unat (ic_sum ?c) + word_sum (\<not> ic_parity c) data) mod 2 ^ 32
      = (unat (ic_sum c) + word_sum (ic_parity c) (b # data)) mod 2 ^ 32"
    by (simp only: mod_add_left_eq word_sum.simps add.assoc)
  moreover have "((\<not> ic_parity c) \<noteq> (length data mod 2 = 1)) = (ic_parity c \<noteq> (length (b # data) mod 2 = 1))"
    by (cases "ic_parity c") (simp_all, presburger+)
  ultimately show ?case using Cons.IH [of ?c] by simp
qed

lemma checksum_add_append:
  "InternetChecksum_add c (xs @ ys) = InternetChecksum_add (InternetChecksum_add c xs) ys"
  by (simp add: InternetChecksum_add_def)

section \<open>Folding the carries\<close>

text \<open>The representative of \<open>n\<close> modulo 65535 that is 0 only for 0.\<close>

definition ones_residue :: "nat \<Rightarrow> nat" where
  "ones_residue n = (if n = 0 then 0 else (n - 1) mod 65535 + 1)"

lemma ones_residue_fold: "ones_residue (n div 65536 + n mod 65536) = ones_residue n"
proof (cases "n = 0")
  case False
  define q m where "q = n div 65536" and "m = n mod 65536"
  have n: "n = q * 65535 + (q + m)" using div_mult_mod_eq [of n 65536] by (simp add: q_def m_def)
  then have "q + m \<noteq> 0" using False by auto
  with n have "n - 1 = q * 65535 + (q + m - 1)" by linarith
  then have "(n - 1) mod 65535 = (q * 65535 + (q + m - 1)) mod 65535" by simp
  also have "\<dots> = (q + m - 1) mod 65535" by simp
  finally show ?thesis using False \<open>q + m \<noteq> 0\<close> by (simp add: ones_residue_def q_def m_def)
qed (simp add: ones_residue_def)

lemma fold_carries_eq: "unat (fold_carries ret) = ones_residue (unat ret)"
proof (induction ret rule: fold_carries.induct)
  case (1 ret)
  show ?case
  proof (cases "0xffff < ret")
    case True
    then show ?thesis
      using 1 by (simp add: fold_carries.simps [of ret] unat_fold_step ones_residue_fold)
  next
    case False
    then have "unat ret \<le> 65535" by (simp add: word_less_nat_alt not_less)
    then show ?thesis using False by (simp add: fold_carries.simps [of ret] ones_residue_def)
  qed
qed

lemma ones_residue_le: "ones_residue n \<le> 65535"
  using mod_less_divisor [of 65535 "n - 1"] by (auto simp: ones_residue_def)

lemma checksum_value:
  "unat (InternetChecksum_value c) = 65535 - ones_residue (unat (ic_sum c))"
proof -
  let ?r = "fold_carries (ic_sum c)"
  have le: "unat ?r \<le> 65535" using fold_carries_eq ones_residue_le by simp
  have "NOT ?r = - 1 - ?r" by (simp add: not_eq_complement)
  then have "unat (NOT ?r) = 2 ^ 32 - 1 - unat ?r"
    by (simp add: unat_sub unsigned_minus_1_eq_mask mask_eq_exp_minus_1)
  then have "unat (InternetChecksum_value c) = (2 ^ 32 - 1 - unat ?r) mod 65536"
    by (simp add: InternetChecksum_value_def unsigned_ucast_eq take_bit_eq_mod)
  also have "2 ^ 32 - 1 - unat ?r = 65535 * 65536 + (65535 - unat ?r)" using le by simp
  also have "\<dots> mod 65536 = (65535 - unat ?r) mod 65536" by (rule mod_mult_self3)
  finally show ?thesis by (simp add: fold_carries_eq)
qed

lemma checksum_value_zero:
  "InternetChecksum_value c = 0 \<longleftrightarrow> 0 < unat (ic_sum c) \<and> 65535 dvd unat (ic_sum c)"
proof -
  define n where "n = unat (ic_sum c)"
  have "InternetChecksum_value c = 0 \<longleftrightarrow> ones_residue n = 65535"
    using checksum_value [of c] ones_residue_le [of n] unat_eq_0 [of "InternetChecksum_value c"]
    by (auto simp add: n_def)
  also have "\<dots> \<longleftrightarrow> 0 < n \<and> (n - 1) mod 65535 = 65534" by (auto simp: ones_residue_def)
  also have "\<dots> \<longleftrightarrow> 0 < n \<and> 65535 dvd n" by (cases n) (simp_all add: dvd_eq_mod_eq_0 mod_Suc)
  finally show ?thesis by (simp add: n_def)
qed

section \<open>Filling in and checking\<close>

lemma word_sum_u16: "word_sum False (NetUnparser_u16 [] v) = unat v"
proof -
  obtain h l where hl: "NetUnparser_u16 [] v = [h, l]"
    using u16.put_width [of v] by (auto simp: length_Suc_conv numeral_2_eq_2)
  have "be_nat (NetUnparser_u16 [] v) = unat v"
    using be_nat_unparse [where 'a = 16 and n = 2] by (simp add: NetUnparser_u16_def)
  then show ?thesis by (simp add: hl be_nat_def)
qed

lemma word_sum_field:
  assumes "even (length pre)" and "length mid = 2"
  shows "word_sum False (pre @ mid @ post) = word_sum False pre + word_sum False mid + word_sum False post"
  using assms by (simp add: word_sum_append even_iff_mod_2_eq_zero)

lemma checksum_sum:
  assumes "unat init + word_sum False data < 2 ^ 32"
  shows "unat (ic_sum (InternetChecksum_add (InternetChecksum_new init) data)) = unat init + word_sum False data"
  using checksum_add [of "InternetChecksum_new init" data] assms
  by (simp add: InternetChecksum_new_def)

lemma ones_residue_fill: "0 < n + (65535 - ones_residue n) \<and> 65535 dvd n + (65535 - ones_residue n)"
proof (cases n)
  case (Suc k)
  define q m where "q = k div 65535" and "m = k mod 65535"
  have "k = 65535 * q + m" and "m < 65535" by (simp_all add: q_def m_def)
  moreover have "ones_residue n = m + 1" by (simp add: ones_residue_def Suc m_def)
  ultimately have "n + (65535 - ones_residue n) = 65535 * (q + 1)"
    by (simp add: Suc)
  then show ?thesis by (metis dvd_triv_left nat_0_less_mult_iff zero_less_numeral add_gr_0 zero_less_one)
qed (simp add: ones_residue_def)

lemma checksum_fill:
  assumes "even (length pre)" and "unat init + word_sum False (pre @ [0, 0] @ post) + 65535 < 2 ^ 32"
  defines "c \<equiv> InternetChecksum_value (InternetChecksum_add (InternetChecksum_new init) (pre @ [0, 0] @ post))"
  shows "InternetChecksum_value
      (InternetChecksum_add (InternetChecksum_new init) (pre @ NetUnparser_u16 [] c @ post)) = 0"
proof -
  let ?n = "unat init + word_sum False (pre @ [0, 0] @ post)"
  have c: "unat c = 65535 - ones_residue ?n"
    using assms(2) by (simp only: c_def checksum_value) (simp add: checksum_sum)
  have "word_sum False (pre @ NetUnparser_u16 [] c @ post) = word_sum False (pre @ [0, 0] @ post) + unat c"
    using word_sum_field [OF assms(1), of "[0, 0]" post]
      word_sum_field [OF assms(1), of "NetUnparser_u16 [] c" post] u16.put_width [of c]
    by (simp add: word_sum_u16)
  then have "unat (ic_sum (InternetChecksum_add (InternetChecksum_new init) (pre @ NetUnparser_u16 [] c @ post)))
      = ?n + (65535 - ones_residue ?n)"
    using assms(2) c by (subst checksum_sum) simp_all
  then show ?thesis using ones_residue_fill [of ?n] by (simp add: checksum_value_zero)
qed

text \<open>Changing one byte moves the sum by less than 65535 in either direction.\<close>

lemma word_sum_change:
  "b \<noteq> b' \<Longrightarrow> \<exists>d. 0 < d \<and> d < 65535 \<and>
     (word_sum par (pre @ b' # post) = word_sum par (pre @ b # post) + d
      \<or> word_sum par (pre @ b # post) = word_sum par (pre @ b' # post) + d)"
proof -
  assume "b \<noteq> b'"
  then have ne: "unat b \<noteq> unat b'" using word_eq_iff_unsigned by blast
  define p1 where "p1 = (par \<noteq> (length pre mod 2 = 1))"
  define k :: nat where "k = (if p1 then 1 else 256)"
  have k: "0 < k" "k \<le> 256" by (simp_all add: k_def)
  have "word_sum par (pre @ x # post) = unat x * k + (word_sum par pre + word_sum (\<not> p1) post)" for x :: u8
    unfolding word_sum_append p1_def [symmetric] by (simp add: k_def)
  then obtain rest where sum: "\<And>x. word_sum par (pre @ x # post) = unat x * k + rest" by blast
  have small: "(y - x) * k < 65535" if "y < 256" for x y :: nat
  proof -
    have "y - x \<le> 255" using that by simp
    from mult_le_mono [OF this k(2)] show ?thesis by simp
  qed
  show ?thesis
  proof (cases "unat b < unat b'")
    case True
    then have "unat b' * k = unat b * k + (unat b' - unat b) * k" by (simp flip: add_mult_distrib)
    with True k small [OF byte_lt, of b' "unat b"] show ?thesis
      by (intro exI [of _ "(unat b' - unat b) * k"]) (simp add: sum)
  next
    case False
    then have "unat b' < unat b" using ne by simp
    moreover from this have "unat b * k = unat b' * k + (unat b - unat b') * k"
      by (simp flip: add_mult_distrib)
    ultimately show ?thesis using k small [OF byte_lt, of b "unat b'"]
      by (intro exI [of _ "(unat b - unat b') * k"]) (simp add: sum)
  qed
qed

lemma word_sum_datagram: "length data \<le> 65535 \<Longrightarrow> word_sum False data \<le> 2147450880"
proof -
  assume len: "length data \<le> 65535"
  then have "(length data + 1) div 2 \<le> 32768" and "length data div 2 \<le> 32768" by linarith+
  then show ?thesis using word_sum_bound [of False data] by simp
qed

section \<open>Properties\<close>

text \<open>
  C22. Filling in the checksum makes the data verify: for a 16-bit field at an even position, the
  value computed with the field zeroed, written into the field in network order, gives checksum 0
  over the whole. The bounds cover every segment that fits into an IP datagram, whose pseudo-header
  sum is far below \<open>2^30\<close>.
\<close>

theorem checksum_verifies:
  assumes "even (length pre)" and "length (pre @ post) \<le> 65533" and "unat init < 2 ^ 30"
  shows "InternetChecksum_value (InternetChecksum_add (InternetChecksum_new init)
      (pre @ NetUnparser_u16 []
          (InternetChecksum_value (InternetChecksum_add (InternetChecksum_new init) (pre @ [0, 0] @ post)))
        @ post)) = 0"
proof (rule checksum_fill [OF assms(1)])
  show "unat init + word_sum False (pre @ [0, 0] @ post) + 65535 < 2 ^ 32"
    using word_sum_datagram [of "pre @ [0, 0] @ post"] assms(2,3) by simp
qed

theorem checksum_verifies_witness:
  "InternetChecksum_value (InternetChecksum_add (InternetChecksum_new 17)
      ([1, 2] @ NetUnparser_u16 []
          (InternetChecksum_value (InternetChecksum_add (InternetChecksum_new 17) ([1, 2] @ [0, 0] @ [9])))
        @ [9])) = 0"
  by (rule checksum_verifies) simp_all

text \<open>
  C23. A damaged byte is noticed: if some data verifies, then the data with one byte replaced by a
  different one does not.
\<close>

theorem checksum_detects_byte:
  assumes "b \<noteq> b'" and "length (pre @ b # post) \<le> 65535" and "unat init < 2 ^ 30"
    and "InternetChecksum_value (InternetChecksum_add (InternetChecksum_new init) (pre @ b # post)) = 0"
  shows "InternetChecksum_value (InternetChecksum_add (InternetChecksum_new init) (pre @ b' # post)) \<noteq> 0"
proof
  assume "InternetChecksum_value (InternetChecksum_add (InternetChecksum_new init) (pre @ b' # post)) = 0"
  moreover have "unat init + word_sum False (pre @ x # post) < 2 ^ 32" for x
    using word_sum_datagram [of "pre @ x # post"] assms(2,3) by simp
  ultimately have dvd: "65535 dvd unat init + word_sum False (pre @ b # post)"
      "65535 dvd unat init + word_sum False (pre @ b' # post)"
    using assms(4) by (simp_all add: checksum_value_zero checksum_sum)
  obtain d where "0 < d" "d < 65535" and d: "word_sum False (pre @ b' # post) = word_sum False (pre @ b # post) + d
      \<or> word_sum False (pre @ b # post) = word_sum False (pre @ b' # post) + d"
    using word_sum_change [OF assms(1), of False pre post] by blast
  from d have "65535 dvd d"
  proof
    assume "word_sum False (pre @ b' # post) = word_sum False (pre @ b # post) + d"
    with dvd show ?thesis by (simp only: add.assoc [symmetric] dvd_add_right_iff)
  next
    assume "word_sum False (pre @ b # post) = word_sum False (pre @ b' # post) + d"
    with dvd show ?thesis by (simp only: add.assoc [symmetric] dvd_add_right_iff)
  qed
  with \<open>0 < d\<close> \<open>d < 65535\<close> show False by (simp add: nat_dvd_not_less)
qed

theorem checksum_detects_byte_witness:
  "InternetChecksum_value (InternetChecksum_add (InternetChecksum_new 0) [0xff, 0xfe, 0, 2]) \<noteq> 0"
proof -
  have "InternetChecksum_value (InternetChecksum_add (InternetChecksum_new 0) ([0xff, 0xfe, 0] @ 1 # [])) = 0"
    using checksum_sum [of 0 "[0xff, 0xfe, 0, 1]"] by (simp add: checksum_value_zero)
  from checksum_detects_byte [OF _ _ _ this, of 2] show ?thesis by simp
qed

end
