(* ===== verification/TCP_Segment.thy ===== *)
theory TCP_Segment
  imports TCP_Header Internet_Checksum
begin

text \<open>
  The class \<open>TCPSegment\<close> of \<open>tcp_helpers/tcp_segment.hh\<close> and \<open>tcp_helpers/tcp_segment.cc\<close>: a header
  and a payload, with their wire format and checksum.
\<close>

section \<open>Definitions\<close>

record TCPSegment =
  seg_header :: TCPHeader
  seg_payload :: Buffer

definition TCPSegment_default :: TCPSegment where
  "TCPSegment_default = \<lparr>seg_header = TCPHeader_default, seg_payload = Buffer_default\<rparr>"

definition TCPSegment_parse :: "TCPSegment \<Rightarrow> Buffer \<Rightarrow> u32 \<Rightarrow> (TCPSegment \<times> ParseResult) result" where
  "TCPSegment_parse seg buffer datagram_layer_checksum =
     (let check = InternetChecksum_add (InternetChecksum_new datagram_layer_checksum) (Buffer_str buffer)
      in if InternetChecksum_value check \<noteq> 0 then Inr (seg, BadChecksum)
         else try_bind (TCPHeader_parse (seg_header seg) (NetParser_new buffer)) (\<lambda>(h', p, _).
           Inr (seg\<lparr>seg_header := h', seg_payload := np_buffer p\<rparr>, np_error p)))"

definition length_in_sequence_space :: "TCPSegment \<Rightarrow> u64" where
  "length_in_sequence_space seg =
     size_t (Buffer_str (seg_payload seg)) + (if th_syn (seg_header seg) then 1 else 0)
       + (if th_fin (seg_header seg) then 1 else 0)"

definition TCPSegment_serialize :: "TCPSegment \<Rightarrow> u32 \<Rightarrow> BufferList result" where
  "TCPSegment_serialize seg datagram_layer_checksum =
     (let header_out = (seg_header seg)\<lparr>th_cksum := 0\<rparr>;
          check0 = InternetChecksum_new datagram_layer_checksum
      in try_bind (TCPHeader_serialize header_out) (\<lambda>s0.
         let check1 = InternetChecksum_add check0 s0;
             check2 = InternetChecksum_add check1 (Buffer_str (seg_payload seg));
             header_out1 = header_out\<lparr>th_cksum := InternetChecksum_value check2\<rparr>
         in try_bind (TCPHeader_serialize header_out1) (\<lambda>s1.
            Inr (BufferList_append
                  (BufferList_append BufferList_default (BufferList_of_string s1))
                  (BufferList_of_Buffer (seg_payload seg))))))"

section \<open>The checksum field\<close>

lemma u16_zero: "NetUnparser_u16 [] 0 = [0, 0]"
  by (simp add: NetUnparser_u16_def unparse_int_def upt_rec)

lemma header_bytes_cksum:
  "field_bytes (header_fields h) =
     field_bytes (take 7 (header_fields h)) @ NetUnparser_u16 [] (th_cksum h) @ NetUnparser_u16 [] (th_uptr h)"
  by (simp add: header_fields_def)

lemma header_front:
  "take 7 (header_fields (h\<lparr>th_cksum := c\<rparr>)) = take 7 (header_fields h)"
  "even (length (field_bytes (take 7 (header_fields h))))"
  by (simp_all add: header_fields_def header_flags_def u8.put_width u16.put_width u32.put_width)

text \<open>The checksum over a header and its payload after the field has been filled in.\<close>

lemma filled_header_verifies:
  fixes h :: TCPHeader and payload :: bytes and cks :: u32
  defines "bytes \<equiv> \<lambda>c. field_bytes (header_fields (h\<lparr>th_cksum := c\<rparr>))
      @ replicate (4 * unat (th_doff h) - 20) 0 @ payload"
  assumes "length (bytes 0) \<le> 65535" and "unat cks < 2 ^ 30"
  shows "InternetChecksum_value (InternetChecksum_add (InternetChecksum_new cks)
     (bytes (InternetChecksum_value (InternetChecksum_add (InternetChecksum_new cks) (bytes 0))))) = 0"
proof -
  let ?pre = "field_bytes (take 7 (header_fields h))"
  let ?post = "NetUnparser_u16 [] (th_uptr h) @ replicate (4 * unat (th_doff h) - 20) 0 @ payload"
  have b: "bytes c = ?pre @ NetUnparser_u16 [] c @ ?post" for c
    by (simp add: bytes_def header_bytes_cksum [of "h\<lparr>th_cksum := c\<rparr>"] header_front)
  have "unat cks + word_sum False (?pre @ [0, 0] @ ?post) + 65535 < 2 ^ 32"
    using word_sum_datagram [of "?pre @ [0, 0] @ ?post"] assms(2,3) by (simp add: b u16_zero)
  from checksum_fill [OF header_front(2) this] show ?thesis by (simp add: b u16_zero)
qed

section \<open>Serializing\<close>

definition segment_bytes :: "TCPSegment \<Rightarrow> u16 \<Rightarrow> bytes" where
  "segment_bytes seg c = field_bytes (header_fields ((seg_header seg)\<lparr>th_cksum := c\<rparr>))
     @ replicate (4 * unat (th_doff (seg_header seg)) - 20) 0 @ Buffer_str (seg_payload seg)"

definition segment_cksum :: "TCPSegment \<Rightarrow> u32 \<Rightarrow> u16" where
  "segment_cksum seg cks =
     InternetChecksum_value (InternetChecksum_add (InternetChecksum_new cks) (segment_bytes seg 0))"

lemma serialize_segment:
  assumes "5 \<le> th_doff (seg_header seg)" and "length (segment_bytes seg 0) < 2 ^ 64"
  shows "\<exists>bl. TCPSegment_serialize seg cks = Inr bl
    \<and> BufferList_concatenate bl = segment_bytes seg (segment_cksum seg cks)"
proof -
  let ?h = "\<lambda>c. (seg_header seg)\<lparr>th_cksum := c\<rparr>"
  let ?b = "\<lambda>c. field_bytes (header_fields (?h c)) @ replicate (4 * unat (th_doff (seg_header seg)) - 20) 0"
  have ser: "TCPHeader_serialize (?h c) = Inr (?b c)" for c
    using serialize_eq [of "?h c"] assms(1) by simp
  have len: "length (?b c) < 2 ^ 64" for c
    using assms(2) by (simp add: segment_bytes_def)
  have "Buffer_str (Buffer_of_string (?b c)) = ?b c" for c
    using len by (rule Buffer_str_of_string)
  then have "TCPSegment_serialize seg cks = Inr (BufferList_append
      (BufferList_append BufferList_default (BufferList_of_string (?b (segment_cksum seg cks))))
      (BufferList_of_Buffer (seg_payload seg)))"
    using ser by (simp add: TCPSegment_serialize_def Let_def segment_cksum_def segment_bytes_def
        flip: checksum_add_append)
  moreover have "Buffer_str (Buffer_of_string (?b c)) = ?b c" for c
    using len by (rule Buffer_str_of_string)
  ultimately show ?thesis
    by (simp add: BufferList_concatenate_eq BufferList_append_eq BufferList_of_string_buffers
        BufferList_default_def BufferList_of_Buffer_def segment_bytes_def)
qed

lemma word_sum_zeros [simp]: "word_sum par (replicate n 0) = 0"
  by (induction n arbitrary: par) simp_all

section \<open>Parsing\<close>

definition header_outcome :: "bytes \<Rightarrow> TCPHeader \<Rightarrow> NetParser \<Rightarrow> bool" where
  "header_outcome bs h p \<longleftrightarrow>
     (let d = drop_bit 4 (bs ! 12)
      in th_doff h = d
       \<and> (d < 5 \<longrightarrow> reads_from p (drop 20 bs))
       \<and> (5 \<le> d \<and> 4 * unat d \<le> length bs \<longrightarrow> reads_from p (drop (4 * unat d) bs))
       \<and> (5 \<le> d \<and> length bs < 4 * unat d \<longrightarrow> np_error p = PacketTooShort))"

lemma parse_outcome:
  assumes "buffer_ok b" and long: "20 \<le> length (Buffer_str b)"
  shows "\<exists>h' p' res. TCPHeader_parse h (NetParser_new b) = Inr (h', p', res) \<and> header_outcome (Buffer_str b) h' p'"
proof -
  define bs d where "bs = Buffer_str b" and "d = drop_bit 4 (bs ! 12)"
  have "reads_from (NetParser_new b) bs"
    using assms(1) by (simp add: reads_from_def NetParser_new_def bs_def)
  from parse_any [OF this, of h] long obtain h' p' where h': "th_doff h' = d" "reads_from p' (drop 20 bs)"
      "TCPHeader_parse h (NetParser_new b) = parse_rest h' p'"
    by (auto simp: bs_def d_def)
  have "unat d < 16"
    using byte_lt [of "bs ! 12"] unat_drop_bit_eq [of 4 "bs ! 12"] by (simp add: d_def drop_bit_eq_div)
  then have "th_doff h' < 16" by (simp add: h'(1) word_less_nat_alt)
  note cases = parse_rest_cases [OF h'(2) this, unfolded h'(1)]
  consider "d < 5" | "5 \<le> d" "4 * unat d \<le> length bs" | "5 \<le> d" "length bs < 4 * unat d" by fastforce
  then have "\<exists>p'' res. parse_rest h' p' = Inr (h', p'', res) \<and> header_outcome bs h' p''"
  proof cases
    case 1
    with cases(1) h' show ?thesis by (auto simp: header_outcome_def d_def Let_def)
  next
    case 2
    then have "drop (4 * unat d - 20) (drop 20 bs) = drop (4 * unat d) bs"
      by (simp add: word_le_nat_alt)
    then obtain q where "parse_rest h' p' = Inr (h', q, NoError)" "reads_from q (drop (4 * unat d) bs)"
      using cases(2) [OF 2(1)] diff_le_mono [OF 2(2), of 20] by auto
    with 2 h'(1) show ?thesis
      by (intro exI [of _ q] exI [of _ NoError]) (auto simp: header_outcome_def d_def Let_def)
  next
    case 3
    then have "length (drop 20 bs) < 4 * unat d - 20" using long by (simp add: bs_def word_le_nat_alt)
    with 3 cases(3) h'(1) show ?thesis by (auto simp: header_outcome_def d_def Let_def)
  qed
  then show ?thesis using h'(3) by (auto simp: bs_def)
qed

lemma serialize_then_parse:
  assumes "5 \<le> th_doff (seg_header seg)" and "th_doff (seg_header seg) < 16"
    and "4 * unat (th_doff (seg_header seg)) + length (Buffer_str (seg_payload seg)) \<le> 65535"
    and "unat cks < 2 ^ 30"
  shows "\<exists>bl c b. TCPSegment_serialize seg cks = Inr bl
    \<and> TCPSegment_parse seg0 (Buffer_of_string (BufferList_concatenate bl)) cks
        = Inr (seg0\<lparr>seg_header := (seg_header seg)\<lparr>th_cksum := c\<rparr>, seg_payload := b\<rparr>, NoError)
    \<and> Buffer_str b = Buffer_str (seg_payload seg)"
proof -
  let ?c = "segment_cksum seg cks"
  let ?h = "(seg_header seg)\<lparr>th_cksum := ?c\<rparr>" and ?bs = "segment_bytes seg ?c"
  have d: "5 \<le> unat (th_doff (seg_header seg))" using assms(1) by (simp add: word_le_nat_alt)
  have len: "length (segment_bytes seg c) \<le> 65535" for c
    using assms(3) d by (simp add: segment_bytes_def)
  obtain bl where bl: "TCPSegment_serialize seg cks = Inr bl" "BufferList_concatenate bl = ?bs"
    using serialize_segment [OF assms(1), of cks] len [of 0] by auto
  let ?p = "NetParser_new (Buffer_of_string ?bs)"
  have "reads_from ?p (field_bytes (header_fields ?h) @ replicate (4 * unat (th_doff ?h) - 20) 0
      @ Buffer_str (seg_payload seg))"
    using len [of ?c] by (simp add: reads_from_def NetParser_new_def) (simp add: segment_bytes_def)
  then obtain p' where p': "TCPHeader_parse (seg_header seg0) ?p = Inr (?h, p', NoError)"
      "reads_from p' (Buffer_str (seg_payload seg))"
    using parse_serialized [of ?h] assms(1,2) by fastforce
  have "InternetChecksum_value (InternetChecksum_add (InternetChecksum_new cks) ?bs) = 0"
    using filled_header_verifies [of "seg_header seg" "Buffer_str (seg_payload seg)" cks] len [of 0] assms(4)
    by (simp add: segment_bytes_def segment_cksum_def)
  then have "TCPSegment_parse seg0 (Buffer_of_string ?bs) cks
      = Inr (seg0\<lparr>seg_header := ?h, seg_payload := np_buffer p'\<rparr>, NoError)"
    using p' len [of ?c] by (simp add: TCPSegment_parse_def reads_from_def)
  then show ?thesis using bl p'(2) by (auto simp: reads_from_def)
qed

section \<open>Properties\<close>

text \<open>
  C15. Sending and receiving a segment: what \<open>serialize\<close> produces passes the checksum test of
  \<open>parse\<close> with the same pseudo-header sum, and \<open>parse\<close> gives back the header (with the checksum
  filled in) and the payload.
\<close>

theorem tcp_segment_roundtrip:
  assumes "5 \<le> th_doff (seg_header seg)" and "th_doff (seg_header seg) < 16"
    and "4 * unat (th_doff (seg_header seg)) + length (Buffer_str (seg_payload seg)) \<le> 65535"
    and "unat cks < 2 ^ 30"
  shows "\<exists>bl seg'. TCPSegment_serialize seg cks = Inr bl
    \<and> TCPSegment_parse seg0 (Buffer_of_string (BufferList_concatenate bl)) cks = Inr (seg', NoError)
    \<and> (\<exists>c. seg_header seg' = (seg_header seg)\<lparr>th_cksum := c\<rparr>)
    \<and> TCPHeader_eq (seg_header seg') (seg_header seg)
    \<and> Buffer_str (seg_payload seg') = Buffer_str (seg_payload seg)
    \<and> length_in_sequence_space seg' = length_in_sequence_space seg"
  using serialize_then_parse [OF assms, of seg0]
  by (elim exE conjE) (auto simp: TCPHeader_eq_def wi_eq_def length_in_sequence_space_def)

theorem tcp_segment_roundtrip_witness:
  "\<exists>bl seg'. TCPSegment_serialize
        (TCPSegment_default\<lparr>seg_payload := Buffer_of_string [104, 105]\<rparr>) 1000 = Inr bl
    \<and> TCPSegment_parse TCPSegment_default (Buffer_of_string (BufferList_concatenate bl)) 1000 = Inr (seg', NoError)
    \<and> Buffer_str (seg_payload seg') = [104, 105]"
  using tcp_segment_roundtrip [of "TCPSegment_default\<lparr>seg_payload := Buffer_of_string [104, 105]\<rparr>" 1000
      TCPSegment_default]
  by (auto simp: TCPSegment_default_def TCPHeader_default_def TCPHeader_LENGTH_def)

text \<open>
  C25. \<open>parse\<close> on arbitrary bytes: it never raises an exception. A checksum other than zero gives
  \<open>BadChecksum\<close> and leaves the segment alone; fewer than 20 bytes give an error; otherwise the data
  offset decides between a truncated header and a payload that starts right after the header. A data
  offset below 5 is accepted as if it were 5: the \<open>HeaderTooShort\<close> that \<open>TCPHeader::parse\<close> returns
  is dropped.
\<close>

theorem tcp_segment_parse_cases:
  assumes "buffer_ok b"
  defines "bs \<equiv> Buffer_str b" and "d \<equiv> drop_bit 4 (Buffer_str b ! 12)"
  shows "\<exists>seg' res. TCPSegment_parse seg b cks = Inr (seg', res)
    \<and> (InternetChecksum_value (InternetChecksum_add (InternetChecksum_new cks) bs) \<noteq> 0 \<longrightarrow>
        res = BadChecksum \<and> seg' = seg)
    \<and> (InternetChecksum_value (InternetChecksum_add (InternetChecksum_new cks) bs) = 0 \<longrightarrow>
        (length bs < 20 \<longrightarrow> res \<noteq> NoError)
        \<and> (20 \<le> length bs \<longrightarrow> th_doff (seg_header seg') = d
          \<and> (d < 5 \<longrightarrow> res = NoError \<and> Buffer_str (seg_payload seg') = drop 20 bs)
          \<and> (5 \<le> d \<and> 4 * unat d \<le> length bs \<longrightarrow>
              res = NoError \<and> Buffer_str (seg_payload seg') = drop (4 * unat d) bs)
          \<and> (5 \<le> d \<and> length bs < 4 * unat d \<longrightarrow> res = PacketTooShort)))"
proof -
  let ?sum = "InternetChecksum_value (InternetChecksum_add (InternetChecksum_new cks) bs)"
  consider "?sum \<noteq> 0" | "?sum = 0" "length bs < 20" | "?sum = 0" "20 \<le> length bs" by linarith
  then show ?thesis
  proof cases
    case 1
    then show ?thesis by (simp add: TCPSegment_parse_def bs_def)
  next
    case 2
    have "buffer_ok (np_buffer (NetParser_new b))" "length (Buffer_str (np_buffer (NetParser_new b))) < 20"
      using assms(1) 2(2) by (simp_all add: NetParser_new_def bs_def)
    from parse_short [OF this, of "seg_header seg"] 2 show ?thesis
      by (auto simp: TCPSegment_parse_def bs_def)
  next
    case 3
    obtain h' p' res where "TCPHeader_parse (seg_header seg) (NetParser_new b) = Inr (h', p', res)"
        "header_outcome bs h' p'"
      using parse_outcome [OF assms(1), of "seg_header seg"] 3(2) by (auto simp: bs_def)
    with 3 show ?thesis by (auto simp: TCPSegment_parse_def bs_def d_def header_outcome_def Let_def reads_from_def)
  qed
qed

theorem tcp_segment_parse_cases_witness:
  "\<exists>seg'. TCPSegment_parse TCPSegment_default (Buffer_of_string (replicate 20 0)) 0xffff = Inr (seg', NoError)
     \<and> th_doff (seg_header seg') = 0"
proof -
  have sum: "InternetChecksum_value (InternetChecksum_add (InternetChecksum_new 0xffff) (replicate 20 0)) = 0"
    using checksum_sum [of "0xffff" "replicate 20 0"] by (simp add: checksum_value_zero word_sum_zeros)
  have "buffer_ok (Buffer_of_string (replicate 20 0))" by simp
  from tcp_segment_parse_cases [OF this, of TCPSegment_default "0xffff"] show ?thesis
    by (auto simp: sum)
qed

end
