(* ===== verification/Stream_Segments.thy ===== *)
theory Stream_Segments
  imports Stream_Reassembler TCP_Segment
begin

text \<open>
  The vocabulary the sender and the receiver share: which TCP segments carry a part of a given byte
  stream, numbered from a given initial sequence number, and which sequences of segments are
  contiguous in sequence space.
\<close>

section \<open>Segments of a stream\<close>

lemma wrap_zero: "wrap 0 isn = isn"
  by (cases isn) (simp add: wrap_def wi_plus_def)

lemma unwrap_isn [simp]: "unwrap isn isn 0 = 0"
  using wi.dec_enc [of 0 0 isn] by (simp add: near_seq_def wrap_zero)

text \<open>
  The stream index of the first payload byte, for streams shorter than \<open>2^31\<close>, and the segments a
  sender of the stream \<open>s\<close> with initial sequence number \<open>isn\<close> may send: the SYN sits at the initial
  sequence number, the payload is the excerpt at its index, and FIN is set on the last bytes only.
  A segment with neither payload nor flags, sent to carry an acknowledgement, is genuine at any
  sequence number the sender uses.
\<close>

definition seg_index :: "WrappingInt32 \<Rightarrow> TCPSegment \<Rightarrow> u64" where
  "seg_index isn seg =
     (if th_syn (seg_header seg) then 0 else unwrap (th_seqno (seg_header seg)) isn 0 - 1)"

definition genuine_segment :: "WrappingInt32 \<Rightarrow> bytes \<Rightarrow> TCPSegment \<Rightarrow> bool" where
  "genuine_segment isn s seg \<longleftrightarrow>
     (th_syn (seg_header seg) \<longrightarrow> th_seqno (seg_header seg) = isn)
     \<and> unat (unwrap (th_seqno (seg_header seg)) isn 0) \<le> length s + 2
     \<and> excerpt s (Buffer_str (seg_payload seg)) (seg_index isn seg) (th_fin (seg_header seg))"

text \<open>
  For streams of any length the absolute sequence number is not determined by the segment. A segment
  sent for the absolute number \<open>x\<close> has its payload at the stream index \<open>pay_index x\<close>;
  \<open>carries isn s x seg\<close> says that the segment was sent for the absolute sequence number \<open>x\<close>, and
  \<open>stream_segment\<close> that it was sent for some number of the stream.
\<close>

definition pay_index :: "u64 \<Rightarrow> TCPSegment \<Rightarrow> u64" where
  "pay_index x seg = (if th_syn (seg_header seg) then 0 else x - 1)"

definition carries :: "WrappingInt32 \<Rightarrow> bytes \<Rightarrow> u64 \<Rightarrow> TCPSegment \<Rightarrow> bool" where
  "carries isn s x seg \<longleftrightarrow>
     th_seqno (seg_header seg) = wrap x isn \<and> (th_syn (seg_header seg) \<longrightarrow> x = 0)
     \<and> excerpt s (Buffer_str (seg_payload seg)) (pay_index x seg) (th_fin (seg_header seg))"

definition stream_segment :: "WrappingInt32 \<Rightarrow> bytes \<Rightarrow> TCPSegment \<Rightarrow> bool" where
  "stream_segment isn s seg \<longleftrightarrow> (\<exists>x. unat x \<le> length s + 2 \<and> carries isn s x seg)"

section \<open>Contiguous segments\<close>

definition seg_len :: "TCPSegment \<Rightarrow> nat" where
  "seg_len seg = unat (length_in_sequence_space seg)"

text \<open>\<open>seq_chain isn a segs b\<close>: the segments fill the absolute sequence numbers from \<open>a\<close> to \<open>b\<close>.\<close>

fun seq_chain :: "WrappingInt32 \<Rightarrow> nat \<Rightarrow> TCPSegment list \<Rightarrow> nat \<Rightarrow> bool" where
  "seq_chain isn a [] b \<longleftrightarrow> a = b"
| "seq_chain isn a (seg # segs) b \<longleftrightarrow>
     th_seqno (seg_header seg) = wrap (word_of_nat a) isn \<and> 0 < seg_len seg
     \<and> seq_chain isn (a + seg_len seg) segs b"

lemma seq_chain_append:
  "seq_chain isn a (xs @ ys) b \<longleftrightarrow> (\<exists>c. seq_chain isn a xs c \<and> seq_chain isn c ys b)"
  by (induction xs arbitrary: a) auto

lemma seq_chain_sum: "seq_chain isn a segs b \<Longrightarrow> b = a + sum_list (map seg_len segs)"
proof (induction segs arbitrary: a)
  case (Cons seg segs)
  then have "seq_chain isn (a + seg_len seg) segs b" by simp
  from Cons.IH [OF this] show ?case by simp
qed simp

lemma seq_chain_le: "seq_chain isn a segs b \<Longrightarrow> a \<le> b"
  using seq_chain_sum by fastforce

text \<open>Contiguous segments from \<open>a\<close> on, each of which carries the stream at its place.\<close>

fun carried :: "WrappingInt32 \<Rightarrow> bytes \<Rightarrow> nat \<Rightarrow> TCPSegment list \<Rightarrow> bool" where
  "carried isn s a [] \<longleftrightarrow> True"
| "carried isn s a (seg # segs) \<longleftrightarrow>
     carries isn s (word_of_nat a) seg \<and> carried isn s (a + seg_len seg) segs"

lemma carried_append:
  "carried isn s a (xs @ ys) \<longleftrightarrow> carried isn s a xs \<and> carried isn s (a + sum_list (map seg_len xs)) ys"
  by (induction xs arbitrary: a) (auto simp: add.assoc)

lemma carried_member:
  "carried isn s a segs \<Longrightarrow> a + sum_list (map seg_len segs) < 2 ^ 64 \<Longrightarrow> seg \<in> set segs \<Longrightarrow>
   \<exists>x. carries isn s x seg \<and> unat x + seg_len seg \<le> a + sum_list (map seg_len segs)"
proof (induction segs arbitrary: a)
  case (Cons y segs)
  show ?case
  proof (cases "seg = y")
    case True
    have "unat (word_of_nat a :: u64) = a" by (rule unat_of_nat_small) (use Cons.prems(2) in simp)
    then show ?thesis using Cons.prems(1) True by (intro exI [of _ "word_of_nat a"]) simp
  next
    case False
    then show ?thesis using Cons.IH [of "a + seg_len y"] Cons.prems by (auto simp: add.assoc)
  qed
qed simp

end
