(* ===== verification/Retransmission_Timer.thy ===== *)
theory Retransmission_Timer
  imports Sponge_Prelude
begin

text \<open>
  The class \<open>RetransmissionTimer\<close> of \<open>retransmission_timer.hh\<close> and \<open>retransmission_timer.cc\<close>, and
  the exponential backoff it implements.
\<close>

section \<open>Definitions\<close>

record RetransmissionTimer =
  rt_is_running :: bool
  rt_accumulate_time :: u64
  rt_rto :: u64
  rt_init_rto :: u64

definition RetransmissionTimer_new :: "u64 \<Rightarrow> RetransmissionTimer" where
  "RetransmissionTimer_new retx_timeout =
     \<lparr>rt_is_running = False, rt_accumulate_time = 0, rt_rto = retx_timeout, rt_init_rto = retx_timeout\<rparr>"

definition start_timer :: "RetransmissionTimer \<Rightarrow> RetransmissionTimer" where
  "start_timer t =
     (if \<not> rt_is_running t
      then t\<lparr>rt_is_running := True, rt_rto := rt_init_rto t, rt_accumulate_time := 0\<rparr> else t)"

definition stop_timer :: "RetransmissionTimer \<Rightarrow> RetransmissionTimer" where
  "stop_timer t = (if rt_is_running t then t\<lparr>rt_is_running := False\<rparr> else t)"

definition handle_timeout :: "RetransmissionTimer \<Rightarrow> RetransmissionTimer" where
  "handle_timeout t = t\<lparr>rt_rto := rt_rto t * 2, rt_accumulate_time := 0\<rparr>"

definition check_timeout :: "RetransmissionTimer \<Rightarrow> u64 \<Rightarrow> RetransmissionTimer \<times> bool" where
  "check_timeout t ms_since_last_tick =
     (if rt_is_running t
      then let t' = t\<lparr>rt_accumulate_time := rt_accumulate_time t + ms_since_last_tick\<rparr>
           in (t', rt_rto t' \<le> rt_accumulate_time t')
      else (t, False))"

definition set_timeout :: "RetransmissionTimer \<Rightarrow> u64 \<Rightarrow> RetransmissionTimer" where
  "set_timeout t rto_time = t\<lparr>rt_rto := rto_time\<rparr>"

definition set_accumulate_time :: "RetransmissionTimer \<Rightarrow> u64 \<Rightarrow> RetransmissionTimer" where
  "set_accumulate_time t accumulate_time = t\<lparr>rt_accumulate_time := accumulate_time\<rparr>"

lemmas timer_defs =
  start_timer_def stop_timer_def handle_timeout_def set_timeout_def set_accumulate_time_def

lemma timer_running [simp]:
  "rt_is_running (start_timer t)" "\<not> rt_is_running (stop_timer t)"
  "rt_is_running (handle_timeout t) = rt_is_running t"
  "rt_is_running (set_timeout t r) = rt_is_running t"
  "rt_is_running (set_accumulate_time t a) = rt_is_running t"
  "rt_is_running (fst (check_timeout t ms)) = rt_is_running t"
  by (simp_all add: timer_defs check_timeout_def Let_def)

lemma check_timeout_running: "snd (check_timeout t ms) \<Longrightarrow> rt_is_running t"
  by (simp add: check_timeout_def split: if_splits)

lemma handle_timeout_fields:
  "unat (rt_rto t) * 2 < 2 ^ 64 \<Longrightarrow> unat (rt_rto (handle_timeout t)) = unat (rt_rto t) * 2"
  "rt_accumulate_time (handle_timeout t) = 0"
  by (simp_all add: handle_timeout_def unat_word_ariths)

section \<open>Waiting\<close>

text \<open>Ticks that are not followed by an expiry: the time adds up.\<close>

fun wait_ticks :: "u64 list \<Rightarrow> RetransmissionTimer \<Rightarrow> RetransmissionTimer \<times> bool" where
  "wait_ticks [] t = (t, False)"
| "wait_ticks (ms # ticks) t =
     (let (t', expired) = check_timeout t ms in if expired then (t', True) else wait_ticks ticks t')"

lemma wait_ticks_eq:
  assumes "rt_is_running t"
    and "unat (rt_accumulate_time t) + sum_list (map unat ticks) < 2 ^ 64"
    and "unat (rt_accumulate_time t) < unat (rt_rto t)"
  shows "snd (wait_ticks ticks t) \<longleftrightarrow> unat (rt_rto t) \<le> unat (rt_accumulate_time t) + sum_list (map unat ticks)"
  using assms
proof (induction ticks arbitrary: t)
  case (Cons ms ticks)
  let ?t = "t\<lparr>rt_accumulate_time := rt_accumulate_time t + ms\<rparr>"
  have acc: "unat (rt_accumulate_time ?t) = unat (rt_accumulate_time t) + unat ms"
    using Cons.prems(2) by (simp add: unat_add_small)
  have chk: "check_timeout t ms = (?t, rt_rto t \<le> rt_accumulate_time ?t)"
    using Cons.prems(1) by (simp add: check_timeout_def Let_def)
  show ?case
  proof (cases "rt_rto t \<le> rt_accumulate_time ?t")
    case True
    then show ?thesis using acc by (simp add: chk word_le_nat_alt)
  next
    case False
    then have "unat (rt_accumulate_time ?t) < unat (rt_rto ?t)" by (simp add: word_le_nat_alt)
    with Cons.IH [of ?t] Cons.prems(1,2) False acc chk show ?thesis by (simp add: add.assoc)
  qed
qed (simp add: not_le)

section \<open>Expiry and back-off\<close>

text \<open>
  The timer fires exactly when the time since it was started reaches the timeout, however that
  time is cut into ticks; after \<open>n\<close> expiries handled in a row the timeout is the initial one times
  \<open>2^n\<close>, as long as that fits into 64 bits; and a stopped timer never fires.
\<close>

lemma timer_backoff:
  assumes "unat rto * 2 ^ n < 2 ^ 64" and "0 < unat rto" and "sum_list (map unat ticks) < 2 ^ 64"
  defines "t \<equiv> (handle_timeout ^^ n) (start_timer (RetransmissionTimer_new rto))"
  shows "unat (rt_rto t) = unat rto * 2 ^ n
    \<and> (snd (wait_ticks ticks t) \<longleftrightarrow> unat rto * 2 ^ n \<le> sum_list (map unat ticks))
    \<and> \<not> snd (wait_ticks ticks (stop_timer t))"
proof -
  have t: "unat (rt_rto t) = unat rto * 2 ^ n \<and> rt_is_running t \<and> rt_accumulate_time t = 0"
    unfolding t_def using assms(1)
  proof (induction n)
    case 0
    then show ?case by (simp add: start_timer_def RetransmissionTimer_new_def)
  next
    case (Suc n)
    let ?t = "(handle_timeout ^^ n) (start_timer (RetransmissionTimer_new rto))"
    have "unat rto * 2 ^ n < 2 ^ 64" using Suc.prems by simp
    with Suc.IH have "unat (rt_rto ?t) = unat rto * 2 ^ n" "rt_is_running ?t" by simp_all
    then show ?case
      using Suc.prems handle_timeout_fields [of ?t] by simp
  qed
  have "\<not> snd (wait_ticks ticks u)" if "\<not> rt_is_running u" for u
    using that by (induction ticks arbitrary: u) (simp_all add: check_timeout_def)
  then show ?thesis using t wait_ticks_eq [of t ticks] assms(2,3) by simp
qed

lemma timer_backoff_example:
  "unat (rt_rto ((handle_timeout ^^ 3) (start_timer (RetransmissionTimer_new 1000)))) = 8000
   \<and> snd (wait_ticks [7000, 999, 1] ((handle_timeout ^^ 3) (start_timer (RetransmissionTimer_new 1000))))"
  using timer_backoff [of 1000 3 "[7000, 999, 1]"] by simp

end
