(* ===== verification/TCP_Sender.thy ===== *)
theory TCP_Sender
  imports Stream_Segments Retransmission_Timer
begin

text \<open>
  The class \<open>TCPSender\<close> of \<open>tcp_sender.hh\<close> and \<open>tcp_sender.cc\<close>. The recursion of \<open>fill_window\<close> is
  a total function: every recursive call has sent the FIN, taken bytes from the stream, or sent the
  SYN. The queue accesses that C++ leaves undefined on an empty queue are errors of \<open>tick\<close>.
\<close>

section \<open>Definitions\<close>

definition MAX_PAYLOAD_SIZE :: u64 where
  "MAX_PAYLOAD_SIZE = 1452"

record TCPSender =
  ts_isn :: WrappingInt32
  ts_segments_out :: "TCPSegment list"
  ts_initial_retransmission_timeout :: u32
  ts_stream :: ByteStream
  ts_next_seqno :: u64
  ts_retransmission_timer :: RetransmissionTimer
  ts_receiver_ack :: u64
  ts_receiver_window_size :: u64
  ts_outstanding_segments :: "TCPSegment list"
  ts_consecutive_retransmissions :: u32
  ts_set_syn_flag :: bool
  ts_set_fin_flag :: bool

text \<open>\<open>random\<close> is the number drawn from \<open>random_device\<close>, used when no fixed number is given.\<close>

definition TCPSender_new :: "u64 \<Rightarrow> u16 \<Rightarrow> WrappingInt32 option \<Rightarrow> u32 \<Rightarrow> TCPSender" where
  "TCPSender_new capacity retx_timeout fixed_isn random =
     \<lparr>ts_isn = (case fixed_isn of Some i \<Rightarrow> i | None \<Rightarrow> WrappingInt32 random),
      ts_segments_out = [], ts_initial_retransmission_timeout = ucast retx_timeout,
      ts_stream = ByteStream_new capacity, ts_next_seqno = 0,
      ts_retransmission_timer = RetransmissionTimer_new (ucast retx_timeout),
      ts_receiver_ack = 0, ts_receiver_window_size = 1, ts_outstanding_segments = [],
      ts_consecutive_retransmissions = 0, ts_set_syn_flag = False, ts_set_fin_flag = False\<rparr>"

definition bytes_in_flight :: "TCPSender \<Rightarrow> u64" where
  "bytes_in_flight s = ts_next_seqno s - ts_receiver_ack s"

definition window_not_full :: "TCPSender \<Rightarrow> u64 \<Rightarrow> bool" where
  "window_not_full s window_size \<longleftrightarrow> bytes_in_flight s < window_size"

definition next_seqno_absolute :: "TCPSender \<Rightarrow> u64" where
  "next_seqno_absolute s = ts_next_seqno s"

definition next_seqno :: "TCPSender \<Rightarrow> WrappingInt32" where
  "next_seqno s = wrap (ts_next_seqno s) (ts_isn s)"

text \<open>Lines 64 to 66: the segment is queued, remembered as outstanding, and the timer runs.\<close>

definition send_segment :: "TCPSender \<Rightarrow> TCPSegment \<Rightarrow> TCPSender" where
  "send_segment s segment =
     s\<lparr>ts_segments_out := ts_segments_out s @ [segment],
       ts_outstanding_segments := ts_outstanding_segments s @ [segment],
       ts_retransmission_timer := start_timer (ts_retransmission_timer s)\<rparr>"

definition send_syn :: "TCPSender \<Rightarrow> TCPSender" where
  "send_syn s =
     (let segment = TCPSegment_default\<lparr>seg_header := TCPHeader_default\<lparr>th_syn := True, th_seqno := ts_isn s\<rparr>\<rparr>
      in send_segment (s\<lparr>ts_set_syn_flag := True, ts_next_seqno := ts_next_seqno s + 1\<rparr>) segment)"

text \<open>The branch that sends payload and FIN; \<open>None\<close> is the early return of line 59, with its state.\<close>

definition send_payload :: "TCPSender \<Rightarrow> u64 \<Rightarrow> TCPSender \<times> TCPSegment option" where
  "send_payload s window_size =
     (let payload_size = min (window_size - bytes_in_flight s)
            (min (ByteStream_buffer_size (ts_stream s)) MAX_PAYLOAD_SIZE);
          (stream', data) = ByteStream_read (ts_stream s) payload_size;
          header = TCPHeader_default\<lparr>th_seqno := next_seqno s\<rparr>;
          s1 = s\<lparr>ts_stream := stream', ts_next_seqno := ts_next_seqno s + payload_size\<rparr>;
          fin = ByteStream_eof (ts_stream s1) \<and> window_not_full s1 window_size;
          s2 = (if fin then s1\<lparr>ts_set_fin_flag := True, ts_next_seqno := ts_next_seqno s1 + 1\<rparr> else s1);
          segment = \<lparr>seg_header = (if fin then header\<lparr>th_fin := True\<rparr> else header),
                     seg_payload = Buffer_of_string data\<rparr>
      in if \<not> ts_set_fin_flag s2 \<and> payload_size = 0 then (s2, None) else (s2, Some segment))"

definition effective_window :: "TCPSender \<Rightarrow> u64" where
  "effective_window s = (if ts_receiver_window_size s = 0 then 1 else ts_receiver_window_size s)"

text \<open>One call without its recursive call: the new state, and whether the call recurs.\<close>

definition fill_window_step :: "TCPSender \<Rightarrow> TCPSender \<times> bool" where
  "fill_window_step s =
     (let window_size = effective_window s
      in if ts_set_fin_flag s then (s, False)
         else if ts_next_seqno s = 0
         then let s1 = send_syn s in (s1, window_not_full s1 window_size)
         else (case send_payload s window_size of
                 (s1, None) \<Rightarrow> (s1, False)
               | (s1, Some segment) \<Rightarrow>
                   let s2 = send_segment s1 segment in (s2, window_not_full s2 window_size)))"

lemma read_shrinks:
  assumes "len \<le> ByteStream_buffer_size s"
  shows "length (bs_buffer (fst (ByteStream_read s len))) = length (bs_buffer s) - unat len"
    and "unat len \<le> length (bs_buffer s)"
proof -
  show le: "unat len \<le> length (bs_buffer s)"
  proof -
    have "unat len \<le> unat (size_t (bs_buffer s))"
      using assms by (simp add: ByteStream_buffer_size_def word_le_nat_alt)
    also have "\<dots> \<le> length (bs_buffer s)" by (simp add: size_t_def unat_of_nat)
    finally show ?thesis .
  qed
  show "length (bs_buffer (fst (ByteStream_read s len))) = length (bs_buffer s) - unat len"
    using assms le
    by (simp add: ByteStream_read_def ByteStream_buffer_size_def fold_front_upt Let_def linorder_not_le [symmetric])
qed

lemma fill_window_step_decreases:
  assumes "snd (fill_window_step s)"
  defines "s' \<equiv> fst (fill_window_step s)"
  shows "\<not> ts_set_fin_flag s
    \<and> (ts_set_fin_flag s'
       \<or> length (bs_buffer (ts_stream s')) < length (bs_buffer (ts_stream s))
       \<or> length (bs_buffer (ts_stream s')) = length (bs_buffer (ts_stream s)) \<and> ts_next_seqno s = 0 \<and> ts_next_seqno s' \<noteq> 0)"
proof (cases "ts_set_fin_flag s \<or> ts_next_seqno s = 0")
  case True
  then show ?thesis
    using assms(1) by (auto simp: s'_def fill_window_step_def Let_def send_syn_def send_segment_def)
next
  case False
  define n where "n = min (effective_window s - bytes_in_flight s) (min (ByteStream_buffer_size (ts_stream s)) MAX_PAYLOAD_SIZE)"
  have "n \<le> ByteStream_buffer_size (ts_stream s)"
    unfolding n_def by (meson min.cobounded1 min.cobounded2 order.trans)
  from read_shrinks [OF this]
  have len: "length (bs_buffer (fst (ByteStream_read (ts_stream s) n))) = length (bs_buffer (ts_stream s)) - unat n"
      "unat n \<le> length (bs_buffer (ts_stream s))" by simp_all
  have "n \<noteq> 0 \<Longrightarrow> 0 < unat n" by (simp add: unat_gt_0)
  then show ?thesis
    using False assms(1) len
    by (auto simp: s'_def fill_window_step_def Let_def send_payload_def send_segment_def
        n_def [symmetric] split: prod.splits if_splits)
qed

function fill_window :: "TCPSender \<Rightarrow> TCPSender" where
  "fill_window s =
     (let (s', again) = fill_window_step s in if again then fill_window s' else s')"
  by pat_completeness auto
termination
proof (relation "measures [\<lambda>s. of_bool (\<not> ts_set_fin_flag s), \<lambda>s. length (bs_buffer (ts_stream s)),
    \<lambda>s. of_bool (ts_next_seqno s = 0)]")
  fix s x s' again
  assume "x = fill_window_step s" "(s', again) = x" again
  then have "snd (fill_window_step s)" "s' = fst (fill_window_step s)" by (metis snd_conv, metis fst_conv)
  with fill_window_step_decreases [of s]
  show "(s', s) \<in> measures [\<lambda>s. of_bool (\<not> ts_set_fin_flag s), \<lambda>s. length (bs_buffer (ts_stream s)),
      \<lambda>s. of_bool (ts_next_seqno s = 0)]"
    by auto
qed simp

declare fill_window.simps [simp del]

text \<open>The loop over the outstanding queue: the queue left, the new \<open>_receiver_ack\<close>, and whether it moved.\<close>

fun ack_loop ::
  "WrappingInt32 \<Rightarrow> u64 \<Rightarrow> u64 \<Rightarrow> TCPSegment list \<Rightarrow> u64 \<Rightarrow> bool \<Rightarrow> TCPSegment list \<times> u64 \<times> bool" where
  "ack_loop isn next abs_ackno [] ack upd = ([], ack, upd)"
| "ack_loop isn next abs_ackno (segment # queue) ack upd =
     (let abs_seqno = unwrap (th_seqno (seg_header segment)) isn next
      in if abs_seqno + length_in_sequence_space segment \<le> abs_ackno
         then ack_loop isn next abs_ackno queue (abs_seqno + length_in_sequence_space segment) True
         else (segment # queue, ack, upd))"

definition ack_received :: "TCPSender \<Rightarrow> WrappingInt32 \<Rightarrow> u16 \<Rightarrow> TCPSender" where
  "ack_received s ackno window_size =
     (let abs_ackno = unwrap ackno (ts_isn s) (ts_next_seqno s)
      in if ts_next_seqno s < abs_ackno \<or> abs_ackno < ts_receiver_ack s then s
         else let s1 = s\<lparr>ts_receiver_window_size := ucast window_size\<rparr>;
                  (queue, ack, is_ack_update) =
                    ack_loop (ts_isn s1) (ts_next_seqno s1) abs_ackno (ts_outstanding_segments s1)
                      (ts_receiver_ack s1) False;
                  s2 = s1\<lparr>ts_outstanding_segments := queue, ts_receiver_ack := ack\<rparr>;
                  s3 = (if ts_outstanding_segments s2 = []
                        then s2\<lparr>ts_retransmission_timer := stop_timer (ts_retransmission_timer s2)\<rparr> else s2)
              in if is_ack_update
                 then s3\<lparr>ts_retransmission_timer :=
                           set_accumulate_time
                             (set_timeout (ts_retransmission_timer s3)
                               (ucast (ts_initial_retransmission_timeout s3))) 0,
                         ts_consecutive_retransmissions := 0\<rparr>
                 else s3)"

definition tick :: "TCPSender \<Rightarrow> u64 \<Rightarrow> TCPSender result" where
  "tick s ms_since_last_tick =
     (let (timer1, expired) = check_timeout (ts_retransmission_timer s) ms_since_last_tick;
          s1 = s\<lparr>ts_retransmission_timer := timer1\<rparr>
      in if \<not> expired then Inr s1
         else let s2 = (if 0 < ts_receiver_window_size s1
                        then s1\<lparr>ts_retransmission_timer := handle_timeout timer1\<rparr>
                        else s1\<lparr>ts_retransmission_timer :=
                                  set_accumulate_time
                                    (set_timeout timer1 (ucast (ts_initial_retransmission_timeout s1))) 0\<rparr>);
                  s3 = s2\<lparr>ts_consecutive_retransmissions := ts_consecutive_retransmissions s2 + 1\<rparr>
              in case ts_outstanding_segments s3 of
                   [] \<Rightarrow> Inl UndefinedBehaviour
                 | segment # _ \<Rightarrow> Inr (s3\<lparr>ts_segments_out := ts_segments_out s3 @ [segment]\<rparr>))"

definition consecutive_retransmissions :: "TCPSender \<Rightarrow> u32" where
  "consecutive_retransmissions s = ts_consecutive_retransmissions s"

definition send_empty_segment :: "TCPSender \<Rightarrow> TCPSender" where
  "send_empty_segment s =
     (let segment = TCPSegment_default\<lparr>seg_header := TCPHeader_default\<lparr>th_seqno := next_seqno s\<rparr>\<rparr>
      in s\<lparr>ts_segments_out := ts_segments_out s @ [segment]\<rparr>)"

section \<open>The invariant of a sender of a given stream\<close>

text \<open>
  The stream \<open>s\<close> is what the application writes in all; \<open>snd_bytes\<close> are the bytes read from the
  input stream so far, which are the payload sent. The outstanding segments fill the sequence
  numbers from the last acknowledged one to the next one, and the timer runs while there are any.
\<close>

definition snd_bytes :: "TCPSender \<Rightarrow> nat" where
  "snd_bytes t = unat (bs_read_bytes (ts_stream t))"

definition snd_stream_inv :: "bytes \<Rightarrow> TCPSender \<Rightarrow> bool" where
  "snd_stream_inv s t \<longleftrightarrow> bs_inv (ts_stream t) \<and> length s < 2 ^ 63 - 2
     \<and> snd_bytes t + length (bs_buffer (ts_stream t)) \<le> length s
     \<and> bs_buffer (ts_stream t) = take (length (bs_buffer (ts_stream t))) (drop (snd_bytes t) s)
     \<and> (bs_end_write (ts_stream t) \<longrightarrow> snd_bytes t + length (bs_buffer (ts_stream t)) = length s)
     \<and> (ts_set_fin_flag t \<longrightarrow> bs_end_write (ts_stream t) \<and> bs_buffer (ts_stream t) = [] \<and> ts_next_seqno t \<noteq> 0)
     \<and> (if ts_next_seqno t = 0 then snd_bytes t = 0
        else unat (ts_next_seqno t) = 1 + snd_bytes t + of_bool (ts_set_fin_flag t))"

definition snd_queue_inv :: "bytes \<Rightarrow> TCPSender \<Rightarrow> bool" where
  "snd_queue_inv s t \<longleftrightarrow>
     seq_chain (ts_isn t) (unat (ts_receiver_ack t)) (ts_outstanding_segments t) (unat (ts_next_seqno t))
     \<and> (rt_is_running (ts_retransmission_timer t) \<longleftrightarrow> ts_outstanding_segments t \<noteq> [])
     \<and> carried (ts_isn t) s (unat (ts_receiver_ack t)) (ts_outstanding_segments t)
     \<and> list_all (stream_segment (ts_isn t) s) (ts_segments_out t)"

definition snd_inv :: "bytes \<Rightarrow> TCPSender \<Rightarrow> bool" where
  "snd_inv s t \<longleftrightarrow> snd_stream_inv s t \<and> snd_queue_inv s t"

lemma snd_inv_new:
  assumes "length s < 2 ^ 63 - 2"
  shows "snd_inv s (TCPSender_new capacity retx_timeout fixed_isn random)"
  using assms
  by (simp add: snd_inv_def snd_stream_inv_def snd_queue_inv_def snd_bytes_def TCPSender_new_def
      ByteStream_new_def bs_inv_def RetransmissionTimer_new_def)

lemma snd_stream_inv_cong:
  "ts_stream t' = ts_stream t \<Longrightarrow> ts_set_fin_flag t' = ts_set_fin_flag t \<Longrightarrow> ts_next_seqno t' = ts_next_seqno t \<Longrightarrow>
   snd_stream_inv s t' = snd_stream_inv s t"
  by (simp add: snd_stream_inv_def snd_bytes_def)

lemma snd_next_bound: "snd_stream_inv s t \<Longrightarrow> unat (ts_next_seqno t) \<le> length s + 2"
  by (auto simp: snd_stream_inv_def split: if_splits)

lemma snd_next_small: "snd_stream_inv s t \<Longrightarrow> unat (ts_next_seqno t) < 2 ^ 63"
proof -
  assume inv: "snd_stream_inv s t"
  then have "length s < 2 ^ 63 - 2" by (simp add: snd_stream_inv_def)
  with snd_next_bound [OF inv] show ?thesis by simp
qed

lemma word_of_unat [simp]: "(word_of_nat (unat x) :: u64) = x"
  by (simp add: of_nat_unat)

text \<open>Queueing a new segment at the end of the chain.\<close>

lemma send_segment_queue:
  assumes inv: "snd_inv s t" and "0 < seg_len seg" and "unat next' = unat (ts_next_seqno t) + seg_len seg"
    and seg: "carries (ts_isn t) s (ts_next_seqno t) seg"
    and t': "ts_outstanding_segments t' = ts_outstanding_segments t" "ts_segments_out t' = ts_segments_out t"
      "ts_isn t' = ts_isn t" "ts_receiver_ack t' = ts_receiver_ack t" "ts_next_seqno t' = next'"
  shows "snd_queue_inv s (send_segment t' seg)"
proof -
  have q: "snd_queue_inv s t" and sent: "stream_segment (ts_isn t) s seg"
    using inv seg snd_next_bound by (auto simp: snd_inv_def stream_segment_def)
  have "unat (ts_receiver_ack t) + sum_list (map seg_len (ts_outstanding_segments t)) = unat (ts_next_seqno t)"
    using q seq_chain_sum by (auto simp: snd_queue_inv_def)
  then have "carried (ts_isn t) s (unat (ts_receiver_ack t)) (ts_outstanding_segments t @ [seg])"
    using q seg by (simp add: snd_queue_inv_def carried_append del: of_nat_add)
  with q sent show ?thesis
    using assms by (auto simp: snd_queue_inv_def send_segment_def seq_chain_append carries_def)
qed

lemma send_syn_inv:
  assumes inv: "snd_inv s t" and "ts_next_seqno t = 0" and "\<not> ts_set_fin_flag t"
  shows "snd_inv s (send_syn t)"
proof -
  let ?seg = "TCPSegment_default\<lparr>seg_header := TCPHeader_default\<lparr>th_syn := True, th_seqno := ts_isn t\<rparr>\<rparr>"
  have len: "seg_len ?seg = 1"
    by (simp add: seg_len_def length_in_sequence_space_def TCPSegment_default_def TCPHeader_default_def)
  have gen: "carries (ts_isn t) s (ts_next_seqno t) ?seg"
    by (simp add: carries_def assms(2) wrap_zero pay_index_def excerpt_def TCPSegment_default_def TCPHeader_default_def)
  have "snd_queue_inv s (send_syn t)"
    unfolding send_syn_def Let_def
    by (rule send_segment_queue [where next' = 1, OF inv _ _ gen]) (use assms(2) len in simp_all)
  moreover have "snd_stream_inv s (send_syn t)"
    using inv assms(2,3)
    by (auto simp: snd_inv_def snd_stream_inv_def send_syn_def send_segment_def snd_bytes_def Let_def)
  ultimately show ?thesis by (simp add: snd_inv_def)
qed

section \<open>Filling the window\<close>

definition payload_size :: "TCPSender \<Rightarrow> u64 \<Rightarrow> u64" where
  "payload_size t w = min (w - bytes_in_flight t) (min (ByteStream_buffer_size (ts_stream t)) MAX_PAYLOAD_SIZE)"

definition sends_fin :: "TCPSender \<Rightarrow> u64 \<Rightarrow> bool" where
  "sends_fin t w \<longleftrightarrow> bs_end_write (ts_stream t)
     \<and> unat (payload_size t w) = length (bs_buffer (ts_stream t))
     \<and> bytes_in_flight t + payload_size t w < w"

definition data_segment :: "TCPSender \<Rightarrow> u64 \<Rightarrow> TCPSegment" where
  "data_segment t w =
     \<lparr>seg_header = TCPHeader_default\<lparr>th_seqno := next_seqno t, th_fin := sends_fin t w\<rparr>,
      seg_payload = Buffer_of_string (take (unat (payload_size t w)) (bs_buffer (ts_stream t)))\<rparr>"

definition after_payload :: "TCPSender \<Rightarrow> u64 \<Rightarrow> TCPSender" where
  "after_payload t w =
     t\<lparr>ts_stream := (ts_stream t)\<lparr>bs_buffer := drop (unat (payload_size t w)) (bs_buffer (ts_stream t)),
                       bs_read_bytes := bs_read_bytes (ts_stream t) + payload_size t w\<rparr>,
       ts_next_seqno := ts_next_seqno t + payload_size t w + of_bool (sends_fin t w),
       ts_set_fin_flag := sends_fin t w\<rparr>"

lemma payload_size_nat:
  assumes "bs_inv (ts_stream t)"
  shows "unat (payload_size t w) =
    min (unat (w - bytes_in_flight t)) (min (length (bs_buffer (ts_stream t))) 1452)"
  unfolding payload_size_def unat_min ByteStream_buffer_size_def unat_size_t [OF bs_inv_length [OF assms]]
  by (simp add: MAX_PAYLOAD_SIZE_def)

lemma payload_size_le:
  assumes "bs_inv (ts_stream t)"
  shows "unat (payload_size t w) \<le> length (bs_buffer (ts_stream t))"
    and "unat (payload_size t w) \<le> 1452"
    and "unat (payload_size t w) \<le> unat (w - bytes_in_flight t)"
  using payload_size_nat [OF assms, of w] by linarith+

lemma send_payload_eq:
  assumes inv: "bs_inv (ts_stream t)" and fin: "\<not> ts_set_fin_flag t"
  shows "send_payload t w =
    (after_payload t w,
     if \<not> sends_fin t w \<and> payload_size t w = 0 then None else Some (data_segment t w))"
proof -
  let ?n = "payload_size t w"
  note le = payload_size_le(1) [OF inv, of w]
  have read: "ByteStream_read (ts_stream t) ?n =
      ((ts_stream t)\<lparr>bs_buffer := drop (unat ?n) (bs_buffer (ts_stream t)),
         bs_read_bytes := bs_read_bytes (ts_stream t) + ?n\<rparr>, take (unat ?n) (bs_buffer (ts_stream t)))"
    using le by (simp add: read_eq [OF inv])
  let ?st = "(ts_stream t)\<lparr>bs_buffer := drop (unat ?n) (bs_buffer (ts_stream t)),
      bs_read_bytes := bs_read_bytes (ts_stream t) + ?n\<rparr>"
  let ?t1 = "t\<lparr>ts_stream := ?st, ts_next_seqno := ts_next_seqno t + ?n\<rparr>"
  have "ByteStream_eof (ts_stream ?t1)
      \<longleftrightarrow> bs_end_write (ts_stream t) \<and> unat ?n = length (bs_buffer (ts_stream t))"
    using le by (auto simp: ByteStream_eof_def)
  moreover have "window_not_full ?t1 w \<longleftrightarrow> bytes_in_flight t + ?n < w"
    by (simp add: window_not_full_def bytes_in_flight_def algebra_simps)
  ultimately have fin_eq: "(ByteStream_eof (ts_stream ?t1) \<and> window_not_full ?t1 w) = sends_fin t w"
    unfolding sends_fin_def by blast
  have hdr: "TCPHeader_default\<lparr>th_seqno := x, th_fin := False\<rparr> = TCPHeader_default\<lparr>th_seqno := x\<rparr>" for x
    by (simp add: TCPHeader_default_def)
  show ?thesis
    unfolding send_payload_def payload_size_def [symmetric] read prod.case Let_def fin_eq
    using fin by (cases "sends_fin t w") (simp_all add: after_payload_def data_segment_def hdr)
qed

lemma data_segment_fields:
  fixes w :: u64
  assumes "snd_stream_inv s t"
  defines "n \<equiv> unat (payload_size t w)"
  shows "seg_len (data_segment t w) = n + of_bool (sends_fin t w)"
    and "Buffer_str (seg_payload (data_segment t w)) = take n (drop (snd_bytes t) s)"
    and "n \<le> length (bs_buffer (ts_stream t))"
    and "length (Buffer_str (seg_payload (data_segment t w))) = n"
proof -
  have inv: "bs_inv (ts_stream t)" and s: "length s < 2 ^ 63 - 2"
    and buf: "bs_buffer (ts_stream t) = take (length (bs_buffer (ts_stream t))) (drop (snd_bytes t) s)"
    and len: "snd_bytes t + length (bs_buffer (ts_stream t)) \<le> length s"
    using assms(1) by (auto simp: snd_stream_inv_def)
  show n: "n \<le> length (bs_buffer (ts_stream t))" unfolding n_def by (rule payload_size_le [OF inv])
  have small: "length (take n (bs_buffer (ts_stream t))) < 2 ^ 64"
    using n len s by simp
  then have str: "Buffer_str (seg_payload (data_segment t w)) = take n (bs_buffer (ts_stream t))"
    by (simp add: data_segment_def n_def)
  then show "Buffer_str (seg_payload (data_segment t w)) = take n (drop (snd_bytes t) s)"
    using buf n by (metis min.absorb1 take_take)
  show "length (Buffer_str (seg_payload (data_segment t w))) = n" using n by (simp add: str)
  have "n < 2 ^ 63" using n len s by simp
  then show "seg_len (data_segment t w) = n + of_bool (sends_fin t w)"
    using n
    by (simp add: seg_len_def length_in_sequence_space_def str)
      (simp add: data_segment_def TCPHeader_default_def size_t_def unat_of_nat_small unat_add_small)
qed

lemma data_segment_carries:
  assumes inv: "snd_stream_inv s t" and "ts_next_seqno t \<noteq> 0" and "\<not> ts_set_fin_flag t"
  shows "carries (ts_isn t) s (ts_next_seqno t) (data_segment t w)"
proof -
  let ?x = "ts_next_seqno t"
  have x: "unat ?x = 1 + snd_bytes t"
    and len: "snd_bytes t + length (bs_buffer (ts_stream t)) \<le> length s"
    and fin: "bs_end_write (ts_stream t) \<longrightarrow> snd_bytes t + length (bs_buffer (ts_stream t)) = length s"
    using inv assms(2,3) by (simp_all add: snd_stream_inv_def)
  have ix: "unat (?x - 1) = snd_bytes t" using x by (simp add: unat_sub word_le_nat_alt)
  have "excerpt s (Buffer_str (seg_payload (data_segment t w))) (?x - 1) (sends_fin t w)"
    using data_segment_fields(2-4) [OF inv, of w] len fin by (auto simp: excerpt_def ix sends_fin_def)
  then show ?thesis
    by (simp add: carries_def pay_index_def) (simp add: data_segment_def TCPHeader_default_def next_seqno_def)
qed

lemma after_payload_stream:
  assumes inv: "snd_stream_inv s t" and "ts_next_seqno t \<noteq> 0" and fin: "\<not> ts_set_fin_flag t"
  shows "snd_stream_inv s (after_payload t w)"
    and "unat (ts_next_seqno (after_payload t w)) = unat (ts_next_seqno t) + seg_len (data_segment t w)"
proof -
  let ?n = "unat (payload_size t w)" and ?b = "bs_buffer (ts_stream t)"
  have st: "bs_inv (ts_stream t)" and x: "unat (ts_next_seqno t) = 1 + snd_bytes t" and s: "length s < 2 ^ 63 - 2"
    and len: "snd_bytes t + length ?b \<le> length s" and buf: "?b = take (length ?b) (drop (snd_bytes t) s)"
    and ew: "bs_end_write (ts_stream t) \<longrightarrow> snd_bytes t + length ?b = length s"
    using inv assms(2,3) by (simp_all add: snd_stream_inv_def)
  note n = payload_size_le(1) [OF st, of w]
  have rd: "unat (bs_read_bytes (ts_stream t) + payload_size t w) = snd_bytes t + ?n"
    using len s n by (simp add: snd_bytes_def unat_add_small)
  have "unat (ts_next_seqno t + payload_size t w) = 1 + snd_bytes t + ?n"
    using x len s n by (simp add: unat_add_small)
  then have nx: "unat (ts_next_seqno t + payload_size t w + of_bool (sends_fin t w))
      = 1 + snd_bytes t + ?n + of_bool (sends_fin t w)"
    using len s n by (simp add: unat_add_small)
  then show "unat (ts_next_seqno (after_payload t w)) = unat (ts_next_seqno t) + seg_len (data_segment t w)"
    using data_segment_fields(1) [OF inv, of w] x by (simp add: after_payload_def)
  have st': "bs_inv (ts_stream (after_payload t w))"
    using bs_inv_read [OF st, of "payload_size t w"] n by (simp add: read_eq [OF st] after_payload_def)
  have "drop ?n ?b = take (length ?b - ?n) (drop (snd_bytes t + ?n) s)"
    by (subst buf) (simp add: drop_take add.commute)
  moreover have "ts_next_seqno (after_payload t w) \<noteq> 0"
    using nx by (auto simp: after_payload_def)
  ultimately show "snd_stream_inv s (after_payload t w)"
    using st' s n len ew nx rd
    by (auto simp: snd_stream_inv_def after_payload_def snd_bytes_def sends_fin_def)
qed

lemma after_payload_queue_fields [simp]:
  "ts_outstanding_segments (after_payload t w) = ts_outstanding_segments t"
  "ts_segments_out (after_payload t w) = ts_segments_out t"
  "ts_isn (after_payload t w) = ts_isn t" "ts_receiver_ack (after_payload t w) = ts_receiver_ack t"
  "ts_receiver_window_size (after_payload t w) = ts_receiver_window_size t"
  "ts_retransmission_timer (after_payload t w) = ts_retransmission_timer t"
  by (simp_all add: after_payload_def)

lemma send_segment_fields [simp]:
  "ts_stream (send_segment t seg) = ts_stream t" "ts_next_seqno (send_segment t seg) = ts_next_seqno t"
  "ts_isn (send_segment t seg) = ts_isn t" "ts_receiver_ack (send_segment t seg) = ts_receiver_ack t"
  "ts_receiver_window_size (send_segment t seg) = ts_receiver_window_size t"
  "ts_set_fin_flag (send_segment t seg) = ts_set_fin_flag t"
  by (simp_all add: send_segment_def)

lemma send_segment_stream [simp]: "snd_stream_inv s (send_segment t seg) = snd_stream_inv s t"
  by (simp add: snd_stream_inv_def snd_bytes_def)

text \<open>One call: the three outcomes.\<close>

lemma fill_window_step_cases:
  assumes inv: "snd_inv s t"
  shows "ts_set_fin_flag t \<and> fill_window_step t = (t, False)
    \<or> \<not> ts_set_fin_flag t \<and> ts_next_seqno t = 0
      \<and> fill_window_step t = (send_syn t, window_not_full (send_syn t) (effective_window t))
    \<or> \<not> ts_set_fin_flag t \<and> ts_next_seqno t \<noteq> 0
      \<and> (let w = effective_window t; t1 = after_payload t w; t2 = send_segment t1 (data_segment t w)
         in fill_window_step t =
            (if \<not> sends_fin t w \<and> payload_size t w = 0 then (t1, False) else (t2, window_not_full t2 w)))"
proof -
  have st: "bs_inv (ts_stream t)" using inv by (simp add: snd_inv_def snd_stream_inv_def)
  show ?thesis
    using send_payload_eq [OF st] by (auto simp: fill_window_step_def Let_def)
qed

lemma fill_window_step_elim:
  fixes t :: TCPSender
  assumes inv: "snd_inv s t"
  defines "w \<equiv> effective_window t"
  obtains (closed) "ts_set_fin_flag t" "fill_window_step t = (t, False)"
    | (syn) "\<not> ts_set_fin_flag t" "ts_next_seqno t = 0"
        "fill_window_step t = (send_syn t, window_not_full (send_syn t) w)"
    | (sent) "\<not> ts_set_fin_flag t" "ts_next_seqno t \<noteq> 0" "sends_fin t w \<or> payload_size t w \<noteq> 0"
        "fill_window_step t = (send_segment (after_payload t w) (data_segment t w),
           window_not_full (send_segment (after_payload t w) (data_segment t w)) w)"
    | (idle) "\<not> ts_set_fin_flag t" "ts_next_seqno t \<noteq> 0" "\<not> sends_fin t w" "payload_size t w = 0"
        "fill_window_step t = (after_payload t w, False)"
  using fill_window_step_cases [OF inv] unfolding Let_def w_def [symmetric]
  by (elim disjE conjE) (auto split: if_splits)

lemma fill_window_step_inv:
  assumes inv: "snd_inv s t"
  shows "snd_inv s (fst (fill_window_step t))"
proof -
  let ?w = "effective_window t"
  let ?t1 = "after_payload t ?w" and ?seg = "data_segment t ?w"
  have stream: "snd_stream_inv s t" and queue: "snd_queue_inv s t" using inv by (simp_all add: snd_inv_def)
  from inv show ?thesis
  proof (cases rule: fill_window_step_elim)
    case closed
    with inv show ?thesis by simp
  next
    case syn
    with send_syn_inv [OF inv] show ?thesis by simp
  next
    case sent
    note after = after_payload_stream [OF stream sent(2,1), of ?w]
    have "0 < seg_len ?seg" using data_segment_fields(1) [OF stream, of ?w] sent(3) by (auto simp: unat_gt_0)
    then have "snd_queue_inv s (send_segment ?t1 ?seg)"
      using send_segment_queue [OF inv _ after(2) data_segment_carries [OF stream sent(2,1)]] by simp
    with after(1) sent(4) show ?thesis by (simp add: snd_inv_def)
  next
    case idle
    note after = after_payload_stream [OF stream idle(2,1), of ?w]
    have "seg_len ?seg = 0" using data_segment_fields(1) [OF stream, of ?w] idle(3,4) by simp
    then have "unat (ts_next_seqno ?t1) = unat (ts_next_seqno t)" using after(2) by simp
    then have "snd_queue_inv s ?t1" using queue by (simp add: snd_queue_inv_def)
    with after(1) idle(5) show ?thesis by (simp add: snd_inv_def)
  qed
qed

lemma fill_window_inv: "snd_inv s t \<Longrightarrow> snd_inv s (fill_window t)"
proof (induction t rule: fill_window.induct)
  case (1 t)
  show ?case
    using 1 fill_window_step_inv [OF 1(2)]
    by (subst fill_window.simps) (auto simp: Let_def split: prod.splits)
qed

text \<open>The sequence numbers in flight, and the segments that occupy them.\<close>

definition in_flight :: "TCPSender \<Rightarrow> nat" where
  "in_flight t = sum_list (map seg_len (ts_outstanding_segments t))"

lemma bytes_in_flight_eq:
  assumes "snd_inv s t"
  shows "unat (bytes_in_flight t) = in_flight t"
    and "unat (ts_next_seqno t) = unat (ts_receiver_ack t) + in_flight t"
proof -
  show eq: "unat (ts_next_seqno t) = unat (ts_receiver_ack t) + in_flight t"
    using assms seq_chain_sum by (auto simp: snd_inv_def snd_queue_inv_def in_flight_def)
  then have "ts_receiver_ack t \<le> ts_next_seqno t" by (simp add: word_le_nat_alt)
  then show "unat (bytes_in_flight t) = in_flight t" by (simp add: bytes_in_flight_def unat_sub eq)
qed

lemma outstanding_sent:
  assumes inv: "snd_inv s t" and "seg \<in> set (ts_outstanding_segments t)"
  shows "\<exists>x. carries (ts_isn t) s x seg \<and> unat x + seg_len seg \<le> unat (ts_next_seqno t)"
proof -
  have "unat (ts_next_seqno t) < 2 ^ 64" by simp
  moreover have "carried (ts_isn t) s (unat (ts_receiver_ack t)) (ts_outstanding_segments t)"
    using inv by (simp add: snd_inv_def snd_queue_inv_def)
  ultimately show ?thesis
    using carried_member [OF _ _ assms(2)] bytes_in_flight_eq(2) [OF inv] by (simp add: in_flight_def)
qed

lemma outstanding_segments:
  assumes "snd_inv s t"
  shows "list_all (stream_segment (ts_isn t) s) (ts_outstanding_segments t)"
proof -
  have le: "unat (ts_next_seqno t) \<le> length s + 2" using snd_next_bound [of s t] assms by (simp add: snd_inv_def)
  have "stream_segment (ts_isn t) s seg" if "seg \<in> set (ts_outstanding_segments t)" for seg
  proof -
    obtain x where "carries (ts_isn t) s x seg" "unat x + seg_len seg \<le> unat (ts_next_seqno t)"
      using outstanding_sent [OF assms \<open>seg \<in> _\<close>] by blast
    with le show ?thesis unfolding stream_segment_def by (intro exI [of _ x]) simp
  qed
  then show ?thesis by (simp add: list_all_iff)
qed

section \<open>Acknowledgements\<close>

text \<open>The loop takes off exactly the segments that the acknowledgement number covers entirely.\<close>

lemma ack_loop_ok:
  assumes "seq_chain isn a queue (unat next)" and "unat next \<le> a + 2 ^ 31" and nx: "unat next < 2 ^ 63"
  shows "\<exists>acked rest a'. queue = acked @ rest
    \<and> ack_loop isn next ackno queue (word_of_nat a) upd = (rest, word_of_nat a', upd \<or> acked \<noteq> [])
    \<and> seq_chain isn a acked a' \<and> seq_chain isn a' rest (unat next)
    \<and> (acked \<noteq> [] \<longrightarrow> a' \<le> unat ackno)
    \<and> (rest \<noteq> [] \<longrightarrow> unat ackno < a' + seg_len (hd rest))"
  using assms(1,2)
proof (induction queue arbitrary: a upd)
  case Nil
  then show ?case by simp
next
  case (Cons seg queue)
  let ?b = "a + seg_len seg"
  have chain: "seq_chain isn ?b queue (unat next)" and seqno: "th_seqno (seg_header seg) = wrap (word_of_nat a) isn"
    using Cons.prems by simp_all
  have b: "?b \<le> unat next" using seq_chain_le [OF chain] .
  then have a: "unat (word_of_nat a :: u64) = a" using nx by (simp add: unat_of_nat_small)
  then have "near_seq (word_of_nat a) next" using b nx Cons.prems(2) by (simp add: near_seq_def)
  then have dec: "unwrap (th_seqno (seg_header seg)) isn next = word_of_nat a"
    unfolding seqno by (rule wi.dec_enc)
  have sum: "word_of_nat a + length_in_sequence_space seg = word_of_nat ?b"
    by (simp add: seg_len_def)
  have ub: "unat (word_of_nat ?b :: u64) = ?b" by (rule unat_of_nat_small) (use b nx in simp)
  have step: "ack_loop isn next ackno (seg # queue) (word_of_nat a) upd =
      (if ?b \<le> unat ackno then ack_loop isn next ackno queue (word_of_nat ?b) True
       else (seg # queue, word_of_nat a, upd))"
    by (simp add: Let_def dec sum word_le_nat_alt ub del: of_nat_add)
  show ?case
  proof (cases "?b \<le> unat ackno")
    case True
    obtain acked rest a' where IH: "queue = acked @ rest"
        "ack_loop isn next ackno queue (word_of_nat ?b) True = (rest, word_of_nat a', True)"
        "seq_chain isn ?b acked a'" "seq_chain isn a' rest (unat next)"
        "acked \<noteq> [] \<longrightarrow> a' \<le> unat ackno" "rest \<noteq> [] \<longrightarrow> unat ackno < a' + seg_len (hd rest)"
      using Cons.IH [OF chain, of True] Cons.prems(2) by auto
    have "a' \<le> unat ackno" using IH(3,5) True by (cases acked) auto
    with IH Cons.prems True step show ?thesis
      by - (rule exI [of _ "seg # acked"], rule exI [of _ rest], rule exI [of _ a'],
        simp del: ack_loop.simps of_nat_add)
  next
    case False
    with Cons.prems step show ?thesis
      by - (rule exI [of _ "[]"], rule exI [of _ "seg # queue"], rule exI [of _ a],
        simp del: ack_loop.simps of_nat_add)
  qed
qed

text \<open>What an acknowledgement changes: \<open>acked\<close> are the segments it takes off the queue.\<close>

lemma ack_received_cases:
  fixes ackno :: WrappingInt32
  assumes inv: "snd_inv s t" and flight: "unat (bytes_in_flight t) \<le> 2 ^ 31"
  defines "a \<equiv> unwrap ackno (ts_isn t) (ts_next_seqno t)"
  shows "(ts_next_seqno t < a \<or> a < ts_receiver_ack t) \<and> ack_received t ackno win = t
    \<or> \<not> (ts_next_seqno t < a \<or> a < ts_receiver_ack t) \<and>
      (\<exists>acked rest ack' timer' count'.
        ts_outstanding_segments t = acked @ rest
        \<and> ack_received t ackno win = t\<lparr>ts_receiver_window_size := ucast win, ts_outstanding_segments := rest,
             ts_receiver_ack := ack', ts_retransmission_timer := timer', ts_consecutive_retransmissions := count'\<rparr>
        \<and> seq_chain (ts_isn t) (unat (ts_receiver_ack t)) acked (unat ack')
        \<and> seq_chain (ts_isn t) (unat ack') rest (unat (ts_next_seqno t))
        \<and> unat ack' \<le> unat a \<and> (rest \<noteq> [] \<longrightarrow> unat a < unat ack' + seg_len (hd rest))
        \<and> rt_is_running timer' = (rest \<noteq> [])
        \<and> (if acked = [] then timer' = ts_retransmission_timer t \<and> count' = ts_consecutive_retransmissions t
           else rt_rto timer' = ucast (ts_initial_retransmission_timeout t) \<and> rt_accumulate_time timer' = 0 \<and> count' = 0))"
proof -
  have chain: "seq_chain (ts_isn t) (unat (ts_receiver_ack t)) (ts_outstanding_segments t) (unat (ts_next_seqno t))"
    and timer: "rt_is_running (ts_retransmission_timer t) \<longleftrightarrow> ts_outstanding_segments t \<noteq> []"
    and small: "unat (ts_next_seqno t) < 2 ^ 63"
    using inv snd_next_small [of s t] by (simp_all add: snd_inv_def snd_queue_inv_def)
  have near: "unat (ts_next_seqno t) \<le> unat (ts_receiver_ack t) + 2 ^ 31"
    using flight bytes_in_flight_eq [OF inv] by simp
  show ?thesis
  proof (cases "ts_next_seqno t < a \<or> a < ts_receiver_ack t")
    case True
    then show ?thesis by (simp add: ack_received_def Let_def a_def)
  next
    case False
    obtain acked rest a' where queue: "ts_outstanding_segments t = acked @ rest"
        and loop: "ack_loop (ts_isn t) (ts_next_seqno t) a (ts_outstanding_segments t) (ts_receiver_ack t) False
            = (rest, word_of_nat a', acked \<noteq> [])"
        and chains: "seq_chain (ts_isn t) (unat (ts_receiver_ack t)) acked a'"
            "seq_chain (ts_isn t) a' rest (unat (ts_next_seqno t))"
        and bounds: "acked \<noteq> [] \<longrightarrow> a' \<le> unat a" "rest \<noteq> [] \<longrightarrow> unat a < a' + seg_len (hd rest)"
      using ack_loop_ok [OF chain near small, of a False] unfolding word_of_unat simp_thms by blast
    define ack' :: u64 where "ack' = word_of_nat a'"
    have a': "unat ack' = a'"
      using seq_chain_le [OF chains(2)] small by (simp add: ack'_def unat_of_nat_small)
    have le: "a' \<le> unat a"
      using bounds(1) False chains(1) by (cases "acked = []") (auto simp: word_less_nat_alt)
    define t' where "t' = (if rest = [] then stop_timer (ts_retransmission_timer t) else ts_retransmission_timer t)"
    define t'' where "t'' = (if acked = [] then t'
        else set_accumulate_time (set_timeout t' (ucast (ts_initial_retransmission_timeout t))) 0)"
    define n where "n = (if acked = [] then ts_consecutive_retransmissions t else 0)"
    have running: "rt_is_running t'' = (rest \<noteq> [])"
      using timer by (auto simp: t''_def t'_def queue)
    have timer': "if acked = [] then t'' = ts_retransmission_timer t \<and> n = ts_consecutive_retransmissions t
        else rt_rto t'' = ucast (ts_initial_retransmission_timeout t) \<and> rt_accumulate_time t'' = 0 \<and> n = 0"
      using timer by (auto simp: t''_def t'_def n_def queue timer_defs)
    have "ack_received t ackno win = t\<lparr>ts_receiver_window_size := ucast win, ts_outstanding_segments := rest,
        ts_receiver_ack := ack', ts_retransmission_timer := t'', ts_consecutive_retransmissions := n\<rparr>"
      using False loop unfolding ack_received_def a_def [symmetric] Let_def
      by (simp add: ack'_def t''_def t'_def n_def)
    with False queue chains bounds(2) a' le running timer' show ?thesis by blast
  qed
qed

lemma ack_received_inv:
  assumes "snd_inv s t" and "unat (bytes_in_flight t) \<le> 2 ^ 31"
  shows "snd_inv s (ack_received t ackno win)"
proof -
  have "snd_stream_inv s (ack_received t ackno win) = snd_stream_inv s t"
    by (rule snd_stream_inv_cong) (use ack_received_cases [OF assms, of ackno win] in auto)
  then show ?thesis
    using ack_received_cases [OF assms, of ackno win] assms seq_chain_sum
    by (fastforce simp: snd_inv_def snd_queue_inv_def carried_append)
qed

section \<open>The timer and the other operations\<close>

text \<open>
  A tick never finds the queue empty: the timer runs only while segments are outstanding. On expiry
  the oldest outstanding segment is sent again.
\<close>

lemma tick_eq:
  assumes inv: "snd_inv s t"
  shows "\<exists>timer'. rt_is_running timer' = rt_is_running (ts_retransmission_timer t) \<and>
    (if snd (check_timeout (ts_retransmission_timer t) ms)
     then ts_outstanding_segments t \<noteq> []
       \<and> tick t ms = Inr (t\<lparr>ts_retransmission_timer := timer',
            ts_consecutive_retransmissions := ts_consecutive_retransmissions t + 1,
            ts_segments_out := ts_segments_out t @ [hd (ts_outstanding_segments t)]\<rparr>)
       \<and> rt_accumulate_time timer' = 0
       \<and> rt_rto timer' = (if 0 < ts_receiver_window_size t then rt_rto (ts_retransmission_timer t) * 2
                          else ucast (ts_initial_retransmission_timeout t))
     else timer' = fst (check_timeout (ts_retransmission_timer t) ms)
       \<and> tick t ms = Inr (t\<lparr>ts_retransmission_timer := timer'\<rparr>))"
proof -
  obtain t1 expired where chk: "check_timeout (ts_retransmission_timer t) ms = (t1, expired)" by fastforce
  have run1: "rt_is_running t1 = rt_is_running (ts_retransmission_timer t)"
    and rto1: "rt_rto t1 = rt_rto (ts_retransmission_timer t)"
    using chk timer_running(6) [of "ts_retransmission_timer t" ms]
    by (auto simp: check_timeout_def Let_def split: if_splits)
  show ?thesis
  proof (cases expired)
    case True
    have "ts_outstanding_segments t \<noteq> []"
      using check_timeout_running [of "ts_retransmission_timer t" ms] chk True inv
      by (simp add: snd_inv_def snd_queue_inv_def)
    then obtain seg queue where "ts_outstanding_segments t = seg # queue" by (cases "ts_outstanding_segments t") auto
    with True chk run1 rto1 show ?thesis
      by (intro exI [of _ "if 0 < ts_receiver_window_size t then handle_timeout t1
           else set_accumulate_time (set_timeout t1 (ucast (ts_initial_retransmission_timeout t))) 0"])
        (auto simp: tick_def Let_def timer_defs)
  next
    case False
    with chk run1 show ?thesis by (auto simp: tick_def Let_def)
  qed
qed

lemma tick_inv:
  assumes "snd_inv s t"
  shows "\<exists>t'. tick t ms = Inr t' \<and> snd_inv s t' \<and> ts_isn t' = ts_isn t
    \<and> ts_receiver_ack t' = ts_receiver_ack t \<and> ts_next_seqno t' = ts_next_seqno t
    \<and> ts_stream t' = ts_stream t \<and> ts_set_fin_flag t' = ts_set_fin_flag t
    \<and> ts_outstanding_segments t' = ts_outstanding_segments t"
proof -
  have "ts_outstanding_segments t \<noteq> [] \<Longrightarrow> stream_segment (ts_isn t) s (hd (ts_outstanding_segments t))"
    using outstanding_segments [OF assms] by (cases "ts_outstanding_segments t") simp_all
  then show ?thesis
    using tick_eq [OF assms, of ms] assms
      snd_stream_inv_cong [of "t\<lparr>ts_retransmission_timer := x, ts_consecutive_retransmissions := n, ts_segments_out := q\<rparr>" t s for x n q]
      snd_stream_inv_cong [of "t\<lparr>ts_retransmission_timer := x\<rparr>" t s for x]
    by (auto simp: snd_inv_def snd_queue_inv_def split: if_splits)
qed

lemma send_empty_segment_inv:
  assumes inv: "snd_inv s t"
  shows "snd_inv s (send_empty_segment t)"
proof -
  have stream: "snd_stream_inv s t" using inv by (simp add: snd_inv_def)
  have "stream_segment (ts_isn t) s (TCPSegment_default\<lparr>seg_header := TCPHeader_default\<lparr>th_seqno := next_seqno t\<rparr>\<rparr>)"
    unfolding stream_segment_def using snd_next_bound [OF stream]
    by (intro exI [of _ "ts_next_seqno t"])
      (simp add: carries_def next_seqno_def pay_index_def excerpt_def TCPSegment_default_def TCPHeader_default_def)
  moreover have "snd_stream_inv s (send_empty_segment t) = snd_stream_inv s t"
    by (rule snd_stream_inv_cong) (simp_all add: send_empty_segment_def Let_def)
  ultimately show ?thesis
    using inv by (simp add: send_empty_segment_def snd_inv_def snd_queue_inv_def Let_def)
qed

text \<open>The application's side, through \<open>stream_in()\<close>: the next bytes of \<open>s\<close>, then the end.\<close>

definition stream_in_write :: "TCPSender \<Rightarrow> bytes \<Rightarrow> TCPSender" where
  "stream_in_write t d = t\<lparr>ts_stream := fst (ByteStream_write (ts_stream t) d)\<rparr>"

definition stream_in_end :: "TCPSender \<Rightarrow> TCPSender" where
  "stream_in_end t = t\<lparr>ts_stream := ByteStream_end_input (ts_stream t)\<rparr>"

definition snd_accepted :: "TCPSender \<Rightarrow> nat" where
  "snd_accepted t = snd_bytes t + length (bs_buffer (ts_stream t))"

lemma stream_in_write_inv:
  assumes inv: "snd_inv s t" and d: "d = take (length d) (drop (snd_accepted t) s)"
    and "\<not> bs_end_write (ts_stream t)"
  shows "snd_inv s (stream_in_write t d)"
proof -
  let ?st = "ts_stream t" and ?n = "min (bs_room (ts_stream t)) (length d)"
  have stream: "bs_inv ?st" "length s < 2 ^ 63 - 2" "snd_accepted t \<le> length s"
      "bs_buffer ?st = take (length (bs_buffer ?st)) (drop (snd_bytes t) s)" "\<not> ts_set_fin_flag t"
    using inv assms(3) by (auto simp: snd_inv_def snd_stream_inv_def snd_accepted_def)
  have len: "snd_accepted t + length d \<le> length s"
  proof -
    have "length d \<le> length (drop (snd_accepted t) s)" by (subst d) simp
    with stream(3) show ?thesis by simp
  qed
  then have d64: "length d < 2 ^ 64" using stream(2) by simp
  have buf: "bs_buffer (fst (ByteStream_write ?st d)) = bs_buffer ?st @ take ?n d"
    by (rule bs.put_held [OF stream(1) d64])
  have "take ?n d = take ?n (drop (snd_accepted t) s)"
    by (subst d) simp
  then have "bs_buffer ?st @ take ?n d = take (length (bs_buffer ?st) + ?n) (drop (snd_bytes t) s)"
    using stream(4) by (simp add: take_add snd_accepted_def add.commute)
  moreover have "length (bs_buffer ?st @ take ?n d) = length (bs_buffer ?st) + ?n" by simp
  moreover have "bs_inv (fst (ByteStream_write ?st d))" using bs.put_inv [OF stream(1) d64] .
  ultimately show ?thesis
    using inv assms(3) len stream(5) buf write_eq [OF stream(1) d64]
    by (auto simp: snd_inv_def snd_stream_inv_def snd_queue_inv_def snd_bytes_def snd_accepted_def stream_in_write_def)
qed

lemma stream_in_end_inv:
  assumes "snd_inv s t" and "snd_accepted t = length s"
  shows "snd_inv s (stream_in_end t)"
  using assms
  by (auto simp: snd_inv_def snd_stream_inv_def snd_queue_inv_def snd_bytes_def snd_accepted_def
      stream_in_end_def ByteStream_end_input_def bs_inv_def)

text \<open>The owner of the sender takes a segment from the queue to put it on the wire.\<close>

definition segments_out_pop :: "TCPSender \<Rightarrow> TCPSender" where
  "segments_out_pop t = t\<lparr>ts_segments_out := tl (ts_segments_out t)\<rparr>"

lemma segments_out_pop_inv:
  "snd_inv s t \<Longrightarrow> snd_inv s (segments_out_pop t)"
  using snd_stream_inv_cong [of "segments_out_pop t" t s]
  by (cases "ts_segments_out t") (simp_all add: snd_inv_def snd_queue_inv_def segments_out_pop_def)

section \<open>What a call of \<open>fill_window\<close> sends\<close>

text \<open>A segment of at most 1452 bytes of payload behind a header without options fits a datagram.\<close>

definition sendable :: "TCPSegment \<Rightarrow> bool" where
  "sendable seg \<longleftrightarrow> th_doff (seg_header seg) = 5 \<and> length (Buffer_str (seg_payload seg)) \<le> 1452"

lemma default_doff [simp]: "th_doff TCPHeader_default = 5"
  by (simp add: TCPHeader_default_def TCPHeader_LENGTH_def)

definition fill_sent :: "bytes \<Rightarrow> TCPSender \<Rightarrow> TCPSegment list \<Rightarrow> TCPSender \<Rightarrow> bool" where
  "fill_sent s t new t' \<longleftrightarrow>
     ts_segments_out t' = ts_segments_out t @ new
     \<and> ts_outstanding_segments t' = ts_outstanding_segments t @ new
     \<and> ts_receiver_ack t' = ts_receiver_ack t \<and> ts_receiver_window_size t' = ts_receiver_window_size t
     \<and> ts_isn t' = ts_isn t \<and> bs_end_write (ts_stream t') = bs_end_write (ts_stream t)
     \<and> seq_chain (ts_isn t) (unat (ts_next_seqno t)) new (unat (ts_next_seqno t'))
     \<and> snd_bytes t \<le> snd_bytes t' \<and> snd_accepted t' = snd_accepted t
     \<and> concat (map (\<lambda>seg. Buffer_str (seg_payload seg)) new) = take (snd_bytes t' - snd_bytes t) (drop (snd_bytes t) s)
     \<and> list_all sendable new"

lemma fill_sent_refl: "fill_sent s t [] t"
  by (simp add: fill_sent_def)

lemma fill_sent_trans:
  assumes "fill_sent s t xs t1" and "fill_sent s t1 ys t2"
  shows "fill_sent s t (xs @ ys) t2"
proof -
  have "take (snd_bytes t1 - snd_bytes t) (drop (snd_bytes t) s) @ take (snd_bytes t2 - snd_bytes t1) (drop (snd_bytes t1) s)
      = take (snd_bytes t2 - snd_bytes t) (drop (snd_bytes t) s)"
    using assms take_add [of "snd_bytes t1 - snd_bytes t" "snd_bytes t2 - snd_bytes t1" "drop (snd_bytes t) s"]
    by (simp add: fill_sent_def)
  then show ?thesis using assms unfolding fill_sent_def seq_chain_append by auto
qed

lemma syn_sent:
  assumes "snd_inv s t" and "ts_next_seqno t = 0"
  shows "\<exists>new. fill_sent s t new (send_syn t)"
proof
  let ?seg = "TCPSegment_default\<lparr>seg_header := TCPHeader_default\<lparr>th_syn := True, th_seqno := ts_isn t\<rparr>\<rparr>"
  have "seg_len ?seg = 1" "Buffer_str (seg_payload ?seg) = []" "sendable ?seg"
    by (simp_all add: sendable_def TCPHeader_LENGTH_def seg_len_def length_in_sequence_space_def TCPSegment_default_def TCPHeader_default_def)
  then show "fill_sent s t [?seg] (send_syn t)"
    using assms(2)
    by (simp add: fill_sent_def send_syn_def send_segment_def snd_bytes_def snd_accepted_def wrap_zero Let_def)
qed

lemma after_payload_bytes:
  assumes "snd_stream_inv s t"
  shows "snd_bytes (after_payload t w) = snd_bytes t + unat (payload_size t w)"
    and "snd_accepted (after_payload t w) = snd_accepted t"
proof -
  have "unat (payload_size t w) \<le> length (bs_buffer (ts_stream t))"
    by (rule payload_size_le) (use assms in \<open>simp add: snd_stream_inv_def\<close>)
  moreover have "snd_bytes t + length (bs_buffer (ts_stream t)) < 2 ^ 64"
    using assms by (simp add: snd_stream_inv_def)
  ultimately show "snd_bytes (after_payload t w) = snd_bytes t + unat (payload_size t w)"
      "snd_accepted (after_payload t w) = snd_accepted t"
    by (simp_all add: after_payload_def snd_bytes_def snd_accepted_def unat_add_small)
qed

lemma payload_sent:
  assumes inv: "snd_inv s t" and t: "ts_next_seqno t \<noteq> 0" "\<not> ts_set_fin_flag t"
    and "sends_fin t w \<or> payload_size t w \<noteq> 0"
  shows "fill_sent s t [data_segment t w] (send_segment (after_payload t w) (data_segment t w))"
proof -
  have stream: "snd_stream_inv s t" using inv by (simp add: snd_inv_def)
  note bytes = after_payload_bytes [OF stream, of w] and seg = data_segment_fields [OF stream, of w]
    and nxt = after_payload_stream(2) [OF stream t, of w]
  have "0 < seg_len (data_segment t w)" using seg(1) assms(4) by (auto simp: unat_gt_0)
  moreover have "unat (payload_size t w) \<le> 1452"
    by (rule payload_size_le) (use stream in \<open>simp add: snd_stream_inv_def\<close>)
  moreover have "th_doff (seg_header (data_segment t w)) = 5" by (simp add: data_segment_def)
  moreover have "th_seqno (seg_header (data_segment t w)) = wrap (ts_next_seqno t) (ts_isn t)"
    by (simp add: data_segment_def next_seqno_def)
  moreover have "bs_end_write (ts_stream (after_payload t w)) = bs_end_write (ts_stream t)"
    by (simp add: after_payload_def)
  ultimately show ?thesis
    using bytes seg nxt
    by (simp add: fill_sent_def sendable_def send_segment_def snd_bytes_def snd_accepted_def)
qed

lemma nothing_sent:
  assumes inv: "snd_inv s t" and t: "ts_next_seqno t \<noteq> 0" "\<not> ts_set_fin_flag t"
    and "\<not> sends_fin t w" and "payload_size t w = 0"
  shows "fill_sent s t [] (after_payload t w)"
proof -
  have stream: "snd_stream_inv s t" using inv by (simp add: snd_inv_def)
  note bytes = after_payload_bytes [OF stream, of w] and nxt = after_payload_stream(2) [OF stream t, of w]
    and seg = data_segment_fields(1) [OF stream, of w]
  have "bs_end_write (ts_stream (after_payload t w)) = bs_end_write (ts_stream t)"
    by (simp add: after_payload_def)
  then show ?thesis using bytes nxt seg assms(4,5) by (simp add: fill_sent_def)
qed

lemma fill_window_step_sent:
  assumes inv: "snd_inv s t"
  shows "\<exists>new. fill_sent s t new (fst (fill_window_step t))"
  using fill_window_step_cases [OF inv] syn_sent [OF inv] payload_sent [OF inv] nothing_sent [OF inv] fill_sent_refl
  by (fastforce simp: Let_def split: if_splits)

lemma fill_window_sent: "snd_inv s t \<Longrightarrow> \<exists>new. fill_sent s t new (fill_window t)"
proof (induction t rule: fill_window.induct)
  case (1 t)
  obtain t1 again where step: "fill_window_step t = (t1, again)" by fastforce
  obtain xs where xs: "fill_sent s t xs t1" using fill_window_step_sent [OF 1(2)] step by auto
  have inv: "snd_inv s t1" using fill_window_step_inv [OF 1(2)] step by simp
  show ?case
  proof (cases again)
    case True
    then obtain ys where "fill_sent s t1 ys (fill_window t1)" using 1(1) [of "(t1, again)" t1 again] inv step by auto
    with xs have "fill_sent s t (xs @ ys) (fill_window t1)" by (rule fill_sent_trans)
    then show ?thesis using True step by (subst fill_window.simps) auto
  next
    case False
    then show ?thesis using xs step by (subst fill_window.simps) auto
  qed
qed

section \<open>The window\<close>

lemma in_flight_sent: "fill_sent s t new t' \<Longrightarrow> in_flight t' = in_flight t + sum_list (map seg_len new)"
  by (simp add: fill_sent_def in_flight_def)

lemma effective_window_eq: "unat (effective_window t) = max 1 (unat (ts_receiver_window_size t))"
  using unat_gt_0 [of "ts_receiver_window_size t"] by (auto simp: effective_window_def max_def)

lemma effective_window_sent: "fill_sent s t new t' \<Longrightarrow> effective_window t' = effective_window t"
  by (simp add: fill_sent_def effective_window_def)

text \<open>A call keeps within the window, and stops only for one of the reasons it is meant to stop for.\<close>

definition fill_done :: "TCPSender \<Rightarrow> bool" where
  "fill_done t \<longleftrightarrow> ts_set_fin_flag t \<or> unat (effective_window t) \<le> in_flight t
     \<or> bs_buffer (ts_stream t) = [] \<and> \<not> bs_end_write (ts_stream t)"

text \<open>The size of the next payload and the condition for a FIN, within the window.\<close>

lemma payload_in_window:
  assumes inv: "snd_inv s t" and le: "in_flight t \<le> unat (effective_window t)"
  defines "n \<equiv> unat (payload_size t (effective_window t))"
  shows "n = min (unat (effective_window t) - in_flight t) (min (length (bs_buffer (ts_stream t))) 1452)"
    and "sends_fin t (effective_window t) \<longleftrightarrow> bs_end_write (ts_stream t) \<and> n = length (bs_buffer (ts_stream t))
      \<and> in_flight t + n < unat (effective_window t)"
proof -
  let ?w = "effective_window t"
  have st: "bs_inv (ts_stream t)" using inv by (simp add: snd_inv_def snd_stream_inv_def)
  have "bytes_in_flight t \<le> ?w" using le bytes_in_flight_eq(1) [OF inv] by (simp add: word_le_nat_alt)
  then show n: "n = min (unat ?w - in_flight t) (min (length (bs_buffer (ts_stream t))) 1452)"
    using payload_size_nat [OF st, of ?w] bytes_in_flight_eq(1) [OF inv] by (simp add: n_def unat_sub)
  have "in_flight t + n \<le> unat ?w" using n le by linarith
  moreover have "unat ?w < 2 ^ 64" by simp
  ultimately have "in_flight t + n < 2 ^ 64" by (rule le_less_trans)
  then have "unat (bytes_in_flight t + payload_size t ?w) = in_flight t + n"
    using bytes_in_flight_eq(1) [OF inv] by (simp add: unat_add_small n_def)
  then show "sends_fin t ?w \<longleftrightarrow> bs_end_write (ts_stream t) \<and> n = length (bs_buffer (ts_stream t)) \<and> in_flight t + n < unat ?w"
    by (simp add: sends_fin_def word_less_nat_alt n_def)
qed

lemma fill_window_step_window:
  assumes inv: "snd_inv s t" and le: "in_flight t \<le> unat (effective_window t)"
  defines "t' \<equiv> fst (fill_window_step t)"
  shows "in_flight t' \<le> unat (effective_window t) \<and> (\<not> snd (fill_window_step t) \<longrightarrow> fill_done t')"
proof -
  let ?w = "effective_window t"
  have stream: "snd_stream_inv s t" using inv by (simp add: snd_inv_def)
  obtain new where new: "fill_sent s t new t'" using fill_window_step_sent [OF inv] by (auto simp: t'_def)
  note w' = effective_window_sent [OF new]
  have inv': "snd_inv s t'" unfolding t'_def by (rule fill_window_step_inv [OF inv])
  have stop: "fill_done t'" if "\<not> window_not_full t' ?w"
    using that bytes_in_flight_eq(1) [OF inv'] by (simp add: window_not_full_def fill_done_def w' word_less_nat_alt not_less)
  note n = payload_in_window(1) [OF inv le] and fin = payload_in_window(2) [OF inv le]
  from inv show ?thesis
  proof (cases rule: fill_window_step_elim)
    case closed
    with le show ?thesis by (simp add: t'_def fill_done_def)
  next
    case syn
    have "in_flight t' = in_flight t + 1" "in_flight t = 0"
      using bytes_in_flight_eq(2) [OF inv] bytes_in_flight_eq(2) [OF inv'] syn
      by (simp_all add: t'_def send_syn_def Let_def)
    then show ?thesis using syn stop effective_window_eq [of t] by (simp add: t'_def)
  next
    case sent
    have t': "t' = send_segment (after_payload t ?w) (data_segment t ?w)" by (simp add: t'_def sent(4))
    have "in_flight t' = in_flight t + unat (payload_size t ?w) + of_bool (sends_fin t ?w)"
      using in_flight_sent [OF payload_sent [OF inv sent(2,1,3)]] data_segment_fields(1) [OF stream, of ?w]
      unfolding t' by simp
    moreover have "in_flight t + unat (payload_size t ?w) \<le> unat ?w" using n le by linarith
    ultimately have "in_flight t' \<le> unat ?w" using fin by (cases "sends_fin t ?w") simp_all
    moreover have "snd (fill_window_step t) = window_not_full t' ?w" by (simp add: t' sent(4))
    ultimately show ?thesis using stop by blast
  next
    case idle
    have t': "t' = after_payload t ?w" by (simp add: t'_def idle(5))
    have "in_flight t' = in_flight t"
      using in_flight_sent [OF nothing_sent [OF inv idle(2,1,3,4)]] t' by simp
    moreover have "unat ?w - in_flight t = 0 \<or> bs_buffer (ts_stream t) = []"
      using n idle(4) by (simp add: min_def split: if_splits)
    moreover have "bs_buffer (ts_stream t') = bs_buffer (ts_stream t)" "bs_end_write (ts_stream t') = bs_end_write (ts_stream t)"
      using idle(4) t' by (simp_all add: after_payload_def)
    moreover have "unat (payload_size t ?w) = 0" using idle(4) by simp
    ultimately show ?thesis
      using fin idle(3) le w' unfolding fill_done_def by auto
  qed
qed

lemma fill_window_window:
  "snd_inv s t \<Longrightarrow> in_flight t \<le> unat (effective_window t) \<Longrightarrow>
   in_flight (fill_window t) \<le> unat (effective_window t) \<and> fill_done (fill_window t)"
proof (induction t rule: fill_window.induct)
  case (1 t)
  obtain t1 again where step: "fill_window_step t = (t1, again)" by fastforce
  note w = fill_window_step_window [OF 1(2,3)] and inv = fill_window_step_inv [OF 1(2)]
  have eff: "effective_window t1 = effective_window t"
    using fill_window_step_sent [OF 1(2)] effective_window_sent step by fastforce
  show ?case
  proof (cases again)
    case True
    then show ?thesis
      using 1(1) [of "(t1, again)" t1 again] w inv step eff by (subst (1 2) fill_window.simps) auto
  next
    case False
    then show ?thesis using w step by (subst (1 2) fill_window.simps) auto
  qed
qed

section \<open>Runs of a sender\<close>

datatype sender_op =
    AppWrite bytes
  | AppEnd
  | FillWindow
  | AckReceived WrappingInt32 u16
  | Tick u64
  | SendEmptySegment
  | TakeSegment

fun sender_step :: "sender_op \<Rightarrow> TCPSender \<Rightarrow> TCPSender result" where
  "sender_step (AppWrite d) t = Inr (stream_in_write t d)"
| "sender_step AppEnd t = Inr (stream_in_end t)"
| "sender_step FillWindow t = Inr (fill_window t)"
| "sender_step (AckReceived ackno win) t = Inr (ack_received t ackno win)"
| "sender_step (Tick ms) t = tick t ms"
| "sender_step SendEmptySegment t = Inr (send_empty_segment t)"
| "sender_step TakeSegment t = Inr (segments_out_pop t)"

text \<open>
  The application writes \<open>s\<close> piece by piece, continuing where the stream stopped accepting, and ends
  the stream when all of \<open>s\<close> has been accepted. Of the other operations only one thing is asked: an
  acknowledgement can tell the outstanding segments apart only while at most \<open>2^31\<close> sequence numbers
  are in flight. A stream shorter than that never has more.
\<close>

fun app_ok :: "bytes \<Rightarrow> sender_op \<Rightarrow> TCPSender \<Rightarrow> bool" where
  "app_ok s (AppWrite d) t \<longleftrightarrow>
     d = take (length d) (drop (snd_accepted t) s) \<and> \<not> bs_end_write (ts_stream t)"
| "app_ok s AppEnd t \<longleftrightarrow> snd_accepted t = length s"
| "app_ok s _ t \<longleftrightarrow> True"

fun ack_ok :: "sender_op \<Rightarrow> TCPSender \<Rightarrow> bool" where
  "ack_ok (AckReceived ackno win) t \<longleftrightarrow> unat (bytes_in_flight t) \<le> 2 ^ 31"
| "ack_ok _ t \<longleftrightarrow> True"

lemma short_next:
  assumes "snd_inv s t" and "length s < 2 ^ 31 - 2"
  shows "unat (ts_next_seqno t) < 2 ^ 31"
  using snd_next_bound [of s t] assms by (simp add: snd_inv_def)

lemma short_flight:
  assumes "snd_inv s t" and "length s < 2 ^ 31 - 2"
  shows "unat (bytes_in_flight t) < 2 ^ 31"
  using bytes_in_flight_eq [OF assms(1)] short_next [OF assms] by simp

fun app_run :: "bytes \<Rightarrow> sender_op list \<Rightarrow> TCPSender \<Rightarrow> bool" where
  "app_run s [] t = True"
| "app_run s (oper # ops) t \<longleftrightarrow> app_ok s oper t \<and> ack_ok oper t \<and>
     (case sender_step oper t of Inr t' \<Rightarrow> app_run s ops t' | Inl _ \<Rightarrow> True)"

lemma sender_step_inv:
  assumes "snd_inv s t" and "app_ok s oper t" and "ack_ok oper t"
  shows "\<exists>t'. sender_step oper t = Inr t' \<and> snd_inv s t'"
  using assms
proof (cases oper)
  case (Tick ms)
  then show ?thesis using tick_inv [OF assms(1)] by fastforce
qed (auto intro: stream_in_write_inv stream_in_end_inv fill_window_inv ack_received_inv
    send_empty_segment_inv segments_out_pop_inv)

lemma sender_run_inv:
  assumes "snd_inv s t" and "app_run s ops t"
  shows "\<exists>t'. for_each ops sender_step t = Inr t' \<and> snd_inv s t'"
  using assms
proof (induction ops arbitrary: t)
  case (Cons oper ops)
  then obtain t1 where "sender_step oper t = Inr t1" "snd_inv s t1"
    using sender_step_inv [of s t oper] by auto
  with Cons show ?case by auto
qed simp

end
