(* ===== verification/Sender_Properties.thy ===== *)
theory Sender_Properties
  imports TCP_Sender
begin

text \<open>
  The guarantees of \<open>TCPSender\<close>: the invariant of its queues over any run, and the behaviour of
  \<open>fill_window\<close>, \<open>ack_received\<close> and \<open>tick\<close>.
\<close>

text \<open>A sender in the middle of a transfer: SYN acknowledged, three bytes in flight, two waiting.\<close>

definition demo_sender :: TCPSender where
  "demo_sender =
     (TCPSender_new 10 1000 (Some (WrappingInt32 42)) 0)
       \<lparr>ts_stream := (ByteStream_new 10)\<lparr>bs_buffer := [4, 5], bs_read_bytes := 3, bs_written_bytes := 5\<rparr>,
        ts_next_seqno := 4, ts_receiver_ack := 1, ts_set_syn_flag := True,
        ts_outstanding_segments :=
          [\<lparr>seg_header = TCPHeader_default\<lparr>th_seqno := WrappingInt32 43\<rparr>, seg_payload = Buffer_of_string [1, 2, 3]\<rparr>],
        ts_retransmission_timer := start_timer (RetransmissionTimer_new 1000)\<rparr>"

lemma demo_sender_inv: "snd_inv [1, 2, 3, 4, 5] demo_sender"
proof -
  have w: "WrappingInt32 43 = wrap 1 (WrappingInt32 42)" by (simp add: wrap_def wi_plus_def)
  then show ?thesis
    by (simp add: snd_inv_def snd_stream_inv_def snd_queue_inv_def snd_bytes_def demo_sender_def TCPSender_new_def
        ByteStream_new_def bs_inv_def size_t_def seg_len_def length_in_sequence_space_def TCPHeader_default_def
        carries_def pay_index_def excerpt_def w [symmetric])
qed

lemma demo_sender_flight: "bytes_in_flight demo_sender = 3"
  by (simp add: bytes_in_flight_def demo_sender_def)

section \<open>Properties\<close>

text \<open>
  C11. The sender's invariant: whatever acknowledgements arrive and whenever time passes, a sender
  whose application writes the stream \<open>s\<close>, of up to \<open>2^63\<close> bytes, never touches an empty queue; its
  outstanding segments are contiguous from the last acknowledged to the next sequence number and each
  carries the bytes of \<open>s\<close> at its place, so that \<open>bytes_in_flight\<close> is the number of sequence numbers
  they occupy; the timer runs exactly while segments are outstanding; and every segment queued for
  transmission carries a correct piece of \<open>s\<close>. The sequence numbers may wrap around any number of
  times, as long as no acknowledgement arrives while more than \<open>2^31\<close> of them are in flight.
\<close>

theorem sender_invariant:
  assumes "length s < 2 ^ 63 - 2" and "app_run s ops (TCPSender_new capacity retx_timeout fixed_isn random)"
  shows "\<exists>t. for_each ops sender_step (TCPSender_new capacity retx_timeout fixed_isn random) = Inr t
    \<and> seq_chain (ts_isn t) (unat (ts_receiver_ack t)) (ts_outstanding_segments t) (unat (next_seqno_absolute t))
    \<and> carried (ts_isn t) s (unat (ts_receiver_ack t)) (ts_outstanding_segments t)
    \<and> unat (bytes_in_flight t) = sum_list (map seg_len (ts_outstanding_segments t))
    \<and> (rt_is_running (ts_retransmission_timer t) \<longleftrightarrow> ts_outstanding_segments t \<noteq> [])
    \<and> list_all (stream_segment (ts_isn t) s) (ts_segments_out t)"
proof -
  obtain t where t: "for_each ops sender_step (TCPSender_new capacity retx_timeout fixed_isn random) = Inr t"
      "snd_inv s t"
    using sender_run_inv [OF snd_inv_new [OF assms(1)] assms(2)] by blast
  then show ?thesis
    using bytes_in_flight_eq(1) [OF t(2)]
    by (simp add: snd_inv_def snd_queue_inv_def next_seqno_absolute_def in_flight_def)
qed

theorem sender_invariant_witness:
  "\<exists>t. for_each [AppWrite [7, 7, 7], FillWindow, AckReceived (WrappingInt32 99) 7, Tick 5000, TakeSegment]
        sender_step (TCPSender_new 10 1000 (Some (WrappingInt32 42)) 0) = Inr t
    \<and> list_all (stream_segment (ts_isn t) (replicate (2 ^ 40) 7)) (ts_segments_out t)"
proof -
  let ?t = "TCPSender_new 10 1000 (Some (WrappingInt32 42)) 0" and ?s = "replicate (2 ^ 40) (7 :: u8)"
  let ?t1 = "stream_in_write ?t [7, 7, 7]"
  have inv: "snd_inv ?s ?t" by (rule snd_inv_new) simp
  have app: "app_ok ?s (AppWrite [7, 7, 7]) ?t"
    by (simp add: TCPSender_new_def ByteStream_new_def snd_accepted_def snd_bytes_def numeral_3_eq_3)
  then have inv1: "snd_inv ?s ?t1" by (intro stream_in_write_inv [OF inv]) simp_all
  have "unat (bytes_in_flight (fill_window ?t1)) \<le> max 1 (unat (ts_receiver_window_size ?t1))"
    using fill_window_window [OF inv1] bytes_in_flight_eq(1) [OF inv1] bytes_in_flight_eq(1) [OF fill_window_inv [OF inv1]]
    by (simp add: effective_window_eq) (simp add: stream_in_write_def TCPSender_new_def bytes_in_flight_def)
  then have "ack_ok (AckReceived (WrappingInt32 99) 7) (fill_window ?t1)"
    by (simp add: stream_in_write_def TCPSender_new_def)
  with app have "app_run ?s
      [AppWrite [7, 7, 7], FillWindow, AckReceived (WrappingInt32 99) 7, Tick 5000, TakeSegment] ?t"
    by (auto split: sum.splits simp del: app_ok.simps(1) ack_ok.simps(1))
  from sender_invariant [OF _ this] show ?thesis by simp blast
qed

text \<open>
  C12. \<open>fill_window\<close> on a sender within its window: it stays within the window (a window of zero
  counting as one); it stops only when the FIN is out, the window is full, or the application has
  nothing more to offer; it sends the next bytes of the stream in order and without gaps, in segments
  of at most 1452 bytes; and every segment it sends is also kept for retransmission.
\<close>

theorem fill_window_correct:
  assumes "snd_inv s t" and "unat (bytes_in_flight t) \<le> max 1 (unat (ts_receiver_window_size t))"
  defines "t' \<equiv> fill_window t"
  shows "unat (bytes_in_flight t') \<le> max 1 (unat (ts_receiver_window_size t))
    \<and> (ts_set_fin_flag t' \<or> unat (bytes_in_flight t') = max 1 (unat (ts_receiver_window_size t))
       \<or> ByteStream_buffer_empty (ts_stream t') \<and> \<not> ByteStream_input_ended (ts_stream t'))
    \<and> (\<exists>new. ts_segments_out t' = ts_segments_out t @ new
        \<and> ts_outstanding_segments t' = ts_outstanding_segments t @ new
        \<and> seq_chain (ts_isn t) (unat (ts_next_seqno t)) new (unat (ts_next_seqno t'))
        \<and> concat (map (\<lambda>seg. Buffer_str (seg_payload seg)) new)
            = take (snd_bytes t' - snd_bytes t) (drop (snd_bytes t) s)
        \<and> list_all (\<lambda>seg. length (Buffer_str (seg_payload seg)) \<le> 1452) new)"
proof -
  have "list_all sendable new \<Longrightarrow> list_all (\<lambda>seg. length (Buffer_str (seg_payload seg)) \<le> 1452) new" for new
    by (erule list.pred_mono_strong) (simp add: sendable_def)
  note short = this
  note inv' = fill_window_inv [OF assms(1)]
  obtain new where new: "fill_sent s t new t'" using fill_window_sent [OF assms(1)] by (auto simp: t'_def)
  have "in_flight t' \<le> unat (effective_window t) \<and> fill_done t'"
    unfolding t'_def using fill_window_window [OF assms(1)] assms(2)
    by (simp add: effective_window_eq bytes_in_flight_eq(1) [OF assms(1)])
  moreover have "unat (bytes_in_flight t') = in_flight t'"
    unfolding t'_def by (rule bytes_in_flight_eq(1) [OF inv'])
  ultimately show ?thesis
    using new effective_window_sent [OF new] short [of new]
    by (auto simp: fill_done_def fill_sent_def effective_window_eq bs_accessor_defs)
qed

theorem fill_window_correct_witness:
  "unat (bytes_in_flight (fill_window (TCPSender_new 10 1000 (Some (WrappingInt32 42)) 0))) \<le> 1"
  using fill_window_correct [OF snd_inv_new, of "[]" 10 1000 "Some (WrappingInt32 42)" 0]
  by (simp add: TCPSender_new_def bytes_in_flight_def)

text \<open>
  C20. The recursion of \<open>fill_window\<close> ends in every state, reachable or not: it unfolds into at most
  \<open>2 n + 3\<close> calls for \<open>n\<close> bytes in the stream's buffer, the last of which asks for no further one.
\<close>

theorem fill_window_terminates:
  "\<exists>k. k \<le> 2 * length (bs_buffer (ts_stream t)) + 2
     \<and> fill_window t = fst (fill_window_step (((\<lambda>u. fst (fill_window_step u)) ^^ k) t))
     \<and> \<not> snd (fill_window_step (((\<lambda>u. fst (fill_window_step u)) ^^ k) t))"
proof -
  let ?f = "\<lambda>u. fst (fill_window_step u)"
  let ?m = "\<lambda>u. if ts_set_fin_flag u then 0
      else 2 * length (bs_buffer (ts_stream u)) + of_bool (ts_next_seqno u = 0) + (1 :: nat)"
  have "\<exists>k \<le> ?m t. fill_window t = ?f ((?f ^^ k) t) \<and> \<not> snd (fill_window_step ((?f ^^ k) t))"
  proof (induction t rule: fill_window.induct)
    case (1 t)
    obtain t1 again where step: "fill_window_step t = (t1, again)" by fastforce
    show ?case
    proof (cases again)
      case True
      have less: "?m t1 < ?m t" using fill_window_step_decreases [of t] step True by auto
      obtain k where "k \<le> ?m t1" "fill_window t1 = ?f ((?f ^^ k) t1)" "\<not> snd (fill_window_step ((?f ^^ k) t1))"
        using 1 [of "(t1, again)" t1 again] step True by auto
      moreover have "(?f ^^ Suc k) t = (?f ^^ k) t1" using step by (simp add: funpow_Suc_right del: funpow.simps)
      moreover have "fill_window t = fill_window t1" using step True by (subst fill_window.simps) simp
      ultimately show ?thesis using less by (intro exI [of _ "Suc k"]) (simp del: funpow.simps)
    next
      case False
      then show ?thesis using step by (intro exI [of _ 0]) (subst fill_window.simps, simp)
    qed
  qed
  moreover have "?m t \<le> 2 * length (bs_buffer (ts_stream t)) + 2" by simp
  ultimately show ?thesis using order.trans by blast
qed

text \<open>
  C38. A shrunken window is not respected: when the receiver advertises less than what is already in
  flight, \<open>window_size - bytes_in_flight()\<close> wraps around to a huge number and \<open>fill_window\<close> sends a
  further full segment into the window that is already overfull.
\<close>

theorem fill_window_overruns:
  assumes inv: "snd_inv s t" and "max 1 (unat (ts_receiver_window_size t)) < unat (bytes_in_flight t)"
    and "ts_next_seqno t \<noteq> 0" and "\<not> ts_set_fin_flag t" and "\<not> ByteStream_buffer_empty (ts_stream t)"
  shows "unat (bytes_in_flight (fill_window t))
    = unat (bytes_in_flight t) + min 1452 (length (bs_buffer (ts_stream t)))"
proof -
  let ?w = "effective_window t" and ?n = "min (length (bs_buffer (ts_stream t))) 1452"
  let ?t' = "send_segment (after_payload t ?w) (data_segment t ?w)"
  have stream: "snd_stream_inv s t" and st: "bs_inv (ts_stream t)"
    using inv by (simp_all add: snd_inv_def snd_stream_inv_def)
  have f: "unat ?w < unat (bytes_in_flight t)" using assms(2) by (simp add: effective_window_eq)
  have small: "unat (bytes_in_flight t) < 2 ^ 63"
    using bytes_in_flight_eq [OF inv] snd_next_small [OF stream] by linarith
  have "unat (?w - bytes_in_flight t) = 2 ^ 64 + unat ?w - unat (bytes_in_flight t)"
    using f by (simp add: unat_sub_if' word_le_nat_alt)
  then have n: "unat (payload_size t ?w) = ?n"
    unfolding payload_size_nat [OF st] using small by simp
  have "unat (bytes_in_flight t + payload_size t ?w) = unat (bytes_in_flight t) + ?n"
    using small n by (simp add: unat_add_small)
  then have fin: "\<not> sends_fin t ?w" using f by (simp add: sends_fin_def word_less_nat_alt)
  have "0 < ?n" using assms(5) by (simp add: ByteStream_buffer_empty_def)
  then have pos: "payload_size t ?w \<noteq> 0" unfolding n [symmetric] by (simp add: unat_gt_0)
  note sent = payload_sent [OF inv assms(3,4) disjI2 [OF pos]]
  have step: "fill_window_step t = (?t', window_not_full ?t' ?w)"
    using inv by (cases rule: fill_window_step_elim) (use assms(3,4) pos in auto)
  have inv': "snd_inv s ?t'" using fill_window_step_inv [OF inv] step by simp
  have flight: "unat (bytes_in_flight ?t') = unat (bytes_in_flight t) + ?n"
    using in_flight_sent [OF sent] data_segment_fields(1) [OF stream, of ?w] fin n
    by (simp add: bytes_in_flight_eq(1) [OF inv] bytes_in_flight_eq(1) [OF inv'])
  then have "fill_window t = ?t'"
    using step f by (subst fill_window.simps) (simp add: window_not_full_def word_less_nat_alt)
  with flight show ?thesis by (simp add: min.commute)
qed

theorem fill_window_overruns_witness:
  "unat (bytes_in_flight (fill_window demo_sender)) = 5"
  using fill_window_overruns [OF demo_sender_inv]
  by (simp add: demo_sender_flight)
    (simp add: demo_sender_def TCPSender_new_def ByteStream_new_def ByteStream_buffer_empty_def)

text \<open>
  C13. An acknowledgement: a number beyond what was sent or before what is already acknowledged changes
  nothing; any other takes exactly the segments that it covers entirely off the front of the queue
  (at most \<open>2^31\<close> sequence numbers being in flight), records the window, and, if it took any off,
  resets timeout and retransmission count; the timer is stopped when nothing is left outstanding.
\<close>

theorem ack_received_correct:
  fixes win :: u16
  assumes "snd_inv s t" and "near_seq a (ts_next_seqno t)" and "unat (bytes_in_flight t) \<le> 2 ^ 31"
  defines "t' \<equiv> ack_received t (wrap a (ts_isn t)) win"
  shows "(ts_next_seqno t < a \<or> a < ts_receiver_ack t \<longrightarrow> t' = t)
    \<and> (ts_receiver_ack t \<le> a \<and> a \<le> ts_next_seqno t \<longrightarrow>
        (\<exists>acked. ts_outstanding_segments t = acked @ ts_outstanding_segments t'
          \<and> seq_chain (ts_isn t) (unat (ts_receiver_ack t)) acked (unat (ts_receiver_ack t'))
          \<and> ts_receiver_ack t' \<le> a
          \<and> (ts_outstanding_segments t' \<noteq> [] \<longrightarrow>
              unat a < unat (ts_receiver_ack t') + seg_len (hd (ts_outstanding_segments t')))
          \<and> ts_receiver_window_size t' = ucast win
          \<and> (acked \<noteq> [] \<longrightarrow> consecutive_retransmissions t' = 0
               \<and> rt_rto (ts_retransmission_timer t') = ucast (ts_initial_retransmission_timeout t)
               \<and> rt_accumulate_time (ts_retransmission_timer t') = 0)
          \<and> rt_is_running (ts_retransmission_timer t') = (ts_outstanding_segments t' \<noteq> [])))"
proof -
  have dec: "unwrap (wrap a (ts_isn t)) (ts_isn t) (ts_next_seqno t) = a" by (rule wi.dec_enc [OF assms(2)])
  note cases = ack_received_cases [OF assms(1,3), of "wrap a (ts_isn t)" win, unfolded dec, folded t'_def]
  show ?thesis
  proof (cases "ts_next_seqno t < a \<or> a < ts_receiver_ack t")
    case True
    then have "t' = t" using cases by blast
    with True show ?thesis by (auto simp: word_less_nat_alt word_le_nat_alt)
  next
    case False
    then obtain acked rest ack' timer' count' where queue: "ts_outstanding_segments t = acked @ rest"
        and t': "t' = t\<lparr>ts_receiver_window_size := ucast win, ts_outstanding_segments := rest,
             ts_receiver_ack := ack', ts_retransmission_timer := timer', ts_consecutive_retransmissions := count'\<rparr>"
        and chain: "seq_chain (ts_isn t) (unat (ts_receiver_ack t)) acked (unat ack')"
        and le: "unat ack' \<le> unat a" "rest \<noteq> [] \<longrightarrow> unat a < unat ack' + seg_len (hd rest)"
        and timer: "rt_is_running timer' = (rest \<noteq> [])"
          "acked \<noteq> [] \<longrightarrow> rt_rto timer' = ucast (ts_initial_retransmission_timeout t)
             \<and> rt_accumulate_time timer' = 0 \<and> count' = 0"
      using cases by (metis (mono_tags))
    have "ts_outstanding_segments t = acked @ ts_outstanding_segments t'" using queue t' by simp
    with False chain le timer show ?thesis
      by (auto simp: t' consecutive_retransmissions_def word_le_nat_alt intro!: exI [of _ acked])
  qed
qed

theorem ack_received_correct_witness:
  "\<exists>acked. ts_outstanding_segments demo_sender
     = acked @ ts_outstanding_segments (ack_received demo_sender (wrap 3 (ts_isn demo_sender)) 9)"
proof -
  have "near_seq 3 (ts_next_seqno demo_sender)" "ts_receiver_ack demo_sender \<le> 3" "3 \<le> ts_next_seqno demo_sender"
      "unat (bytes_in_flight demo_sender) \<le> 2 ^ 31"
    by (simp_all add: near_seq_def demo_sender_flight) (simp_all add: demo_sender_def)
  then show ?thesis using ack_received_correct [OF demo_sender_inv, of 3 9] by blast
qed

text \<open>
  C14. The passage of time: a tick that does not reach the timeout changes nothing but the elapsed
  time of the timer, to which it adds the time passed if the timer runs; so short ticks add up. On
  expiry the oldest outstanding segment, and no other, is queued again, the count of consecutive
  retransmissions goes up by one, and the timer restarts with twice the timeout, or with the initial
  one while the receiver's window is zero. The access to the head of the queue is always defined.
\<close>

theorem tick_correct:
  assumes "snd_inv s t"
  defines "timer \<equiv> ts_retransmission_timer t"
  shows "\<exists>t'. tick t ms = Inr t'
    \<and> (if rt_is_running timer \<and> rt_rto timer \<le> rt_accumulate_time timer + ms
       then ts_outstanding_segments t \<noteq> []
         \<and> ts_segments_out t' = ts_segments_out t @ [hd (ts_outstanding_segments t)]
         \<and> consecutive_retransmissions t' = consecutive_retransmissions t + 1
         \<and> rt_accumulate_time (ts_retransmission_timer t') = 0
         \<and> rt_rto (ts_retransmission_timer t') =
             (if 0 < ts_receiver_window_size t then rt_rto timer * 2 else ucast (ts_initial_retransmission_timeout t))
       else t' = t\<lparr>ts_retransmission_timer := timer\<lparr>rt_accumulate_time :=
              (if rt_is_running timer then rt_accumulate_time timer + ms else rt_accumulate_time timer)\<rparr>\<rparr>
         \<and> ts_segments_out t' = ts_segments_out t
         \<and> consecutive_retransmissions t' = consecutive_retransmissions t)
    \<and> ts_outstanding_segments t' = ts_outstanding_segments t
    \<and> rt_is_running (ts_retransmission_timer t') = rt_is_running timer"
proof -
  have "snd (check_timeout timer ms) \<longleftrightarrow> rt_is_running timer \<and> rt_rto timer \<le> rt_accumulate_time timer + ms"
    by (simp add: check_timeout_def Let_def)
  moreover obtain timer' where t': "rt_is_running timer' = rt_is_running (ts_retransmission_timer t)"
      and eq: "if snd (check_timeout (ts_retransmission_timer t) ms)
     then ts_outstanding_segments t \<noteq> []
       \<and> tick t ms = Inr (t\<lparr>ts_retransmission_timer := timer',
            ts_consecutive_retransmissions := ts_consecutive_retransmissions t + 1,
            ts_segments_out := ts_segments_out t @ [hd (ts_outstanding_segments t)]\<rparr>)
       \<and> rt_accumulate_time timer' = 0
       \<and> rt_rto timer' = (if 0 < ts_receiver_window_size t then rt_rto (ts_retransmission_timer t) * 2
                          else ucast (ts_initial_retransmission_timeout t))
     else timer' = fst (check_timeout (ts_retransmission_timer t) ms)
       \<and> tick t ms = Inr (t\<lparr>ts_retransmission_timer := timer'\<rparr>)"
    using tick_eq [OF assms(1), of ms] by blast
  ultimately show ?thesis
    by (cases "snd (check_timeout (ts_retransmission_timer t) ms)")
      (simp_all add: timer_def consecutive_retransmissions_def check_timeout_def Let_def)
qed

theorem tick_correct_witness:
  "(\<exists>t'. tick demo_sender 1000 = Inr t' \<and> rt_rto (ts_retransmission_timer t') = 2000
      \<and> consecutive_retransmissions t' = 1)
   \<and> (\<exists>t'. tick demo_sender 999 = Inr t' \<and> rt_accumulate_time (ts_retransmission_timer t') = 999
      \<and> consecutive_retransmissions t' = 0)"
proof -
  have "rt_is_running (ts_retransmission_timer demo_sender)" "rt_rto (ts_retransmission_timer demo_sender) = 1000"
      "rt_accumulate_time (ts_retransmission_timer demo_sender) = 0" "ts_receiver_window_size demo_sender = 1"
      "consecutive_retransmissions demo_sender = 0"
    by (simp_all add: demo_sender_def start_timer_def RetransmissionTimer_new_def TCPSender_new_def
        consecutive_retransmissions_def)
  then show ?thesis
    using tick_correct [OF demo_sender_inv, of 1000] tick_correct [OF demo_sender_inv, of 999] by auto
qed

end
