(* ===== verification/TCP_Receiver.thy ===== *)
theory TCP_Receiver
  imports Stream_Segments
begin

text \<open>
  The class \<open>TCPReceiver\<close> of \<open>tcp_receiver.hh\<close> and \<open>tcp_receiver.cc\<close>. A run of received segments
  and reads is shown to be a run of the reassembler on the excerpts the segments carry, so that the
  contract \<open>assembler\<close> of the reassembler gives the receiver's guarantees.
\<close>

section \<open>Definitions\<close>

record TCPReceiver =
  rc_reassembler :: StreamReassembler
  rc_capacity :: u64
  rc_isn :: "WrappingInt32 option"

definition TCPReceiver_new :: "u64 \<Rightarrow> TCPReceiver" where
  "TCPReceiver_new capacity =
     \<lparr>rc_reassembler = StreamReassembler_new capacity, rc_capacity = capacity, rc_isn = None\<rparr>"

definition segment_received :: "TCPReceiver \<Rightarrow> TCPSegment \<Rightarrow> TCPReceiver result" where
  "segment_received rc seg =
     (let header = seg_header seg;
          rest = (\<lambda>rc isn.
            let checkpoint = ByteStream_bytes_written (sr_output (rc_reassembler rc));
                abs_seq = unwrap (th_seqno header) isn checkpoint;
                stream_index = abs_seq - 1 + (if th_syn header then 1 else 0)
            in try_bind (push_substring (rc_reassembler rc) (Buffer_copy (seg_payload seg))
                          stream_index (th_fin header))
                 (\<lambda>r'. Inr (rc\<lparr>rc_reassembler := r'\<rparr>)))
      in case rc_isn rc of
           None \<Rightarrow> if \<not> th_syn header then Inr rc
                   else rest (rc\<lparr>rc_isn := Some (th_seqno header)\<rparr>) (th_seqno header)
         | Some isn \<Rightarrow> rest rc isn)"

definition TCPReceiver_ackno :: "TCPReceiver \<Rightarrow> WrappingInt32 option" where
  "TCPReceiver_ackno rc =
     (case rc_isn rc of
        None \<Rightarrow> None
      | Some isn \<Rightarrow>
          let out = sr_output (rc_reassembler rc);
              abs_seqno = ByteStream_bytes_written out + 1 + (if ByteStream_input_ended out then 1 else 0)
          in Some (wrap abs_seqno isn))"

definition TCPReceiver_window_size :: "TCPReceiver \<Rightarrow> u64" where
  "TCPReceiver_window_size rc = ByteStream_remaining_capacity (sr_output (rc_reassembler rc))"

definition TCPReceiver_unassembled_bytes :: "TCPReceiver \<Rightarrow> u64" where
  "TCPReceiver_unassembled_bytes rc = unassembled_bytes (rc_reassembler rc)"

text \<open>The reader's access through \<open>stream_out()\<close>.\<close>

definition TCPReceiver_read :: "TCPReceiver \<Rightarrow> u64 \<Rightarrow> TCPReceiver \<times> bytes" where
  "TCPReceiver_read rc n =
     (let (r', d) = stream_out_read (rc_reassembler rc) n in (rc\<lparr>rc_reassembler := r'\<rparr>, d))"

section \<open>Runs of the receiver\<close>

datatype receiver_op = Segment TCPSegment | Read u64

fun receiver_run :: "receiver_op list \<Rightarrow> TCPReceiver \<Rightarrow> (TCPReceiver \<times> bytes) result" where
  "receiver_run [] rc = Inr (rc, [])"
| "receiver_run (Segment seg # ops) rc = try_bind (segment_received rc seg) (receiver_run ops)"
| "receiver_run (Read n # ops) rc =
     (let (rc1, d) = TCPReceiver_read rc n
      in try_bind (receiver_run ops rc1) (\<lambda>(rc2, taken). Inr (rc2, d @ taken)))"

fun op_genuine :: "WrappingInt32 \<Rightarrow> bytes \<Rightarrow> receiver_op \<Rightarrow> bool" where
  "op_genuine isn s (Segment seg) = genuine_segment isn s seg"
| "op_genuine isn s (Read n) = True"

text \<open>The run of the reassembler that a run of the receiver amounts to: pushes start with the SYN.\<close>

fun assembler_ops :: "WrappingInt32 \<Rightarrow> bool \<Rightarrow> receiver_op list \<Rightarrow> assembler_op list" where
  "assembler_ops isn syn [] = []"
| "assembler_ops isn syn (Segment seg # ops) =
     (if syn \<or> th_syn (seg_header seg)
      then Push (Buffer_str (seg_payload seg)) (seg_index isn seg) (th_fin (seg_header seg))
             # assembler_ops isn True ops
      else assembler_ops isn False ops)"
| "assembler_ops isn syn (Read n # ops) = Pull n # assembler_ops isn syn ops"

lemma assembler_ops_excerpt:
  "list_all (op_genuine isn s) ops \<Longrightarrow> list_all (op_excerpt s) (assembler_ops isn syn ops)"
  by (induction isn syn ops rule: assembler_ops.induct) (auto simp: genuine_segment_def)

section \<open>The simulation\<close>

text \<open>Decoding with the running checkpoint gives the index the segment was sent for.\<close>

lemma received_index:
  assumes seg: "genuine_segment isn s seg" and s: "length s < 2 ^ 31 - 2"
    and cp: "unat cp \<le> length s"
  shows "unwrap (th_seqno (seg_header seg)) isn cp - 1 + (if th_syn (seg_header seg) then 1 else 0)
    = seg_index isn seg"
proof (cases "th_syn (seg_header seg)")
  case True
  then have "th_seqno (seg_header seg) = wrap 0 isn" using seg by (simp add: genuine_segment_def wrap_zero)
  moreover have "near_seq 0 cp" using cp s by (simp add: near_seq_def)
  ultimately show ?thesis using True by (simp add: seg_index_def wi.dec_enc)
next
  case False
  let ?x = "unwrap (th_seqno (seg_header seg)) isn 0"
  have "unat ?x \<le> length s + 2" using seg by (simp add: genuine_segment_def)
  then have "near_seq ?x cp" using cp s by (simp add: near_seq_def)
  moreover have "th_seqno (seg_header seg) = wrap ?x isn" by (simp add: wi.enc_dec)
  ultimately have "unwrap (th_seqno (seg_header seg)) isn cp = ?x" by (metis wi.dec_enc)
  then show ?thesis using False by (simp add: seg_index_def)
qed

definition rcv_tracks :: "WrappingInt32 \<Rightarrow> bytes \<Rightarrow> TCPReceiver \<Rightarrow> bool" where
  "rcv_tracks isn s rc \<longleftrightarrow> sr_tracks s (rc_reassembler rc) \<and> length s < 2 ^ 31 - 2
     \<and> (rc_isn rc = None \<or> rc_isn rc = Some isn)"

lemma segment_received_push:
  assumes rc: "rcv_tracks isn s rc" and seg: "genuine_segment isn s seg"
    and est: "rc_isn rc = Some isn \<or> th_syn (seg_header seg)"
  shows "\<exists>r'. segment_received rc seg = Inr (rc\<lparr>rc_reassembler := r', rc_isn := Some isn\<rparr>)
    \<and> push_substring (rc_reassembler rc) (Buffer_str (seg_payload seg)) (seg_index isn seg)
         (th_fin (seg_header seg)) = Inr r'
    \<and> sr_tracks s r'"
proof -
  let ?cp = "ByteStream_bytes_written (sr_output (rc_reassembler rc))"
  have "unat ?cp \<le> length s"
    using rc sr_tracksD(3) by (auto simp: rcv_tracks_def sr_next_def ByteStream_bytes_written_def)
  then have ix: "unwrap (th_seqno (seg_header seg)) isn ?cp - 1
      + (if th_syn (seg_header seg) then 1 else 0) = seg_index isn seg"
    using received_index [OF seg] rc by (simp add: rcv_tracks_def)
  obtain r' where r': "push_substring (rc_reassembler rc) (Buffer_str (seg_payload seg)) (seg_index isn seg)
      (th_fin (seg_header seg)) = Inr r'" "sr_tracks s r'"
    using sr.push_ok rc seg by (meson genuine_segment_def rcv_tracks_def)
  have "rc_isn rc = None \<Longrightarrow> th_seqno (seg_header seg) = isn"
    using est seg by (simp add: genuine_segment_def)
  then have "segment_received rc seg = Inr (rc\<lparr>rc_reassembler := r', rc_isn := Some isn\<rparr>)"
    using rc est ix r'(1)
    by (cases rc) (auto simp: segment_received_def Let_def rcv_tracks_def Buffer_copy_def)
  with r' show ?thesis by blast
qed

lemma segment_received_early:
  "rc_isn rc = None \<Longrightarrow> \<not> th_syn (seg_header seg) \<Longrightarrow> segment_received rc seg = Inr rc"
  by (simp add: segment_received_def)

fun op_syn :: "receiver_op \<Rightarrow> bool" where
  "op_syn (Segment seg) = th_syn (seg_header seg)"
| "op_syn (Read n) = False"

lemma read_tracks:
  "rcv_tracks isn s rc \<Longrightarrow> rcv_tracks isn s (fst (TCPReceiver_read rc n))
     \<and> rc_isn (fst (TCPReceiver_read rc n)) = rc_isn rc
     \<and> TCPReceiver_read rc n = (rc\<lparr>rc_reassembler := fst (stream_out_read (rc_reassembler rc) n)\<rparr>,
          snd (stream_out_read (rc_reassembler rc) n))"
  using sr.pull_tracks [of s "rc_reassembler rc" n]
  by (simp add: TCPReceiver_read_def split_def Let_def rcv_tracks_def)

lemma receiver_simulates:
  assumes "rcv_tracks isn s rc" and "list_all (op_genuine isn s) ops"
  shows "\<exists>rc' taken. receiver_run ops rc = Inr (rc', taken) \<and> rcv_tracks isn s rc'
    \<and> assembler_run push_substring stream_out_read (assembler_ops isn (rc_isn rc \<noteq> None) ops)
         (rc_reassembler rc) = Inr (rc_reassembler rc', taken)
    \<and> rc_isn rc' = (if rc_isn rc \<noteq> None \<or> list_ex op_syn ops then Some isn else None)"
  using assms
proof (induction ops arbitrary: rc)
  case Nil
  then show ?case by (auto simp: rcv_tracks_def)
next
  case (Cons oper ops)
  show ?case
  proof (cases oper)
    case (Read n)
    let ?rc = "fst (TCPReceiver_read rc n)"
    note rd = read_tracks [OF Cons.prems(1), of n]
    obtain rc' taken where "receiver_run ops ?rc = Inr (rc', taken)" "rcv_tracks isn s rc'"
        "assembler_run push_substring stream_out_read (assembler_ops isn (rc_isn rc \<noteq> None) ops)
           (rc_reassembler ?rc) = Inr (rc_reassembler rc', taken)"
        "rc_isn rc' = (if rc_isn rc \<noteq> None \<or> list_ex op_syn ops then Some isn else None)"
      using Cons.IH [of ?rc] Cons.prems(2) rd by auto
    then show ?thesis using rd by (simp add: Read split_def)
  next
    case (Segment seg)
    have seg: "genuine_segment isn s seg" using Cons.prems(2) by (simp add: Segment)
    show ?thesis
    proof (cases "rc_isn rc = None \<and> \<not> th_syn (seg_header seg)")
      case True
      then show ?thesis
        using Cons.IH [OF Cons.prems(1)] Cons.prems(2) by (simp add: Segment segment_received_early)
    next
      case False
      then have est: "rc_isn rc = Some isn \<or> th_syn (seg_header seg)"
        using Cons.prems(1) by (auto simp: rcv_tracks_def)
      obtain r' where r': "segment_received rc seg = Inr (rc\<lparr>rc_reassembler := r', rc_isn := Some isn\<rparr>)"
          "push_substring (rc_reassembler rc) (Buffer_str (seg_payload seg)) (seg_index isn seg)
             (th_fin (seg_header seg)) = Inr r'" "sr_tracks s r'"
        using segment_received_push [OF Cons.prems(1) seg est] by blast
      have "rcv_tracks isn s (rc\<lparr>rc_reassembler := r', rc_isn := Some isn\<rparr>)"
        using r'(3) Cons.prems(1) by (simp add: rcv_tracks_def)
      from Cons.IH [OF this] Cons.prems(2) False r' show ?thesis by (auto simp: Segment)
    qed
  qed
qed

lemma rcv_tracks_new:
  "0 < unat cap \<Longrightarrow> length s + unat cap < 2 ^ 64 \<Longrightarrow> length s < 2 ^ 31 - 2 \<Longrightarrow>
   rcv_tracks isn s (TCPReceiver_new cap)"
  by (simp add: rcv_tracks_def TCPReceiver_new_def sr_tracks_new)

lemma ackno_tracks:
  assumes rc: "rcv_tracks isn s rc" and "rc_isn rc = Some isn"
  defines "next \<equiv> sr_next (rc_reassembler rc) + (if bs_end_write (sr_output (rc_reassembler rc)) then 1 else 0)"
  shows "\<exists>a. TCPReceiver_ackno rc = Some (wrap a isn) \<and> unat a = next + 1"
proof -
  have le: "sr_next (rc_reassembler rc) \<le> length s" "length s < 2 ^ 31 - 2"
    using rc sr_tracksD(3) by (auto simp: rcv_tracks_def)
  let ?w = "bs_written_bytes (sr_output (rc_reassembler rc))"
  have w: "unat ?w = sr_next (rc_reassembler rc)" by (simp add: sr_next_def)
  have "unat (?w + 1) = sr_next (rc_reassembler rc) + 1"
    using le w by (simp add: unat_add_small)
  then have "unat (?w + 1 + (if bs_end_write (sr_output (rc_reassembler rc)) then 1 else 0)) = next + 1"
    using le by (simp add: unat_add_small next_def)
  then show ?thesis
    using assms(2)
    by (auto simp: TCPReceiver_ackno_def Let_def ByteStream_bytes_written_def ByteStream_input_ended_def)
qed

lemma window_tracks:
  assumes "rcv_tracks isn s rc"
  shows "unat (TCPReceiver_window_size rc) + length (bs_buffer (sr_output (rc_reassembler rc)))
    = unat (sr_capacity (rc_reassembler rc))"
proof -
  have inv: "bs_inv (sr_output (rc_reassembler rc))"
      "bs_capacity (sr_output (rc_reassembler rc)) = sr_capacity (rc_reassembler rc)"
    using assms sr_tracksD(1) by (auto simp: rcv_tracks_def sr_inv_def)
  then show ?thesis
    using unat_remaining [OF inv(1)]
    by (simp add: TCPReceiver_window_size_def bs_room_def bs_inv_def)
qed

section \<open>Properties\<close>

text \<open>
  C8. The receiver delivers the sender's stream, for streams shorter than \<open>2^31 - 2\<close> bytes: over every
  sequence of segments of the stream \<open>s\<close> (in any order, repeated, overlapping, before or after the SYN) and reads, no operation fails; what
  the reader has taken and can still take is a prefix of \<open>s\<close>, all of it once the stream has ended;
  the acknowledgement number, once the SYN is in, is the initial sequence number plus one for the
  SYN, the bytes assembled, and one for an assembled FIN; and the advertised window is exactly the
  free capacity.
\<close>

theorem receiver_prefix:
  assumes "0 < unat cap" and "length s + unat cap < 2 ^ 64" and "length s < 2 ^ 31 - 2"
    and "list_all (op_genuine isn s) ops"
  shows "\<exists>rc taken n. receiver_run ops (TCPReceiver_new cap) = Inr (rc, taken)
    \<and> taken @ bs_buffer (sr_output (rc_reassembler rc)) = take n s \<and> n \<le> length s
    \<and> (ByteStream_input_ended (sr_output (rc_reassembler rc)) \<longrightarrow> n = length s)
    \<and> (if list_ex op_syn ops
       then \<exists>a. TCPReceiver_ackno rc = Some (wrap a isn)
         \<and> unat a = 1 + n + (if ByteStream_input_ended (sr_output (rc_reassembler rc)) then 1 else 0)
       else TCPReceiver_ackno rc = None)
    \<and> unat (TCPReceiver_window_size rc) + length (bs_buffer (sr_output (rc_reassembler rc))) = unat cap"
proof -
  note new = rcv_tracks_new [OF assms(1-3), of isn]
  obtain rc taken where rc: "receiver_run ops (TCPReceiver_new cap) = Inr (rc, taken)" "rcv_tracks isn s rc"
      "assembler_run push_substring stream_out_read (assembler_ops isn False ops) (StreamReassembler_new cap)
         = Inr (rc_reassembler rc, taken)"
      "rc_isn rc = (if list_ex op_syn ops then Some isn else None)"
    using receiver_simulates [OF new assms(4)] by (auto simp: TCPReceiver_new_def)
  let ?n = "sr_next (rc_reassembler rc)"
  have "taken @ bs_buffer (sr_output (rc_reassembler rc)) = take ?n s"
    using sr.run_ok [OF sr_tracks_new [OF assms(1,2)] assembler_ops_excerpt [OF assms(4), of False]] rc(3)
    by (auto simp: StreamReassembler_new_def ByteStream_new_def sr_next_def)
  moreover have "?n \<le> length s" "bs_end_write (sr_output (rc_reassembler rc)) \<longrightarrow> ?n = length s"
    using rc(2) sr_tracksD(3,6) by (auto simp: rcv_tracks_def)
  moreover have "rc_isn rc = None \<Longrightarrow> TCPReceiver_ackno rc = None"
    by (simp add: TCPReceiver_ackno_def)
  moreover have "sr_capacity (rc_reassembler rc) = cap"
    using run_capacity [OF sr_tracks_new [OF assms(1,2)] assembler_ops_excerpt [OF assms(4)] rc(3)]
    by (simp add: StreamReassembler_new_def)
  ultimately show ?thesis
    using rc(1,4) ackno_tracks [OF rc(2)] window_tracks [OF rc(2)]
    by (intro exI [of _ rc] exI [of _ taken] exI [of _ ?n]) (auto simp: ByteStream_input_ended_def)
qed

definition demo_segment :: "WrappingInt32 \<Rightarrow> bool \<Rightarrow> bytes \<Rightarrow> bool \<Rightarrow> TCPSegment" where
  "demo_segment seqno syn data fin =
     \<lparr>seg_header = TCPHeader_default\<lparr>th_seqno := seqno, th_syn := syn, th_fin := fin\<rparr>,
      seg_payload = Buffer_of_string data\<rparr>"

lemma demo_genuine:
  "op_genuine (WrappingInt32 4294967295) [1, 2, 3]
     (Segment (demo_segment (WrappingInt32 4294967295) True [] False))"
  "op_genuine (WrappingInt32 4294967295) [1, 2, 3]
     (Segment (demo_segment (WrappingInt32 1) False [2, 3] True))"
  "op_genuine (WrappingInt32 4294967295) [1, 2, 3]
     (Segment (demo_segment (WrappingInt32 0) False [1] False))"
proof -
  have "WrappingInt32 1 = wrap 2 (WrappingInt32 4294967295)" "WrappingInt32 0 = wrap 1 (WrappingInt32 4294967295)"
    by (simp_all add: wrap_def wi_plus_def)
  then have "unwrap (WrappingInt32 1) (WrappingInt32 4294967295) 0 = 2"
      "unwrap (WrappingInt32 0) (WrappingInt32 4294967295) 0 = 1"
    using wi.dec_enc [of 2 0] wi.dec_enc [of 1 0] by (simp_all add: near_seq_def)
  then show "op_genuine (WrappingInt32 4294967295) [1, 2, 3]
     (Segment (demo_segment (WrappingInt32 4294967295) True [] False))"
    "op_genuine (WrappingInt32 4294967295) [1, 2, 3]
       (Segment (demo_segment (WrappingInt32 1) False [2, 3] True))"
    "op_genuine (WrappingInt32 4294967295) [1, 2, 3]
       (Segment (demo_segment (WrappingInt32 0) False [1] False))"
    by (simp_all add: genuine_segment_def excerpt_def seg_index_def demo_segment_def)
qed

theorem receiver_prefix_witness:
  "\<exists>rc taken n. receiver_run [Segment (demo_segment (WrappingInt32 4294967295) True [] False),
        Segment (demo_segment (WrappingInt32 1) False [2, 3] True), Read 0] (TCPReceiver_new 10) = Inr (rc, taken)
    \<and> taken @ bs_buffer (sr_output (rc_reassembler rc)) = take n [1, 2, 3]"
  using receiver_prefix [of 10 "[1, 2, 3]" "WrappingInt32 4294967295"
      "[Segment (demo_segment (WrappingInt32 4294967295) True [] False),
        Segment (demo_segment (WrappingInt32 1) False [2, 3] True), Read 0]"] demo_genuine by fastforce

text \<open>
  C9. Nothing is lost at the receiver, for streams shorter than \<open>2^31 - 2\<close> bytes: once the SYN has arrived first and segments covering every
  index of \<open>s\<close>, among them one with FIN, have arrived in any order, and the capacity is at least the
  length of \<open>s\<close>, the reader gets all of \<open>s\<close>, the stream has ended, and the acknowledgement number
  covers SYN, data and FIN.
\<close>

theorem receiver_complete:
  assumes "0 < unat cap" and "length s \<le> unat cap" and "length s + unat cap < 2 ^ 64"
    and "length s < 2 ^ 31 - 2" and "genuine_segment isn s syn" and "th_syn (seg_header syn)"
    and "list_all (op_genuine isn s) ops"
    and "\<And>j. j < length s \<Longrightarrow> list_ex (op_covers j) (assembler_ops isn True ops)"
    and "list_ex op_ends (assembler_ops isn True ops)"
  shows "\<exists>rc taken. receiver_run (Segment syn # ops) (TCPReceiver_new cap) = Inr (rc, taken)
    \<and> taken @ bs_buffer (sr_output (rc_reassembler rc)) = s
    \<and> ByteStream_input_ended (sr_output (rc_reassembler rc))
    \<and> (\<exists>a. TCPReceiver_ackno rc = Some (wrap a isn) \<and> unat a = length s + 2)"
proof -
  let ?ops = "Segment syn # ops" and ?r0 = "StreamReassembler_new cap"
  have gen: "list_all (op_genuine isn s) ?ops" using assms(5,7) by simp
  obtain rc taken where rc: "receiver_run ?ops (TCPReceiver_new cap) = Inr (rc, taken)" "rcv_tracks isn s rc"
      and run: "assembler_run push_substring stream_out_read (assembler_ops isn False ?ops) ?r0
         = Inr (rc_reassembler rc, taken)" and isn: "rc_isn rc = Some isn"
    using receiver_simulates [OF rcv_tracks_new [OF assms(1,3,4)] gen] assms(6)
    by (auto simp: TCPReceiver_new_def)
  have track: "sr_tracks s (rc_reassembler rc)" using rc(2) by (simp add: rcv_tracks_def)
  have cap: "length s \<le> unat (sr_capacity ?r0)" using assms(2) by (simp add: StreamReassembler_new_def)
  note has = run_has [OF sr_tracks_new [OF assms(1,3)] assembler_ops_excerpt [OF gen, of False] cap run]
  have "\<not> sr_next (rc_reassembler rc) < length s"
    using has [of "sr_next (rc_reassembler rc)"] assms(6,8) sr_has_front [OF sr_tracksD(1) [OF track]]
    by auto
  then have all: "sr_next (rc_reassembler rc) = length s" using sr_tracksD(3) [OF track] by simp
  have ended: "bs_end_write (sr_output (rc_reassembler rc))"
    using has assms(6,9) all sr_tracksD(6) [OF track] by auto
  have "taken @ bs_buffer (sr_output (rc_reassembler rc)) = s"
    using sr.run_ok [OF sr_tracks_new [OF assms(1,3)] assembler_ops_excerpt [OF gen, of False]] run all
    by (auto simp: StreamReassembler_new_def ByteStream_new_def sr_next_def)
  then show ?thesis
    using rc(1) ended ackno_tracks [OF rc(2) isn] all by (auto simp: ByteStream_input_ended_def)
qed

theorem receiver_complete_witness:
  "\<exists>rc taken. receiver_run [Segment (demo_segment (WrappingInt32 4294967295) True [] False),
        Segment (demo_segment (WrappingInt32 1) False [2, 3] True), Read 0,
        Segment (demo_segment (WrappingInt32 0) False [1] False)] (TCPReceiver_new 10) = Inr (rc, taken)
    \<and> taken @ bs_buffer (sr_output (rc_reassembler rc)) = [1, 2, 3]"
proof -
  let ?isn = "WrappingInt32 4294967295"
  let ?a = "demo_segment (WrappingInt32 1) False [2, 3] True"
    and ?b = "demo_segment (WrappingInt32 0) False [1] False"
  have "?isn = wrap 0 ?isn" "WrappingInt32 1 = wrap 2 ?isn" "WrappingInt32 0 = wrap 1 ?isn"
    by (simp_all add: wrap_def wi_plus_def)
  then have "seg_index ?isn ?a = 1" "seg_index ?isn ?b = 0"
    using wi.dec_enc [of 2 0] wi.dec_enc [of 1 0] by (simp_all add: near_seq_def seg_index_def demo_segment_def)
  then have ops: "assembler_ops ?isn True [Segment ?a, Read 0, Segment ?b] = [Push [2, 3] 1 True, Pull 0, Push [1] 0 False]"
    by (simp add: demo_segment_def)
  have "\<exists>rc taken. receiver_run (Segment (demo_segment ?isn True [] False) # [Segment ?a, Read 0, Segment ?b])
      (TCPReceiver_new 10) = Inr (rc, taken)
    \<and> taken @ bs_buffer (sr_output (rc_reassembler rc)) = [1, 2, 3]
    \<and> ByteStream_input_ended (sr_output (rc_reassembler rc))
    \<and> (\<exists>a. TCPReceiver_ackno rc = Some (wrap a ?isn) \<and> unat a = length [1, 2, 3 :: u8] + 2)"
  proof (rule receiver_complete)
    show "list_ex (op_covers j) (assembler_ops ?isn True [Segment ?a, Read 0, Segment ?b])"
      if "j < length [1, 2, 3 :: u8]" for j
      unfolding ops using that by auto
    show "list_ex op_ends (assembler_ops ?isn True [Segment ?a, Read 0, Segment ?b])"
      unfolding ops by simp
    show "genuine_segment ?isn [1, 2, 3] (demo_segment ?isn True [] False)"
        "list_all (op_genuine ?isn [1, 2, 3]) [Segment ?a, Read 0, Segment ?b]"
      using demo_genuine by auto
  qed (simp_all add: demo_segment_def)
  then show ?thesis by auto
qed

text \<open>
  C37. A stray FIN closes the stream. A segment that carries no SYN but the initial sequence number
  itself has stream index \<open>0 - 1\<close>, which wraps to \<open>2^64 - 1\<close>; with FIN set and one byte more payload
  than has been assembled, its end wraps back onto the next expected index. The receiver then ends
  the stream without storing a byte and acknowledges a FIN it has never been sent.
\<close>

theorem stray_fin_ends_stream:
  assumes "rc_isn rc = Some isn" and "th_seqno (seg_header seg) = isn" and "\<not> th_syn (seg_header seg)"
    and "th_fin (seg_header seg)"
    and "unat (ByteStream_bytes_written (sr_output (rc_reassembler rc))) < 2 ^ 31"
    and "length (Buffer_str (seg_payload seg)) = unat (ByteStream_bytes_written (sr_output (rc_reassembler rc))) + 1"
  shows "\<exists>rc'. segment_received rc seg = Inr rc'
    \<and> ByteStream_input_ended (sr_output (rc_reassembler rc'))
    \<and> ByteStream_bytes_written (sr_output (rc_reassembler rc'))
        = ByteStream_bytes_written (sr_output (rc_reassembler rc))
    \<and> TCPReceiver_ackno rc' = Some (wrap (ByteStream_bytes_written (sr_output (rc_reassembler rc)) + 2) isn)"
proof -
  let ?r = "rc_reassembler rc" and ?data = "Buffer_str (seg_payload seg)"
  let ?w = "bs_written_bytes (sr_output ?r)"
  let ?r' = "?r\<lparr>sr_eof_flag := True, sr_eof_index := ?w, sr_output := ByteStream_end_input (sr_output ?r)\<rparr>"
  have "near_seq 0 ?w" using assms(5) by (simp add: near_seq_def ByteStream_bytes_written_def)
  then have ix: "unwrap isn isn ?w = 0" using wi.dec_enc [of 0 ?w isn] by (simp add: wrap_zero)
  have "size_t ?data = ?w + 1"
    using assms(6) by (simp add: size_t_def ByteStream_bytes_written_def)
  then have "push_substring ?r ?data (0 - 1) True = Inr ?r'"
    by (simp add: push_substring_def Let_def sr_mark_eof_def sr_end_if_complete_def
        ByteStream_bytes_written_def)
  then have "segment_received rc seg = Inr (rc\<lparr>rc_reassembler := ?r'\<rparr>)"
    using assms(1-4) ix
    by (simp add: segment_received_def Let_def Buffer_copy_def ByteStream_bytes_written_def)
  then show ?thesis
    using assms(1)
    by (simp add: TCPReceiver_ackno_def Let_def ByteStream_input_ended_def ByteStream_end_input_def
        ByteStream_bytes_written_def add.commute)
qed

theorem stray_fin_ends_stream_witness:
  "\<exists>rc'. segment_received ((TCPReceiver_new 10)\<lparr>rc_isn := Some (WrappingInt32 7)\<rparr>)
        (demo_segment (WrappingInt32 7) False [65] True) = Inr rc'
    \<and> ByteStream_input_ended (sr_output (rc_reassembler rc'))"
  using stray_fin_ends_stream [of "(TCPReceiver_new 10)\<lparr>rc_isn := Some (WrappingInt32 7)\<rparr>" "WrappingInt32 7"
      "demo_segment (WrappingInt32 7) False [65] True"]
  by (auto simp: demo_segment_def TCPReceiver_new_def StreamReassembler_new_def ByteStream_new_def
      ByteStream_bytes_written_def)

end
