(* ===== verification/TCP_State.thy ===== *)
theory TCP_State
  imports TCP_Sender TCP_Receiver
begin

text \<open>
  The summaries of \<open>tcp_state.hh\<close> and \<open>tcp_state.cc\<close>: the state of a sender or of a receiver as one
  of a few strings, which the tests compare with the states of the TCP standard.
\<close>

section \<open>Definitions\<close>

definition Receiver_ERROR :: string where
  "Receiver_ERROR = ''error (connection was reset)''"

definition Receiver_LISTEN :: string where
  "Receiver_LISTEN = ''waiting for SYN: ackno is empty''"

definition Receiver_SYN_RECV :: string where
  "Receiver_SYN_RECV = ''SYN received (ackno exists), and input to stream hasn't ended''"

definition Receiver_FIN_RECV :: string where
  "Receiver_FIN_RECV = ''input to stream has ended''"

definition Sender_ERROR :: string where
  "Sender_ERROR = ''error (connection was reset)''"

definition Sender_CLOSED :: string where
  "Sender_CLOSED = ''waiting for stream to begin (no SYN sent)''"

definition Sender_SYN_SENT :: string where
  "Sender_SYN_SENT = ''stream started but nothing acknowledged''"

definition Sender_SYN_ACKED :: string where
  "Sender_SYN_ACKED = ''stream ongoing''"

definition Sender_FIN_SENT :: string where
  "Sender_FIN_SENT = ''stream finished (FIN sent) but not fully acknowledged''"

definition Sender_FIN_ACKED :: string where
  "Sender_FIN_ACKED = ''stream finished and fully acknowledged''"

lemmas summary_strings =
  Receiver_ERROR_def Receiver_LISTEN_def Receiver_SYN_RECV_def Receiver_FIN_RECV_def
  Sender_ERROR_def Sender_CLOSED_def Sender_SYN_SENT_def Sender_SYN_ACKED_def Sender_FIN_SENT_def Sender_FIN_ACKED_def

definition receiver_summary :: "TCPReceiver \<Rightarrow> string" where
  "receiver_summary receiver =
     (if ByteStream_error (sr_output (rc_reassembler receiver)) then Receiver_ERROR
      else if TCPReceiver_ackno receiver = None then Receiver_LISTEN
      else if ByteStream_input_ended (sr_output (rc_reassembler receiver)) then Receiver_FIN_RECV
      else Receiver_SYN_RECV)"

definition sender_summary :: "TCPSender \<Rightarrow> string" where
  "sender_summary sender =
     (if ByteStream_error (ts_stream sender) then Sender_ERROR
      else if next_seqno_absolute sender = 0 then Sender_CLOSED
      else if next_seqno_absolute sender = bytes_in_flight sender then Sender_SYN_SENT
      else if \<not> ByteStream_eof (ts_stream sender) then Sender_SYN_ACKED
      else if next_seqno_absolute sender < ByteStream_bytes_written (ts_stream sender) + 2 then Sender_SYN_ACKED
      else if bytes_in_flight sender \<noteq> 0 then Sender_FIN_SENT
      else Sender_FIN_ACKED)"

section \<open>Properties\<close>

text \<open>The test on the number of bytes written recognises a sent FIN.\<close>

lemma fin_sent_iff:
  assumes inv: "snd_inv s t" and "ts_next_seqno t \<noteq> 0" and eof: "ByteStream_eof (ts_stream t)"
  shows "next_seqno_absolute t < ByteStream_bytes_written (ts_stream t) + 2 \<longleftrightarrow> \<not> ts_set_fin_flag t"
proof -
  have nxt: "unat (ts_next_seqno t) = 1 + snd_bytes t + of_bool (ts_set_fin_flag t)"
    and small: "unat (ts_next_seqno t) < 2 ^ 63" and "bs_inv (ts_stream t)"
    using inv snd_next_small [of s t] assms(2) by (auto simp: snd_inv_def snd_stream_inv_def)
  then have w: "bs_written_bytes (ts_stream t) = bs_read_bytes (ts_stream t)"
    using eof by (simp add: bs_inv_def ByteStream_eof_def)
  have "snd_bytes t < 2 ^ 63" using nxt small by linarith
  then have "unat (bs_written_bytes (ts_stream t) + 2) = snd_bytes t + 2"
    by (simp add: w snd_bytes_def unat_add_small)
  then show ?thesis
    using nxt by (simp add: next_seqno_absolute_def ByteStream_bytes_written_def word_less_nat_alt)
qed

lemma sender_summary_eq:
  assumes inv: "snd_inv s t"
  shows "sender_summary t =
     (if bs_error (ts_stream t) then Sender_ERROR
      else if ts_next_seqno t = 0 then Sender_CLOSED
      else if ts_receiver_ack t = 0 then Sender_SYN_SENT
      else if \<not> ts_set_fin_flag t then Sender_SYN_ACKED
      else if ts_outstanding_segments t \<noteq> [] then Sender_FIN_SENT else Sender_FIN_ACKED)"
proof -
  have ack: "next_seqno_absolute t = bytes_in_flight t \<longleftrightarrow> ts_receiver_ack t = 0"
    by (simp add: next_seqno_absolute_def bytes_in_flight_def)
  have empty: "bytes_in_flight t = 0 \<longleftrightarrow> ts_outstanding_segments t = []"
  proof -
    have "bytes_in_flight t = 0 \<longleftrightarrow> in_flight t = 0"
      using bytes_in_flight_eq(1) [OF inv] by (metis unat_0 unat_eq_zero)
    moreover have "in_flight t = 0 \<longleftrightarrow> ts_outstanding_segments t = []"
      using inv by (cases "ts_outstanding_segments t") (auto simp: in_flight_def snd_inv_def snd_queue_inv_def)
    ultimately show ?thesis by simp
  qed
  have fin: "ts_set_fin_flag t \<Longrightarrow> ByteStream_eof (ts_stream t)"
    using inv by (simp add: snd_inv_def snd_stream_inv_def ByteStream_eof_def)
  show ?thesis
    using fin_sent_iff [OF inv] fin unfolding sender_summary_def ack empty
    by (auto simp: next_seqno_absolute_def ByteStream_error_def)
qed

text \<open>
  C21. The summaries say what they claim of every state a sender of a stream can reach: nothing sent;
  sent but nothing acknowledged; the FIN sent, with or without segments outstanding; or the stream
  under way. The receiver's summary is the same function of whether the SYN has come and the stream
  has ended. An error flag on the stream overrides all of them.
\<close>

theorem state_summary_correct:
  assumes inv: "snd_inv s t"
  shows "sender_summary t =
     (if bs_error (ts_stream t) then Sender_ERROR
      else if ts_next_seqno t = 0 then Sender_CLOSED
      else if ts_receiver_ack t = 0 then Sender_SYN_SENT
      else if \<not> ts_set_fin_flag t then Sender_SYN_ACKED
      else if ts_outstanding_segments t \<noteq> [] then Sender_FIN_SENT else Sender_FIN_ACKED)
    \<and> receiver_summary rc =
     (if bs_error (sr_output (rc_reassembler rc)) then Receiver_ERROR
      else case rc_isn rc of None \<Rightarrow> Receiver_LISTEN
      | Some _ \<Rightarrow> if bs_end_write (sr_output (rc_reassembler rc)) then Receiver_FIN_RECV else Receiver_SYN_RECV)"
  using sender_summary_eq [OF inv]
  by (auto simp: receiver_summary_def TCPReceiver_ackno_def Let_def ByteStream_error_def
      ByteStream_input_ended_def split: option.splits)

theorem state_summary_correct_witness:
  "sender_summary (TCPSender_new 10 1000 None 5) = ''waiting for stream to begin (no SYN sent)''"
  using state_summary_correct [OF snd_inv_new [of "[]" 10 1000 None 5]]
  by (simp add: TCPSender_new_def ByteStream_new_def Sender_CLOSED_def)

end
