(* ===== verification/Long_Streams.thy ===== *)
theory Long_Streams
  imports TCP_Receiver
begin

text \<open>
  Streams longer than the 32-bit sequence space. A sequence number then stands for many absolute
  numbers, and the receiver picks the one closest to what it has assembled. Receiving stays correct
  for streams up to \<open>2^63\<close> bytes as long as no segment arrives that is more than \<open>2^31\<close> numbers away
  from the receiver's position; the runs are those of an inductive reachability predicate.
\<close>

section \<open>Runs with segments near the position\<close>

abbreviation rc_position :: "TCPReceiver \<Rightarrow> u64" where
  "rc_position rc \<equiv> ByteStream_bytes_written (sr_output (rc_reassembler rc))"

inductive long_run :: "WrappingInt32 \<Rightarrow> bytes \<Rightarrow> u64 \<Rightarrow> TCPReceiver \<Rightarrow> bytes \<Rightarrow> bool" for isn s cap where
  start: "long_run isn s cap (TCPReceiver_new cap) []"
| segment: "long_run isn s cap rc taken \<Longrightarrow> carries isn s x seg \<Longrightarrow> rc_isn rc = None \<or> near_seq x (rc_position rc) \<Longrightarrow>
    segment_received rc seg = Inr rc' \<Longrightarrow> long_run isn s cap rc' taken"
| read: "long_run isn s cap rc taken \<Longrightarrow> TCPReceiver_read rc n = (rc', d) \<Longrightarrow> long_run isn s cap rc' (taken @ d)"

section \<open>The invariant\<close>

definition long_inv :: "WrappingInt32 \<Rightarrow> bytes \<Rightarrow> u64 \<Rightarrow> TCPReceiver \<Rightarrow> bytes \<Rightarrow> bool" where
  "long_inv isn s cap rc taken \<longleftrightarrow> sr_tracks s (rc_reassembler rc) \<and> sr_capacity (rc_reassembler rc) = cap
     \<and> (rc_isn rc = None \<and> sr_next (rc_reassembler rc) = 0 \<or> rc_isn rc = Some isn)
     \<and> taken @ bs_buffer (sr_output (rc_reassembler rc)) = take (sr_next (rc_reassembler rc)) s"

lemma position_next: "unat (rc_position rc) = sr_next (rc_reassembler rc)"
  by (simp add: ByteStream_bytes_written_def sr_next_def)

lemma long_inv_new:
  "0 < unat cap \<Longrightarrow> length s + unat cap < 2 ^ 64 \<Longrightarrow> long_inv isn s cap (TCPReceiver_new cap) []"
  using sr_tracks_new [of cap s]
  by (simp add: long_inv_def TCPReceiver_new_def StreamReassembler_new_def ByteStream_new_def sr_next_def)

text \<open>
  A segment near the position is decoded for the number it was sent for, and its payload pushed there.
\<close>

lemma near_push:
  assumes track: "sr_tracks s (rc_reassembler rc)" and isn: "rc_isn rc = None \<or> rc_isn rc = Some isn"
    and seg: "carries isn s x seg" and near: "near_seq x (rc_position rc)"
    and est: "\<not> (rc_isn rc = None \<and> \<not> th_syn (seg_header seg))"
  shows "\<exists>r'. segment_received rc seg = Inr (rc\<lparr>rc_reassembler := r', rc_isn := Some isn\<rparr>)
    \<and> push_post (rc_reassembler rc) (Buffer_str (seg_payload seg)) (pay_index x seg) (th_fin (seg_header seg)) r'
    \<and> sr_tracks s r' \<and> sr_next (rc_reassembler rc) \<le> sr_next r' \<and> sr_capacity r' = sr_capacity (rc_reassembler rc)
    \<and> bs_buffer (sr_output r') = bs_buffer (sr_output (rc_reassembler rc))
        @ take (sr_next r' - sr_next (rc_reassembler rc)) (drop (sr_next (rc_reassembler rc)) s)"
proof -
  let ?r = "rc_reassembler rc" and ?syn = "th_syn (seg_header seg)" and ?i = "pay_index x seg"
  have dec: "unwrap (th_seqno (seg_header seg)) isn (rc_position rc) = x"
    using seg near by (simp add: carries_def wi.dec_enc)
  have zero: "?syn \<Longrightarrow> x = 0" and seqno: "rc_isn rc = None \<Longrightarrow> th_seqno (seg_header seg) = isn"
    using seg est by (auto simp: carries_def wrap_zero)
  have ix: "x - 1 + (if ?syn then 1 else 0) = ?i" using zero by (simp add: pay_index_def)
  obtain r' where r': "push_substring ?r (Buffer_str (seg_payload seg)) ?i (th_fin (seg_header seg)) = Inr r'"
      "push_post ?r (Buffer_str (seg_payload seg)) ?i (th_fin (seg_header seg)) r'" "sr_tracks s r'" "sr_next ?r \<le> sr_next r'"
      "bs_buffer (sr_output r') = bs_buffer (sr_output ?r) @ take (sr_next r' - sr_next ?r) (drop (sr_next ?r) s)"
    using sr_push_tracks [OF track, of "Buffer_str (seg_payload seg)" ?i] seg unfolding carries_def by blast
  have "sr_capacity r' = sr_capacity ?r" using r'(2) unfolding push_post_def Let_def by blast
  moreover have "segment_received rc seg = Inr (rc\<lparr>rc_reassembler := r', rc_isn := Some isn\<rparr>)"
    using isn est seqno dec ix r'(1)
    by (cases rc) (auto simp: segment_received_def Let_def Buffer_copy_def)
  ultimately show ?thesis using r' by blast
qed

lemma long_segment:
  assumes inv: "long_inv isn s cap rc taken" and seg: "carries isn s x seg"
    and near: "rc_isn rc = None \<or> near_seq x (rc_position rc)"
  shows "\<exists>rc'. segment_received rc seg = Inr rc' \<and> long_inv isn s cap rc' taken
    \<and> (rc_isn rc' = None \<longleftrightarrow> rc_isn rc = None \<and> \<not> th_syn (seg_header seg))"
proof (cases "rc_isn rc = None \<and> \<not> th_syn (seg_header seg)")
  case True
  with inv show ?thesis by (simp add: segment_received_early)
next
  case False
  let ?r = "rc_reassembler rc"
  have "near_seq x (rc_position rc)"
  proof (cases "rc_isn rc = None")
    case True
    then have "x = 0" "unat (rc_position rc) = 0"
      using False inv seg by (auto simp: carries_def long_inv_def position_next)
    then show ?thesis by (simp add: near_seq_def)
  qed (use near in auto)
  then obtain r' where r': "segment_received rc seg = Inr (rc\<lparr>rc_reassembler := r', rc_isn := Some isn\<rparr>)"
      "sr_tracks s r'" "sr_next ?r \<le> sr_next r'" "sr_capacity r' = sr_capacity ?r"
      "bs_buffer (sr_output r') = bs_buffer (sr_output ?r) @ take (sr_next r' - sr_next ?r) (drop (sr_next ?r) s)"
    using near_push [OF _ _ seg _ False] inv by (auto simp: long_inv_def)
  have "take (sr_next ?r) s @ take (sr_next r' - sr_next ?r) (drop (sr_next ?r) s) = take (sr_next r') s"
    using take_add [of "sr_next ?r" "sr_next r' - sr_next ?r" s] r'(3) by simp
  then have "taken @ bs_buffer (sr_output r') = take (sr_next r') s"
    using inv r'(5) unfolding long_inv_def by (metis append.assoc)
  with inv r' False show ?thesis by (auto simp: long_inv_def)
qed

lemma long_read:
  assumes inv: "long_inv isn s cap rc taken" and rd: "TCPReceiver_read rc n = (rc', d)"
  shows "long_inv isn s cap rc' (taken @ d)"
proof -
  let ?p = "stream_out_read (rc_reassembler rc) n"
  have track: "sr_tracks s (rc_reassembler rc)" using inv by (simp add: long_inv_def)
  have rc': "rc' = rc\<lparr>rc_reassembler := fst ?p\<rparr>" "d = snd ?p"
    using rd by (auto simp: TCPReceiver_read_def Let_def split_def)
  have "bs_inv (sr_output (rc_reassembler rc))" using sr_tracksD(1) [OF track] by (simp add: sr_inv_def)
  then have "sr_capacity (fst ?p) = sr_capacity (rc_reassembler rc)" by (simp add: sr_read_eq)
  with inv sr_read_tracks [OF track, of n] sr.pull_unread [OF track, of n] show ?thesis
    by (simp add: long_inv_def rc')
qed

lemma long_run_inv:
  assumes "long_run isn s cap rc taken" and "0 < unat cap" and "length s + unat cap < 2 ^ 64"
  shows "long_inv isn s cap rc taken"
  using assms
proof (induction rule: long_run.induct)
  case start
  then show ?case by (rule long_inv_new)
next
  case (segment rc taken x seg rc')
  then show ?case using long_segment by fastforce
next
  case (read rc taken n rc' d)
  then show ?case using long_read by blast
qed

section \<open>Properties\<close>

text \<open>
  C10. Streams longer than the sequence space. Whatever segments of a stream arrive, as long as each
  has an absolute number below \<open>2^63\<close> that is at most \<open>2^31\<close> below and less than
  \<open>2^31\<close> above the receiver's position, the reader
  has a prefix of the stream, and all of it once the stream has ended; the acknowledgement number is
  the wrapped absolute number of the next byte, the window the free capacity; and the next such
  segment is again processed without failure.
\<close>

theorem receiver_long_stream:
  assumes "long_run isn s cap rc taken" and "0 < unat cap" and "length s + unat cap < 2 ^ 64"
  shows "\<exists>n \<le> length s. taken @ bs_buffer (sr_output (rc_reassembler rc)) = take n s
    \<and> (ByteStream_input_ended (sr_output (rc_reassembler rc)) \<longrightarrow> n = length s)
    \<and> (rc_isn rc \<noteq> None \<longrightarrow> TCPReceiver_ackno rc =
         Some (wrap (word_of_nat (1 + n + of_bool (ByteStream_input_ended (sr_output (rc_reassembler rc))))) isn))
    \<and> unat (TCPReceiver_window_size rc) + length (bs_buffer (sr_output (rc_reassembler rc))) = unat cap
    \<and> (\<forall>x seg. carries isn s x seg \<and> near_seq x (rc_position rc) \<longrightarrow> (\<exists>rc'. segment_received rc seg = Inr rc'))"
proof -
  note inv = long_run_inv [OF assms(1-3)]
  let ?r = "rc_reassembler rc"
  have track: "sr_tracks s ?r" and cap: "sr_capacity ?r = cap" using inv by (simp_all add: long_inv_def)
  have "bs_inv (sr_output ?r)" "bs_capacity (sr_output ?r) = cap"
    using sr_tracksD(1) [OF track] cap by (simp_all add: sr_inv_def)
  then have window: "unat (TCPReceiver_window_size rc) + length (bs_buffer (sr_output ?r)) = unat cap"
    using unat_remaining [of "sr_output ?r"] by (simp add: TCPReceiver_window_size_def bs_room_def bs_inv_def)
  have "TCPReceiver_ackno rc = Some (wrap (word_of_nat (1 + sr_next ?r + of_bool (ByteStream_input_ended (sr_output ?r)))) isn)"
    if "rc_isn rc \<noteq> None"
  proof -
    have "rc_position rc = word_of_nat (sr_next ?r)" by (simp flip: position_next)
    then show ?thesis
      using inv that by (auto simp: TCPReceiver_ackno_def long_inv_def ByteStream_bytes_written_def Let_def algebra_simps)
  qed
  moreover have "\<forall>x seg. carries isn s x seg \<and> near_seq x (rc_position rc) \<longrightarrow> (\<exists>rc'. segment_received rc seg = Inr rc')"
    using long_segment [OF inv] by blast
  ultimately show ?thesis
    using inv sr_tracksD(3,6) [OF track] window
    by (intro exI [of _ "sr_next ?r"]) (auto simp: long_inv_def ByteStream_input_ended_def)
qed

text \<open>A stream of three bytes whose sequence numbers wrap around: the SYN, then the last two bytes.\<close>

lemma demo_carries:
  "carries (WrappingInt32 4294967295) [1, 2, 3] 0 (demo_segment (WrappingInt32 4294967295) True [] False)"
  "carries (WrappingInt32 4294967295) [1, 2, 3] 2 (demo_segment (WrappingInt32 1) False [2, 3] True)"
  by (simp_all add: carries_def pay_index_def demo_segment_def excerpt_def wrap_def wi_plus_def)

lemma demo_long_run: "\<exists>rc. long_run (WrappingInt32 4294967295) [1, 2, 3] 10 rc [] \<and> rc_isn rc \<noteq> None"
proof -
  let ?isn = "WrappingInt32 4294967295" and ?s = "[1, 2, 3] :: bytes" and ?rc = "TCPReceiver_new 10"
  let ?syn = "demo_segment ?isn True [] False"
  have new: "long_run ?isn ?s 10 ?rc []" by (rule long_run.start)
  have "long_inv ?isn ?s 10 ?rc []" by (rule long_inv_new) simp_all
  moreover have none: "rc_isn ?rc = None" by (simp add: TCPReceiver_new_def)
  ultimately obtain rc where rc: "segment_received ?rc ?syn = Inr rc" "rc_isn rc \<noteq> None"
    using long_segment [of ?isn ?s 10 ?rc "[]" 0 ?syn] demo_carries(1) by (auto simp: demo_segment_def)
  have "long_run ?isn ?s 10 rc []"
    by (rule long_run.segment [OF new demo_carries(1) _ rc(1)]) (simp add: none)
  with rc(2) show ?thesis by blast
qed

theorem receiver_long_stream_witness:
  "\<exists>rc n. long_run (WrappingInt32 4294967295) [1, 2, 3] 10 rc []
    \<and> bs_buffer (sr_output (rc_reassembler rc)) = take n [1, 2, 3]
    \<and> TCPReceiver_ackno rc \<noteq> None"
proof -
  obtain rc where rc: "long_run (WrappingInt32 4294967295) [1, 2, 3] 10 rc []" "rc_isn rc \<noteq> None"
    using demo_long_run by blast
  have "0 < unat (10 :: u64)" "length ([1, 2, 3] :: bytes) + unat (10 :: u64) < 2 ^ 64" by simp_all
  from receiver_long_stream [OF rc(1) this] obtain n where
      "[] @ bs_buffer (sr_output (rc_reassembler rc)) = take n [1, 2, 3]"
      "rc_isn rc \<noteq> None \<longrightarrow> TCPReceiver_ackno rc \<noteq> None" by auto
  with rc show ?thesis by (intro exI [of _ rc] exI [of _ n]) simp
qed

end
