(* ===== verification/TCP_System.thy ===== *)
theory TCP_System
  imports TCP_State Long_Streams
begin

text \<open>
  A sender and a receiver joined by an unreliable network. Packets are the bytes that
  \<open>TCPSegment::serialize\<close> produces and \<open>TCPSegment::parse\<close> reads; the network may lose, duplicate and
  reorder them in both directions. The owner of the sender takes segments off its queue and fills in
  the fields that belong to the other direction before sending, as the comment on
  \<open>TCPSender::segments_out\<close> asks; the owner of the receiver answers with its acknowledgement number
  and a window of its choice.

  A 32-bit sequence number stands for many absolute ones, so the network must not delay a packet for
  ever: a packet arrives only while it is timely, that is while its absolute number lies within
  \<open>2^31\<close> of the position of the side it arrives at. To say so, the model of the network notes with each
  packet the absolute number it was sent for, which the program never sees. Streams shorter than
  \<open>2^31\<close> have timely packets only.
\<close>

section \<open>The system\<close>

record tcp_net =
  net_sender :: TCPSender
  net_receiver :: TCPReceiver
  net_wire :: "(u64 \<times> bytes) set"
  net_acks :: "(u64 \<times> bytes) set"
  net_delivered :: bytes

definition net_init :: "TCPSender \<Rightarrow> TCPReceiver \<Rightarrow> tcp_net" where
  "net_init t rc = \<lparr>net_sender = t, net_receiver = rc, net_wire = {}, net_acks = {}, net_delivered = []\<rparr>"

definition fill_in :: "TCPSegment \<Rightarrow> bool \<Rightarrow> WrappingInt32 \<Rightarrow> u16 \<Rightarrow> TCPSegment" where
  "fill_in seg ack ackno win =
     seg\<lparr>seg_header := (seg_header seg)\<lparr>th_ack := ack, th_ackno := ackno, th_win := win\<rparr>\<rparr>"

fun local_op :: "sender_op \<Rightarrow> bool" where
  "local_op (AckReceived ackno win) = False"
| "local_op TakeSegment = False"
| "local_op _ = True"

definition packet_of :: "u32 \<Rightarrow> bytes \<Rightarrow> TCPSegment \<Rightarrow> bool" where
  "packet_of cks b seg \<longleftrightarrow> TCPSegment_parse TCPSegment_default (Buffer_of_string b) cks = Inr (seg, NoError)"

text \<open>
  A segment was sent for the absolute number \<open>x\<close> if it carries the stream there and ends at or before
  the sender's next number; \<open>rcv_ack\<close> is the absolute number the receiver acknowledges.
\<close>

definition sent_at :: "bytes \<Rightarrow> TCPSender \<Rightarrow> u64 \<Rightarrow> TCPSegment \<Rightarrow> bool" where
  "sent_at s t x seg \<longleftrightarrow> carries (ts_isn t) s x seg \<and> unat x + seg_len seg \<le> unat (ts_next_seqno t)"

definition rcv_ack :: "TCPReceiver \<Rightarrow> nat" where
  "rcv_ack rc = (case rc_isn rc of None \<Rightarrow> 0
     | Some _ \<Rightarrow> 1 + sr_next (rc_reassembler rc) + of_bool (bs_end_write (sr_output (rc_reassembler rc))))"

inductive net_step :: "bytes \<Rightarrow> u32 \<Rightarrow> tcp_net \<Rightarrow> tcp_net \<Rightarrow> bool" for s cks where
  sender_acts: "local_op oper \<Longrightarrow> app_ok s oper (net_sender n) \<Longrightarrow> sender_step oper (net_sender n) = Inr t' \<Longrightarrow>
    net_step s cks n (n\<lparr>net_sender := t'\<rparr>)"
| transmit: "ts_segments_out (net_sender n) = seg # queue \<Longrightarrow> sent_at s (net_sender n) x seg \<Longrightarrow>
    TCPSegment_serialize (fill_in seg ack ackno win) cks = Inr bl \<Longrightarrow>
    net_step s cks n (n\<lparr>net_sender := segments_out_pop (net_sender n),
      net_wire := insert (x, BufferList_concatenate bl) (net_wire n)\<rparr>)"
| lose: "net_step s cks n (n\<lparr>net_wire := net_wire n - {p}\<rparr>)"
| deliver: "(x, b) \<in> net_wire n \<Longrightarrow> near_seq x (rc_position (net_receiver n)) \<Longrightarrow> packet_of cks b seg \<Longrightarrow>
    segment_received (net_receiver n) seg = Inr rc' \<Longrightarrow> net_step s cks n (n\<lparr>net_receiver := rc'\<rparr>)"
| reader: "TCPReceiver_read (net_receiver n) k = (rc', d) \<Longrightarrow>
    net_step s cks n (n\<lparr>net_receiver := rc', net_delivered := net_delivered n @ d\<rparr>)"
| acknowledge: "TCPReceiver_ackno (net_receiver n) = Some a \<Longrightarrow>
    TCPSegment_serialize (fill_in TCPSegment_default True a win) cks = Inr bl \<Longrightarrow>
    net_step s cks n (n\<lparr>net_acks :=
      insert (word_of_nat (rcv_ack (net_receiver n)), BufferList_concatenate bl) (net_acks n)\<rparr>)"
| lose_ack: "net_step s cks n (n\<lparr>net_acks := net_acks n - {p}\<rparr>)"
| ack_arrives: "(k, b) \<in> net_acks n \<Longrightarrow> near_seq k (next_seqno_absolute (net_sender n)) \<Longrightarrow>
    unat (bytes_in_flight (net_sender n)) \<le> 2 ^ 31 \<Longrightarrow> packet_of cks b seg \<Longrightarrow>
    net_step s cks n (n\<lparr>net_sender :=
      ack_received (net_sender n) (th_ackno (seg_header seg)) (th_win (seg_header seg))\<rparr>)"

inductive_cases net_stepE: "net_step s cks n n'"

section \<open>What has been sent\<close>

text \<open>Segments that have been sent and fit a datagram.\<close>

definition sent_seg :: "bytes \<Rightarrow> TCPSender \<Rightarrow> u64 \<Rightarrow> TCPSegment \<Rightarrow> bool" where
  "sent_seg s t x seg \<longleftrightarrow> sent_at s t x seg \<and> sendable seg"

text \<open>A segment reads the same when it comes out of the network as when it went in.\<close>

definition seg_like :: "TCPSegment \<Rightarrow> TCPSegment \<Rightarrow> bool" where
  "seg_like a b \<longleftrightarrow> th_seqno (seg_header a) = th_seqno (seg_header b) \<and> th_syn (seg_header a) = th_syn (seg_header b)
     \<and> th_fin (seg_header a) = th_fin (seg_header b) \<and> th_doff (seg_header a) = th_doff (seg_header b)
     \<and> Buffer_str (seg_payload a) = Buffer_str (seg_payload b)"

lemma sent_seg_like: "seg_like a b \<Longrightarrow> sent_seg s t x a = sent_seg s t x b"
  by (simp add: seg_like_def sent_seg_def sent_at_def carries_def pay_index_def sendable_def seg_len_def
      length_in_sequence_space_def)

lemma packet_carries:
  assumes "sendable seg" and "unat cks < 2 ^ 30"
  shows "\<exists>bl seg'. TCPSegment_serialize (fill_in seg ack ackno win) cks = Inr bl
    \<and> packet_of cks (BufferList_concatenate bl) seg' \<and> seg_like seg' seg
    \<and> th_ackno (seg_header seg') = ackno \<and> th_win (seg_header seg') = win"
proof -
  let ?seg = "fill_in seg ack ackno win"
  have seg: "th_doff (seg_header ?seg) = 5" "Buffer_str (seg_payload ?seg) = Buffer_str (seg_payload seg)"
      "length (Buffer_str (seg_payload seg)) \<le> 1452"
    using assms(1) by (simp_all add: fill_in_def sendable_def)
  then obtain bl c b where "TCPSegment_serialize ?seg cks = Inr bl"
      "TCPSegment_parse TCPSegment_default (Buffer_of_string (BufferList_concatenate bl)) cks
        = Inr (TCPSegment_default\<lparr>seg_header := (seg_header ?seg)\<lparr>th_cksum := c\<rparr>, seg_payload := b\<rparr>, NoError)"
      "Buffer_str b = Buffer_str (seg_payload ?seg)"
    using serialize_then_parse [of ?seg cks TCPSegment_default] assms(2) by auto
  then show ?thesis by (auto simp: packet_of_def seg_like_def fill_in_def)
qed

lemma packet_unique: "packet_of cks b seg \<Longrightarrow> packet_of cks b seg' \<Longrightarrow> seg' = seg"
  by (simp add: packet_of_def)

section \<open>What the sender's own steps change\<close>

definition snd_grows :: "TCPSender \<Rightarrow> TCPSender \<Rightarrow> bool" where
  "snd_grows t t' \<longleftrightarrow> ts_isn t' = ts_isn t \<and> ts_next_seqno t \<le> ts_next_seqno t' \<and> snd_bytes t \<le> snd_bytes t'
     \<and> bs_capacity (ts_stream t') = bs_capacity (ts_stream t) \<and> bs_error (ts_stream t') = bs_error (ts_stream t)
     \<and> (ts_receiver_window_size t' = ts_receiver_window_size t \<or> unat (ts_receiver_window_size t') < 2 ^ 16)"

lemma advertised_window [simp]: "unat (ucast (win :: u16) :: u64) < 65536"
proof -
  have "unat win < 2 ^ 16" using unsigned_less [where 'a = nat and w = win] by simp
  then show ?thesis by (simp add: unsigned_ucast_eq take_bit_nat_eq_self)
qed

lemma fill_window_frame:
  "snd_inv s t \<Longrightarrow> bs_capacity (ts_stream (fill_window t)) = bs_capacity (ts_stream t)
     \<and> bs_error (ts_stream (fill_window t)) = bs_error (ts_stream t)"
proof (induction t rule: fill_window.induct)
  case (1 t)
  obtain t1 again where step: "fill_window_step t = (t1, again)" by fastforce
  from 1(2) have "bs_capacity (ts_stream t1) = bs_capacity (ts_stream t) \<and> bs_error (ts_stream t1) = bs_error (ts_stream t)"
    by (cases rule: fill_window_step_elim)
      (use step in \<open>simp_all add: after_payload_def send_syn_def send_segment_def Let_def\<close>)
  moreover have "snd_inv s t1" using fill_window_step_inv [OF 1(2)] step by simp
  ultimately show ?case
    using 1(1) [of "(t1, again)" t1 again] step by (subst (1 2) fill_window.simps) (simp split: if_splits)
qed

lemma fill_window_grows:
  assumes "snd_inv s t"
  shows "snd_grows t (fill_window t)"
proof -
  obtain new where new: "fill_sent s t new (fill_window t)" using fill_window_sent [OF assms] by blast
  then have "ts_next_seqno t \<le> ts_next_seqno (fill_window t)"
    unfolding word_le_nat_alt by (intro seq_chain_le [of "ts_isn t" _ new]) (simp add: fill_sent_def)
  with new show ?thesis by (simp add: snd_grows_def fill_sent_def fill_window_frame [OF assms])
qed

text \<open>Every queued segment has been sent, and so has every outstanding one.\<close>

definition queues_sent :: "bytes \<Rightarrow> TCPSender \<Rightarrow> bool" where
  "queues_sent s t \<longleftrightarrow> (\<forall>seg \<in> set (ts_segments_out t) \<union> set (ts_outstanding_segments t). \<exists>x. sent_seg s t x seg)"

lemma sent_seg_grows: "sent_seg s t x seg \<Longrightarrow> snd_grows t t' \<Longrightarrow> sent_seg s t' x seg"
  by (auto simp: sent_seg_def sent_at_def snd_grows_def word_le_nat_alt)

lemma queues_sent_grows:
  assumes "queues_sent s t" and "snd_grows t t'"
    and "set (ts_segments_out t') \<union> set (ts_outstanding_segments t')
      \<subseteq> set (ts_segments_out t) \<union> set (ts_outstanding_segments t) \<union> new"
    and "\<And>seg. seg \<in> new \<Longrightarrow> \<exists>x. sent_seg s t' x seg"
  shows "queues_sent s t'"
  unfolding queues_sent_def using assms sent_seg_grows by (metis (no_types, lifting) Un_iff queues_sent_def subset_iff)

lemma fill_window_queues:
  assumes inv: "snd_inv s t" and "queues_sent s t"
  shows "queues_sent s (fill_window t)"
proof -
  let ?t = "fill_window t"
  obtain new where new: "fill_sent s t new ?t" using fill_window_sent [OF inv] by blast
  have "\<exists>x. sent_seg s ?t x seg" if "seg \<in> set new" for seg
    using outstanding_sent [OF fill_window_inv [OF inv], of seg] new that
    by (auto simp: sent_seg_def sent_at_def fill_sent_def list_all_iff)
  then show ?thesis
    by (rule queues_sent_grows [OF assms(2) fill_window_grows [OF inv], rotated])
      (use new in \<open>auto simp: fill_sent_def\<close>)
qed

lemma empty_segment_sent:
  "sent_seg s t (ts_next_seqno t) (TCPSegment_default\<lparr>seg_header := TCPHeader_default\<lparr>th_seqno := next_seqno t\<rparr>\<rparr>)"
  by (simp add: sent_seg_def sent_at_def carries_def excerpt_def next_seqno_def sendable_def TCPSegment_default_def
      seg_len_def length_in_sequence_space_def) (simp add: TCPHeader_default_def)

text \<open>A tick changes the timer and the count, and at most queues an outstanding segment again.\<close>

lemma tick_queues:
  assumes inv: "snd_inv s t" and tick: "tick t ms = Inr t'"
  shows "\<exists>timer' count' out'. t' = t\<lparr>ts_retransmission_timer := timer',
      ts_consecutive_retransmissions := count', ts_segments_out := out'\<rparr>
    \<and> set out' \<subseteq> set (ts_segments_out t) \<union> set (ts_outstanding_segments t)"
proof (cases "snd (check_timeout (ts_retransmission_timer t) ms)")
  case True
  with tick_eq [OF inv, of ms] tick obtain timer' where "ts_outstanding_segments t \<noteq> []"
      "t' = t\<lparr>ts_retransmission_timer := timer',
          ts_consecutive_retransmissions := ts_consecutive_retransmissions t + 1,
          ts_segments_out := ts_segments_out t @ [hd (ts_outstanding_segments t)]\<rparr>" by auto
  then show ?thesis
    by - (rule exI [of _ timer'], rule exI [of _ "ts_consecutive_retransmissions t + 1"],
      rule exI [of _ "ts_segments_out t @ [hd (ts_outstanding_segments t)]"], simp)
next
  case False
  with tick_eq [OF inv, of ms] tick obtain timer' where "t' = t\<lparr>ts_retransmission_timer := timer'\<rparr>" by auto
  then show ?thesis
    by - (rule exI [of _ timer'], rule exI [of _ "ts_consecutive_retransmissions t"],
      rule exI [of _ "ts_segments_out t"], simp)
qed

lemma sender_acts_sent:
  assumes inv: "snd_inv s t" and "app_ok s oper t" and "local_op oper" and "sender_step oper t = Inr t'"
    and q: "queues_sent s t"
  shows "snd_grows t t' \<and> queues_sent s t' \<and> ts_receiver_ack t' = ts_receiver_ack t"
proof (cases oper)
  case (AppWrite d)
  have t': "t' = stream_in_write t d" using assms(4) AppWrite by simp
  have "snd_grows t t'"
    by (simp add: snd_grows_def t' stream_in_write_def snd_bytes_def ByteStream_write_def Let_def)
  then show ?thesis
    using queues_sent_grows [OF q, of t' "{}"] by (simp add: t' stream_in_write_def)
next
  case AppEnd
  then have t': "t' = stream_in_end t" using assms(4) by simp
  have "snd_grows t t'"
    by (simp add: snd_grows_def t' stream_in_end_def snd_bytes_def ByteStream_end_input_def)
  then show ?thesis
    using queues_sent_grows [OF q, of t' "{}"] by (simp add: t' stream_in_end_def)
next
  case FillWindow
  then have t': "t' = fill_window t" using assms(4) by simp
  moreover have "ts_receiver_ack (fill_window t) = ts_receiver_ack t"
    using fill_window_sent [OF inv] by (auto simp: fill_sent_def)
  ultimately show ?thesis using fill_window_grows [OF inv] fill_window_queues [OF inv q] by simp
next
  case (Tick ms)
  have tick: "tick t ms = Inr t'" using assms(4) Tick by simp
  from tick_queues [OF inv tick] have "snd_grows t t'" "ts_receiver_ack t' = ts_receiver_ack t"
      "set (ts_segments_out t') \<union> set (ts_outstanding_segments t')
        \<subseteq> set (ts_segments_out t) \<union> set (ts_outstanding_segments t) \<union> {}"
    by (auto simp: snd_grows_def snd_bytes_def split: if_splits)
  then show ?thesis using queues_sent_grows [OF q, of t' "{}"] by blast
next
  case SendEmptySegment
  then have t': "t' = send_empty_segment t" using assms(4) by simp
  then have grows: "snd_grows t t'" by (simp add: snd_grows_def send_empty_segment_def Let_def snd_bytes_def)
  have "queues_sent s t'"
    by (rule queues_sent_grows [OF q grows])
      (use sent_seg_grows [OF empty_segment_sent grows] in
        \<open>auto simp: t' send_empty_segment_def Let_def\<close>)
  with grows show ?thesis by (simp add: t' send_empty_segment_def Let_def)
qed (use assms(3) in auto)

section \<open>What the receiver knows\<close>

text \<open>
  The receiver tracks the part of the stream the sender has sent so far; it has seen the end flag or
  the SYN only if the sender has sent them.
\<close>

definition rcv_within :: "bytes \<Rightarrow> TCPSender \<Rightarrow> TCPReceiver \<Rightarrow> bool" where
  "rcv_within s t rc \<longleftrightarrow> sr_tracks (take (snd_bytes t) s) (rc_reassembler rc)
     \<and> (rc_isn rc = None \<or> rc_isn rc = Some (ts_isn t))
     \<and> length s + unat (sr_capacity (rc_reassembler rc)) < 2 ^ 64
     \<and> (sr_eof_flag (rc_reassembler rc) \<longrightarrow> ts_set_fin_flag t)
     \<and> (rc_isn rc \<noteq> None \<longrightarrow> ts_next_seqno t \<noteq> 0)"

lemma snd_bytes_le: "snd_inv s t \<Longrightarrow> snd_bytes t \<le> length s"
  by (simp add: snd_inv_def snd_stream_inv_def)

lemma fin_all_sent: "snd_inv s t \<Longrightarrow> ts_set_fin_flag t \<Longrightarrow> snd_bytes t = length s \<and> ts_next_seqno t \<noteq> 0"
  by (auto simp: snd_inv_def snd_stream_inv_def)

lemma next_eq:
  "snd_inv s t \<Longrightarrow> ts_next_seqno t \<noteq> 0 \<Longrightarrow> unat (ts_next_seqno t) = 1 + snd_bytes t + of_bool (ts_set_fin_flag t)"
  by (simp add: snd_inv_def snd_stream_inv_def)

lemma sr_tracks_grow:
  assumes "sr_tracks (take m s) r" and "m \<le> m'" and "\<not> sr_eof_flag r \<or> take m' s = take m s"
    and "length s + unat (sr_capacity r) < 2 ^ 64"
  shows "sr_tracks (take m' s) r"
proof (cases "take m' s = take m s")
  case True
  with assms(1) show ?thesis by simp
next
  case False
  then have flag: "\<not> sr_eof_flag r" using assms(3) by simp
  have le: "length (take m s) \<le> length (take m' s)" "length (take m' s) \<le> length s" using assms(2) by auto
  have nth: "i < length (take m' s) \<and> c = take m' s ! i" if "sr_pending r i = Some c" for i c
    using sr_tracksD(4) [OF assms(1) that] assms(2) by auto
  have "length (take m' s) + unat (sr_capacity r) < 2 ^ 64" using le(2) assms(4) by linarith
  moreover have "sr_next r \<le> length (take m' s)" using sr_tracksD(3) [OF assms(1)] le(1) by linarith
  ultimately show ?thesis
    unfolding sr_tracks_def using sr_tracksD(1,6,7) [OF assms(1)] flag nth by blast
qed

lemma grows_fin:
  assumes "snd_inv s t" and "snd_inv s t'" and "snd_grows t t'" and "ts_set_fin_flag t"
  shows "ts_set_fin_flag t'"
proof -
  have t: "unat (ts_next_seqno t) = 2 + length s" using fin_all_sent [OF assms(1,4)] next_eq [OF assms(1)] assms(4) by simp
  have le: "unat (ts_next_seqno t) \<le> unat (ts_next_seqno t')"
    using assms(3) by (simp add: snd_grows_def word_le_nat_alt)
  with t have "ts_next_seqno t' \<noteq> 0" by auto
  from next_eq [OF assms(2) this] le t snd_bytes_le [OF assms(2)] show ?thesis
    by (cases "ts_set_fin_flag t'") simp_all
qed

lemma rcv_within_grows:
  assumes inv: "snd_inv s t" "snd_inv s t'" and grows: "snd_grows t t'" and rc: "rcv_within s t rc"
  shows "rcv_within s t' rc"
proof -
  let ?r = "rc_reassembler rc"
  have m: "snd_bytes t \<le> snd_bytes t'" "ts_isn t' = ts_isn t" using grows by (simp_all add: snd_grows_def)
  have "ts_set_fin_flag t \<Longrightarrow> snd_bytes t' = snd_bytes t"
    using fin_all_sent [OF inv(1)] snd_bytes_le [OF inv(2)] m(1) by simp
  then have "sr_tracks (take (snd_bytes t') s) ?r"
    using rc by (intro sr_tracks_grow [OF _ m(1)]) (auto simp: rcv_within_def)
  moreover have "ts_next_seqno t \<noteq> 0 \<Longrightarrow> ts_next_seqno t' \<noteq> 0"
    using grows by (auto simp: snd_grows_def)
  ultimately show ?thesis
    using rc grows_fin [OF inv grows] m(2) by (auto simp: rcv_within_def)
qed

lemma sendable_len:
  assumes "sendable seg"
  shows "seg_len seg = length (Buffer_str (seg_payload seg)) + of_bool (th_syn (seg_header seg))
    + of_bool (th_fin (seg_header seg))"
proof -
  have "length (Buffer_str (seg_payload seg)) \<le> 1452" using assms by (simp add: sendable_def)
  then have "unat (size_t (Buffer_str (seg_payload seg))) = length (Buffer_str (seg_payload seg))"
    by (simp add: unat_size_t)
  with \<open>length (Buffer_str (seg_payload seg)) \<le> 1452\<close> show ?thesis
    by (simp add: seg_len_def length_in_sequence_space_def unat_add_small)
qed

text \<open>A sent segment carries also the part of the stream sent so far.\<close>

lemma excerpt_prefix:
  assumes "excerpt s d i eof" and "unat i + length d \<le> m" and "eof \<longrightarrow> m = length s" and "m \<le> length s"
  shows "excerpt (take m s) d i eof"
proof -
  have "take (length d) (drop (unat i) (take m s)) = take (length d) (drop (unat i) s)"
    using assms(2) by (simp add: drop_take)
  moreover have "length (take m s) = m" using assms(4) by simp
  ultimately show ?thesis using assms unfolding excerpt_def by metis
qed

text \<open>Where a sent segment that occupies sequence numbers lies in the stream.\<close>

lemma sent_index:
  assumes inv: "snd_inv s t" and seg: "sent_seg s t x seg" and pos: "0 < seg_len seg"
  shows "1 + unat (pay_index x seg) + length (Buffer_str (seg_payload seg)) + of_bool (th_fin (seg_header seg))
    = unat x + seg_len seg"
proof -
  let ?h = "seg_header seg" and ?d = "Buffer_str (seg_payload seg)" and ?i = "pay_index x seg"
  have gen: "th_syn ?h \<longrightarrow> x = 0" "excerpt s ?d ?i (th_fin ?h)"
    using seg by (simp_all add: sent_seg_def sent_at_def carries_def)
  have len: "seg_len seg = length ?d + of_bool (th_syn ?h) + of_bool (th_fin ?h)"
    using seg by (intro sendable_len) (simp add: sent_seg_def)
  show ?thesis
  proof (cases "th_syn ?h")
    case True
    then show ?thesis using len gen(1) by (simp add: pay_index_def)
  next
    case False
    have "x \<noteq> 0"
    proof
      assume "x = 0"
      then have "unat ?i = 2 ^ 64 - 1" using False
        by (simp add: pay_index_def unsigned_minus_1_eq_mask mask_eq_exp_minus_1)
      moreover have "?d \<noteq> [] \<or> th_fin ?h" using pos len False by (cases "th_fin ?h") auto
      then have "unat ?i \<le> length s" using gen(2) unfolding excerpt_def by linarith
      moreover have "length s < 2 ^ 63 - 2" using inv by (simp add: snd_inv_def snd_stream_inv_def)
      ultimately show False by simp
    qed
    then have "0 < unat x" "unat ?i = unat x - 1"
      using False by (simp_all add: pay_index_def unat_gt_0 unat_minus_one)
    with len False show ?thesis by simp
  qed
qed

lemma sent_prefix:
  assumes inv: "snd_inv s t" and seg: "sent_seg s t x seg"
  shows "carries (ts_isn t) (take (snd_bytes t) s) x seg"
    and "th_fin (seg_header seg) \<Longrightarrow> ts_set_fin_flag t"
    and "th_syn (seg_header seg) \<Longrightarrow> ts_next_seqno t \<noteq> 0"
proof -
  let ?h = "seg_header seg" and ?d = "Buffer_str (seg_payload seg)" and ?m = "snd_bytes t" and ?i = "pay_index x seg"
  have gen: "carries (ts_isn t) s x seg" "excerpt s ?d ?i (th_fin ?h)" and le: "unat x + seg_len seg \<le> unat (ts_next_seqno t)"
    using seg by (simp_all add: sent_seg_def sent_at_def carries_def)
  have len: "seg_len seg = length ?d + of_bool (th_syn ?h) + of_bool (th_fin ?h)"
    using seg by (intro sendable_len) (simp add: sent_seg_def)
  have m: "?m \<le> length s" by (rule snd_bytes_le [OF inv])
  show "th_syn ?h \<Longrightarrow> ts_next_seqno t \<noteq> 0" using le len by auto
  have nz: "?d \<noteq> [] \<or> th_fin ?h \<Longrightarrow> ts_next_seqno t \<noteq> 0" using le len by auto
  have idx: "unat ?i + length ?d + of_bool (th_fin ?h) \<le> ?m + of_bool (ts_set_fin_flag t)" if "?d \<noteq> [] \<or> th_fin ?h"
  proof -
    have "0 < seg_len seg" using len that by auto
    from sent_index [OF inv seg this] le next_eq [OF inv nz [OF that]] show ?thesis by simp
  qed
  have fin_idx: "th_fin ?h \<Longrightarrow> unat ?i + length ?d = length s" using gen(2) by (simp add: excerpt_def)
  show fin: "ts_set_fin_flag t" if "th_fin ?h"
    using idx [OF disjI2 [OF that]] fin_idx [OF that] m that by (cases "ts_set_fin_flag t") simp_all
  have "unat ?i + length ?d \<le> ?m" if "?d \<noteq> [] \<or> th_fin ?h"
  proof (cases "ts_set_fin_flag t")
    case True
    then have "?m = length s" using fin_all_sent [OF inv] by simp
    with gen(2) that show ?thesis unfolding excerpt_def by linarith
  qed (use idx [OF that] in simp)
  then have "excerpt (take ?m s) ?d ?i (th_fin ?h)"
  proof (cases "?d \<noteq> [] \<or> th_fin ?h")
    case False
    then show ?thesis by (simp add: excerpt_def)
  qed (use excerpt_prefix [OF gen(2), of ?m] fin fin_all_sent [OF inv] m in blast)
  with gen(1) show "carries (ts_isn t) (take ?m s) x seg" by (simp add: carries_def)
qed

lemma rcv_within_ack:
  assumes inv: "snd_inv s t" and rc: "rcv_within s t rc"
  shows "rcv_ack rc \<le> unat (ts_next_seqno t)"
proof (cases "rc_isn rc")
  case None
  then show ?thesis by (simp add: rcv_ack_def)
next
  case (Some i)
  let ?r = "rc_reassembler rc"
  have tracks: "sr_tracks (take (snd_bytes t) s) ?r" using rc by (simp add: rcv_within_def)
  have "sr_next ?r \<le> snd_bytes t" using sr_tracksD(3) [OF tracks] by simp
  moreover have "bs_end_write (sr_output ?r) \<longrightarrow> ts_set_fin_flag t"
    using sr_tracksD(6) [OF tracks] rc by (simp add: rcv_within_def)
  moreover have "unat (ts_next_seqno t) = 1 + snd_bytes t + of_bool (ts_set_fin_flag t)"
    by (rule next_eq [OF inv]) (use rc Some in \<open>simp add: rcv_within_def\<close>)
  ultimately show ?thesis by (cases "bs_end_write (sr_output ?r)") (simp_all add: rcv_ack_def Some)
qed

text \<open>The step of the receiver on a sent segment.\<close>

lemma deliver_within:
  assumes inv: "snd_inv s t" and rc: "rcv_within s t rc" and seg: "sent_seg s t x seg" and near: "near_seq x (rc_position rc)"
  shows "\<exists>rc'. segment_received rc seg = Inr rc' \<and> rcv_within s t rc'
    \<and> (rc_isn rc = None \<and> \<not> th_syn (seg_header seg) \<and> rc' = rc
       \<or> rc_isn rc' = Some (ts_isn t)
         \<and> push_post (rc_reassembler rc) (Buffer_str (seg_payload seg)) (pay_index x seg)
             (th_fin (seg_header seg)) (rc_reassembler rc')
         \<and> sr_next (rc_reassembler rc) \<le> sr_next (rc_reassembler rc')
         \<and> bs_buffer (sr_output (rc_reassembler rc')) = bs_buffer (sr_output (rc_reassembler rc))
             @ take (sr_next (rc_reassembler rc') - sr_next (rc_reassembler rc)) (drop (sr_next (rc_reassembler rc)) s))"
proof (cases "rc_isn rc = None \<and> \<not> th_syn (seg_header seg)")
  case True
  then show ?thesis using rc by (simp add: segment_received_early)
next
  case False
  let ?s = "take (snd_bytes t) s" and ?r = "rc_reassembler rc"
  let ?d = "Buffer_str (seg_payload seg)" and ?f = "th_fin (seg_header seg)"
  note sent = sent_prefix [OF inv seg]
  obtain r' where r': "segment_received rc seg = Inr (rc\<lparr>rc_reassembler := r', rc_isn := Some (ts_isn t)\<rparr>)"
      and post: "push_post ?r ?d (pay_index x seg) ?f r'" "sr_tracks ?s r'" "sr_next ?r \<le> sr_next r'"
        "bs_buffer (sr_output r') = bs_buffer (sr_output ?r) @ take (sr_next r' - sr_next ?r) (drop (sr_next ?r) ?s)"
    using near_push [OF _ _ sent(1) near False] rc unfolding rcv_within_def by blast
  have "sr_next r' \<le> snd_bytes t" using sr_tracksD(3) [OF post(2)] by simp
  then have "take (sr_next r' - sr_next ?r) (drop (sr_next ?r) ?s) = take (sr_next r' - sr_next ?r) (drop (sr_next ?r) s)"
    by (simp add: drop_take)
  moreover have "sr_capacity r' = sr_capacity ?r" "sr_eof_flag r' = (sr_eof_flag ?r \<or> ?f)"
    using post(1) by (simp_all add: push_post_def Let_def)
  moreover have "ts_next_seqno t \<noteq> 0" using False rc sent(3) by (auto simp: rcv_within_def)
  ultimately have "rcv_within s t (rc\<lparr>rc_reassembler := r', rc_isn := Some (ts_isn t)\<rparr>)"
    using rc post(2) sent(2) by (auto simp: rcv_within_def)
  with r' post \<open>take _ (drop _ ?s) = _\<close> show ?thesis by simp
qed

lemma push_post_ended:
  "push_post r d i f r' \<Longrightarrow> bs_end_write (sr_output r) \<Longrightarrow> bs_end_write (sr_output r')"
  by (simp add: push_post_def Let_def)

lemma deliver_ack:
  assumes "snd_inv s t" and "rcv_within s t rc" and "sent_seg s t x seg" and "near_seq x (rc_position rc)"
    and "segment_received rc seg = Inr rc'"
  shows "rcv_within s t rc' \<and> rcv_ack rc \<le> rcv_ack rc'
    \<and> (d @ bs_buffer (sr_output (rc_reassembler rc)) = take (sr_next (rc_reassembler rc)) s \<longrightarrow>
       d @ bs_buffer (sr_output (rc_reassembler rc')) = take (sr_next (rc_reassembler rc')) s)"
proof -
  let ?r = "rc_reassembler rc" and ?r' = "rc_reassembler rc'"
  have within: "rcv_within s t rc'"
    and dis: "rc' = rc \<or> rc_isn rc' = Some (ts_isn t)
      \<and> (bs_end_write (sr_output ?r) \<longrightarrow> bs_end_write (sr_output ?r')) \<and> sr_next ?r \<le> sr_next ?r'
      \<and> bs_buffer (sr_output ?r') = bs_buffer (sr_output ?r) @ take (sr_next ?r' - sr_next ?r) (drop (sr_next ?r) s)"
    using deliver_within [OF assms(1-4)] assms(5) push_post_ended by auto
  show ?thesis
  proof (cases "rc' = rc")
    case False
    then have "rcv_ack rc \<le> rcv_ack rc'" using dis by (auto simp: rcv_ack_def split: option.split)
    moreover have "take (sr_next ?r) s @ take (sr_next ?r' - sr_next ?r) (drop (sr_next ?r) s) = take (sr_next ?r') s"
      using dis False take_add [of "sr_next ?r" "sr_next ?r' - sr_next ?r" s] by simp
    ultimately show ?thesis using within dis False by (metis append.assoc)
  qed (use within in simp)
qed

lemma read_within:
  assumes "rcv_within s t rc" and "TCPReceiver_read rc k = (rc', e)"
  shows "rcv_within s t rc' \<and> rcv_ack rc' = rcv_ack rc \<and> rc_isn rc' = rc_isn rc
    \<and> sr_next (rc_reassembler rc') = sr_next (rc_reassembler rc)
    \<and> bs_end_write (sr_output (rc_reassembler rc')) = bs_end_write (sr_output (rc_reassembler rc))
    \<and> bs_buffer (sr_output (rc_reassembler rc)) = e @ bs_buffer (sr_output (rc_reassembler rc'))"
proof -
  let ?s = "take (snd_bytes t) s" and ?r = "rc_reassembler rc"
  have tracks: "sr_tracks ?s ?r" using assms(1) by (simp add: rcv_within_def)
  have rc': "rc' = rc\<lparr>rc_reassembler := fst (stream_out_read ?r k)\<rparr>" "e = snd (stream_out_read ?r k)"
    using assms(2) by (auto simp: TCPReceiver_read_def Let_def split_def)
  have inv: "bs_inv (sr_output ?r)" using sr_tracksD(1) [OF tracks] by (simp add: sr_inv_def)
  have "bs_end_write (sr_output (fst (stream_out_read ?r k))) = bs_end_write (sr_output ?r)"
    by (simp add: sr_read_eq [OF inv] read_eq [OF inv])
  then show ?thesis
    using assms sr_has_read [OF tracks, of k] sr.pull_tracks [OF tracks, of k] sr.pull_next [OF tracks, of k]
      sr.pull_unread [OF tracks, of k]
    by (simp add: rc' rcv_within_def rcv_ack_def split: option.split)
qed

section \<open>The invariant of the system\<close>

text \<open>
  The sender is a sender of \<open>s\<close>; what it has queued or put on the wire has been sent; the receiver
  knows only what has been sent; the sender takes for acknowledged only what the receiver has
  acknowledged; acknowledgements under way are at most the current one; and the reader has got, and
  can still get, the assembled prefix of \<open>s\<close>.
\<close>

definition ack_packet :: "u32 \<Rightarrow> tcp_net \<Rightarrow> u64 \<Rightarrow> bytes \<Rightarrow> bool" where
  "ack_packet cks n k b \<longleftrightarrow> (\<exists>seg. packet_of cks b seg
     \<and> th_ackno (seg_header seg) = wrap k (ts_isn (net_sender n)) \<and> unat k \<le> rcv_ack (net_receiver n))"

definition net_inv :: "bytes \<Rightarrow> u32 \<Rightarrow> tcp_net \<Rightarrow> bool" where
  "net_inv s cks n \<longleftrightarrow>
     snd_inv s (net_sender n) \<and> queues_sent s (net_sender n) \<and> rcv_within s (net_sender n) (net_receiver n)
     \<and> unat (ts_receiver_window_size (net_sender n)) < 2 ^ 16
     \<and> 0 < unat (bs_capacity (ts_stream (net_sender n))) \<and> \<not> bs_error (ts_stream (net_sender n))
     \<and> unat (ts_receiver_ack (net_sender n)) \<le> rcv_ack (net_receiver n)
     \<and> (\<forall>x b. (x, b) \<in> net_wire n \<longrightarrow> (\<exists>seg. packet_of cks b seg \<and> sent_seg s (net_sender n) x seg))
     \<and> (\<forall>k b. (k, b) \<in> net_acks n \<longrightarrow> ack_packet cks n k b)
     \<and> net_delivered n @ bs_buffer (sr_output (rc_reassembler (net_receiver n)))
       = take (sr_next (rc_reassembler (net_receiver n))) s"

lemma net_invD:
  assumes "net_inv s cks n"
  shows "snd_inv s (net_sender n)" and "queues_sent s (net_sender n)"
    and "rcv_within s (net_sender n) (net_receiver n)" and "0 < unat (bs_capacity (ts_stream (net_sender n)))"
    and "unat (ts_receiver_ack (net_sender n)) \<le> rcv_ack (net_receiver n)"
    and "\<And>x b. (x, b) \<in> net_wire n \<Longrightarrow> \<exists>seg. packet_of cks b seg \<and> sent_seg s (net_sender n) x seg"
    and "\<And>k b. (k, b) \<in> net_acks n \<Longrightarrow> ack_packet cks n k b"
    and "net_delivered n @ bs_buffer (sr_output (rc_reassembler (net_receiver n)))
      = take (sr_next (rc_reassembler (net_receiver n))) s"
    and "\<not> bs_error (ts_stream (net_sender n))" and "unat (ts_receiver_window_size (net_sender n)) < 2 ^ 16"
  using assms unfolding net_inv_def by blast+

text \<open>A step of the sender that only grows keeps the invariant.\<close>

lemma net_inv_sender:
  assumes inv: "net_inv s cks n" and t': "snd_inv s t'" "queues_sent s t'" "snd_grows (net_sender n) t'"
    and "unat (ts_receiver_ack t') \<le> rcv_ack (net_receiver n)"
    and "\<And>x b. (x, b) \<in> w \<Longrightarrow> (x, b) \<in> net_wire n \<or> (\<exists>seg. packet_of cks b seg \<and> sent_seg s t' x seg)"
  shows "net_inv s cks (n\<lparr>net_sender := t', net_wire := w\<rparr>)"
proof -
  note D = net_invD [OF inv]
  have "ts_isn t' = ts_isn (net_sender n)" "bs_capacity (ts_stream t') = bs_capacity (ts_stream (net_sender n))"
      "bs_error (ts_stream t') = bs_error (ts_stream (net_sender n))" "unat (ts_receiver_window_size t') < 2 ^ 16"
    using t'(3) D(10) by (auto simp: snd_grows_def)
  moreover have "\<exists>seg. packet_of cks b seg \<and> sent_seg s t' x seg" if "(x, b) \<in> w" for x b
    using assms(6) [OF that] D(6) sent_seg_grows [OF _ t'(3)] by blast
  ultimately show ?thesis
    using D assms(5) t'(1,2) rcv_within_grows [OF D(1) t'(1,3) D(3)]
    by (auto simp: net_inv_def ack_packet_def)
qed

lemma sent_sendable: "sent_seg s t x seg \<Longrightarrow> sendable seg"
  by (simp add: sent_seg_def)

lemma transmit_inv:
  assumes inv: "net_inv s cks n" and cks: "unat cks < 2 ^ 30"
    and "ts_segments_out (net_sender n) = seg # queue" and at: "sent_at s (net_sender n) x seg"
    and ser: "TCPSegment_serialize (fill_in seg ack ackno win) cks = Inr bl"
  shows "net_inv s cks (n\<lparr>net_sender := segments_out_pop (net_sender n),
      net_wire := insert (x, BufferList_concatenate bl) (net_wire n)\<rparr>)"
proof (rule net_inv_sender [OF inv])
  let ?t = "net_sender n" and ?t' = "segments_out_pop (net_sender n)"
  note D = net_invD [OF inv]
  show grows: "snd_grows ?t ?t'" by (simp add: snd_grows_def segments_out_pop_def snd_bytes_def)
  show "snd_inv s ?t'" using D(1) by (rule segments_out_pop_inv)
  show "queues_sent s ?t'"
    by (rule queues_sent_grows [OF D(2) grows, of "{}"]) (use assms(3) in \<open>auto simp: segments_out_pop_def\<close>)
  show "unat (ts_receiver_ack ?t') \<le> rcv_ack (net_receiver n)" using D(5) by (simp add: segments_out_pop_def)
  have sent: "sent_seg s ?t x seg" using D(2) assms(3) at by (auto simp: queues_sent_def sent_seg_def)
  obtain seg' where "packet_of cks (BufferList_concatenate bl) seg'" "seg_like seg' seg"
    using packet_carries [OF sent_sendable [OF sent] cks, of ack ackno win] ser by auto
  with sent_seg_grows [OF sent grows] sent_seg_like
  show "(y, b) \<in> net_wire n \<or> (\<exists>seg. packet_of cks b seg \<and> sent_seg s ?t' y seg)"
    if "(y, b) \<in> insert (x, BufferList_concatenate bl) (net_wire n)" for y b
    using that by blast
qed

text \<open>A step of the receiver.\<close>

lemma net_inv_receiver:
  assumes inv: "net_inv s cks n" and "rcv_within s (net_sender n) rc'" and "rcv_ack (net_receiver n) \<le> rcv_ack rc'"
    and "d' @ bs_buffer (sr_output (rc_reassembler rc')) = take (sr_next (rc_reassembler rc')) s"
  shows "net_inv s cks (n\<lparr>net_receiver := rc', net_delivered := d'\<rparr>)"
proof -
  have "ack_packet cks (n\<lparr>net_receiver := rc', net_delivered := d'\<rparr>) k b" if "(k, b) \<in> net_acks n" for k b
    using net_invD(7) [OF inv that] assms(3) by (auto simp: ack_packet_def)
  then show ?thesis using net_invD [OF inv] assms(2-4) by (simp add: net_inv_def)
qed

lemma ack_arrives_inv:
  assumes inv: "net_inv s cks n" and b: "(k, b) \<in> net_acks n" "packet_of cks b seg"
    and near: "near_seq k (next_seqno_absolute (net_sender n))" and flight: "unat (bytes_in_flight (net_sender n)) \<le> 2 ^ 31"
  defines "t' \<equiv> ack_received (net_sender n) (th_ackno (seg_header seg)) (th_win (seg_header seg))"
  shows "net_inv s cks (n\<lparr>net_sender := t'\<rparr>)"
proof -
  let ?t = "net_sender n" and ?rc = "net_receiver n"
  note D = net_invD [OF inv]
  have k: "th_ackno (seg_header seg) = wrap k (ts_isn ?t)" "unat k \<le> rcv_ack ?rc"
    using D(7) [OF b(1)] packet_unique [OF b(2)] by (auto simp: ack_packet_def)
  have dec: "unwrap (th_ackno (seg_header seg)) (ts_isn ?t) (ts_next_seqno ?t) = k"
    unfolding k(1) using near by (intro wi.dec_enc) (simp add: next_seqno_absolute_def)
  have cases: "t' = ?t \<or> (\<exists>acked rest ack' timer' count'. ts_outstanding_segments ?t = acked @ rest
        \<and> t' = ?t\<lparr>ts_receiver_window_size := ucast (th_win (seg_header seg)), ts_outstanding_segments := rest,
             ts_receiver_ack := ack', ts_retransmission_timer := timer', ts_consecutive_retransmissions := count'\<rparr>
        \<and> unat ack' \<le> unat k)"
    using ack_received_cases [OF D(1) flight, of "th_ackno (seg_header seg)" "th_win (seg_header seg)", unfolded dec, folded t'_def]
    by blast
  then have grows: "snd_grows ?t t'" and ack: "unat (ts_receiver_ack t') \<le> rcv_ack ?rc"
    and sub: "set (ts_segments_out t') \<union> set (ts_outstanding_segments t')
      \<subseteq> set (ts_segments_out ?t) \<union> set (ts_outstanding_segments ?t) \<union> {}"
    using D(5) k(2) by (auto simp: snd_grows_def snd_bytes_def)
  have "snd_inv s t'" unfolding t'_def by (rule ack_received_inv [OF D(1) flight])
  moreover have "queues_sent s t'" by (rule queues_sent_grows [OF D(2) grows sub]) simp
  ultimately have "net_inv s cks (n\<lparr>net_sender := t', net_wire := net_wire n\<rparr>)"
    by (intro net_inv_sender [OF inv _ _ grows ack]) simp_all
  then show ?thesis by simp
qed

lemma rcv_ack_small: "snd_inv s t \<Longrightarrow> rcv_within s t rc \<Longrightarrow> rcv_ack rc < 2 ^ 63"
  using rcv_within_ack [of s t rc] snd_next_small [of s t] by (simp add: snd_inv_def)

lemma receiver_ackno:
  assumes inv: "snd_inv s t" and rc: "rcv_within s t rc"
  shows "TCPReceiver_ackno rc = (if rc_isn rc = None then None else Some (wrap (word_of_nat (rcv_ack rc)) (ts_isn t)))"
proof (cases "rc_isn rc")
  case None
  then show ?thesis by (simp add: TCPReceiver_ackno_def)
next
  case (Some i)
  have "rc_position rc = word_of_nat (sr_next (rc_reassembler rc))" by (simp flip: position_next)
  then show ?thesis
    using Some rc by (auto simp: TCPReceiver_ackno_def rcv_within_def rcv_ack_def ByteStream_input_ended_def Let_def algebra_simps)
qed

lemma default_sendable: "sendable TCPSegment_default"
  by (simp add: sendable_def TCPSegment_default_def)

lemma acknowledge_inv:
  assumes inv: "net_inv s cks n" and cks: "unat cks < 2 ^ 30" and a: "TCPReceiver_ackno (net_receiver n) = Some a"
    and ser: "TCPSegment_serialize (fill_in TCPSegment_default True a win) cks = Inr bl"
  shows "net_inv s cks (n\<lparr>net_acks :=
      insert (word_of_nat (rcv_ack (net_receiver n)), BufferList_concatenate bl) (net_acks n)\<rparr>)"
proof -
  note D = net_invD [OF inv]
  obtain seg' where seg': "packet_of cks (BufferList_concatenate bl) seg'" "th_ackno (seg_header seg') = a"
    using packet_carries [OF default_sendable cks, of True a win] ser by auto
  have "a = wrap (word_of_nat (rcv_ack (net_receiver n))) (ts_isn (net_sender n))"
    using receiver_ackno [OF D(1,3)] a by (auto split: if_splits)
  moreover have "unat (word_of_nat (rcv_ack (net_receiver n)) :: u64) = rcv_ack (net_receiver n)"
    using rcv_ack_small [OF D(1,3)] by (simp add: unat_of_nat_small)
  ultimately have "ack_packet cks n (word_of_nat (rcv_ack (net_receiver n))) (BufferList_concatenate bl)"
    using seg' by (auto simp: ack_packet_def)
  with D show ?thesis by (auto simp: net_inv_def ack_packet_def)
qed

text \<open>In the other direction: nothing the sender does of its own accord fails.\<close>

lemma local_op_ack_ok: "local_op oper \<Longrightarrow> ack_ok oper t"
  by (cases oper) simp_all

lemma net_step_inv:
  assumes step: "net_step s cks n n'" and inv: "net_inv s cks n" and cks: "unat cks < 2 ^ 30"
  shows "net_inv s cks n'"
  using step
proof (cases rule: net_step.cases)
  case (sender_acts oper t')
  note D = net_invD [OF inv]
  have inv': "snd_inv s t'"
    using sender_step_inv [OF D(1) sender_acts(3) local_op_ack_ok [OF sender_acts(2)]] sender_acts(4) by auto
  have "snd_grows (net_sender n) t'" "queues_sent s t'" "ts_receiver_ack t' = ts_receiver_ack (net_sender n)"
    using sender_acts_sent [OF D(1) sender_acts(3,2,4) D(2)] by auto
  then have "net_inv s cks (n\<lparr>net_sender := t', net_wire := net_wire n\<rparr>)"
    using D(5) inv' by (intro net_inv_sender [OF inv]) simp_all
  with sender_acts(1) show ?thesis by simp
next
  case (transmit seg queue x ack ackno win bl)
  then show ?thesis using transmit_inv [OF inv cks] by simp
next
  case (lose p)
  then show ?thesis using net_invD [OF inv] by (auto simp: net_inv_def ack_packet_def)
next
  case (deliver x b seg rc')
  have "sent_seg s (net_sender n) x seg"
    using net_invD(6) [OF inv deliver(2)] packet_unique [OF deliver(4)] by auto
  from deliver_ack [OF net_invD(1,3) [OF inv] this deliver(3,5), of "net_delivered n"]
  have "net_inv s cks (n\<lparr>net_receiver := rc', net_delivered := net_delivered n\<rparr>)"
    using net_invD(8) [OF inv] by (intro net_inv_receiver [OF inv]) simp_all
  then show ?thesis by (simp add: deliver(1))
next
  case (reader k rc' d)
  from read_within [OF net_invD(3) [OF inv] reader(2)]
  show ?thesis
    unfolding reader(1) using net_invD(8) [OF inv] by (intro net_inv_receiver [OF inv]) simp_all
next
  case (acknowledge a win bl)
  then show ?thesis using acknowledge_inv [OF inv cks] by simp
next
  case (lose_ack p)
  then show ?thesis using net_invD [OF inv] by (auto simp: net_inv_def ack_packet_def)
next
  case (ack_arrives k b seg)
  then show ?thesis using ack_arrives_inv [OF inv] by simp
qed

lemma net_reach_inv:
  "(net_step s cks)\<^sup>*\<^sup>* n n' \<Longrightarrow> net_inv s cks n \<Longrightarrow> unat cks < 2 ^ 30 \<Longrightarrow> net_inv s cks n'"
  by (induction rule: rtranclp_induct) (auto intro: net_step_inv)

lemma net_init_inv:
  assumes "length s < 2 ^ 63 - 2" and "0 < unat scap" and "0 < unat rcap" and "length s + unat rcap < 2 ^ 64"
  shows "net_inv s cks (net_init (TCPSender_new scap retx isn random) (TCPReceiver_new rcap))"
proof -
  let ?t = "TCPSender_new scap retx isn random"
  have t: "snd_bytes ?t = 0" "ts_segments_out ?t = []" "ts_outstanding_segments ?t = []"
      "bs_capacity (ts_stream ?t) = scap" "ts_receiver_ack ?t = 0" "\<not> bs_error (ts_stream ?t)" "ts_receiver_window_size ?t = 1"
    by (simp_all add: TCPSender_new_def snd_bytes_def ByteStream_new_def)
  have rc: "sr_next (rc_reassembler (TCPReceiver_new rcap)) = 0" "bs_buffer (sr_output (rc_reassembler (TCPReceiver_new rcap))) = []"
      "sr_eof_flag (rc_reassembler (TCPReceiver_new rcap)) = False" "rc_isn (TCPReceiver_new rcap) = None"
      "sr_capacity (rc_reassembler (TCPReceiver_new rcap)) = rcap"
    by (simp_all add: TCPReceiver_new_def StreamReassembler_new_def ByteStream_new_def sr_next_def)
  have "sr_tracks (take 0 s) (rc_reassembler (TCPReceiver_new rcap))"
    using sr_tracks_new [of rcap "take 0 s"] assms by (simp add: TCPReceiver_new_def)
  then show ?thesis
    using assms snd_inv_new [of s scap retx isn random]
    by (simp add: net_inv_def net_init_def t rc rcv_within_def queues_sent_def)
qed

text \<open>Nothing of a stream shorter than \<open>2^31\<close> is ever untimely.\<close>

lemma short_timely:
  assumes inv: "net_inv s cks n" and short: "length s < 2 ^ 31 - 2"
  shows "(x, b) \<in> net_wire n \<Longrightarrow> near_seq x (rc_position (net_receiver n))"
    and "(k, b) \<in> net_acks n \<Longrightarrow> near_seq k (next_seqno_absolute (net_sender n))"
    and "unat (bytes_in_flight (net_sender n)) \<le> 2 ^ 31"
proof -
  note D = net_invD [OF inv]
  have small: "unat (ts_next_seqno (net_sender n)) < 2 ^ 31" by (rule short_next [OF D(1) short])
  have "sr_tracks (take (snd_bytes (net_sender n)) s) (rc_reassembler (net_receiver n))"
    using D(3) by (simp add: rcv_within_def)
  from sr_tracksD(3) [OF this] have pos: "unat (rc_position (net_receiver n)) < 2 ^ 31"
    using short by (simp add: position_next)
  show "near_seq x (rc_position (net_receiver n))" if "(x, b) \<in> net_wire n"
    using D(6) [OF that] small pos by (auto simp: sent_seg_def sent_at_def near_seq_def)
  show "near_seq k (next_seqno_absolute (net_sender n))" if "(k, b) \<in> net_acks n"
    using D(7) [OF that] rcv_within_ack [OF D(1,3)] small
    by (auto simp: ack_packet_def near_seq_def next_seqno_absolute_def)
  show "unat (bytes_in_flight (net_sender n)) \<le> 2 ^ 31" using short_flight [OF D(1) short] by simp
qed

text \<open>What the two sides know of each other.\<close>

lemma ack_between:
  assumes inv: "net_inv s cks n"
  defines "t \<equiv> net_sender n" and "rc \<equiv> net_receiver n"
  shows "case TCPReceiver_ackno rc of
      None \<Rightarrow> ts_receiver_ack t = 0
    | Some a \<Rightarrow> \<exists>x. a = wrap x (ts_isn t)
        \<and> unat x = 1 + sr_next (rc_reassembler rc) + of_bool (ByteStream_input_ended (sr_output (rc_reassembler rc)))
        \<and> ts_receiver_ack t \<le> x \<and> x \<le> ts_next_seqno t"
proof -
  note D = net_invD [OF inv, folded t_def rc_def]
  have x: "unat (word_of_nat (rcv_ack rc) :: u64) = rcv_ack rc"
    using rcv_ack_small [OF D(1,3)] by (simp add: unat_of_nat_small)
  show ?thesis
  proof (cases "rc_isn rc")
    case None
    then show ?thesis using D(5) by (simp add: TCPReceiver_ackno_def rcv_ack_def unat_eq_zero)
  next
    case (Some i)
    have "ts_receiver_ack t \<le> word_of_nat (rcv_ack rc)" "word_of_nat (rcv_ack rc) \<le> ts_next_seqno t"
      using D(5) rcv_within_ack [OF D(1,3)] x by (simp_all add: word_le_nat_alt)
    moreover have "rcv_ack rc = 1 + sr_next (rc_reassembler rc) + of_bool (ByteStream_input_ended (sr_output (rc_reassembler rc)))"
      by (simp add: rcv_ack_def Some ByteStream_input_ended_def)
    ultimately show ?thesis using receiver_ackno [OF D(1,3)] Some x
      by (simp only: option.simps if_False) (intro exI [of _ "word_of_nat (rcv_ack rc)"] conjI, simp_all)
  qed
qed

lemma assembled_prefix:
  assumes inv: "net_inv s cks n"
  defines "rc \<equiv> net_receiver n"
  shows "sr_next (rc_reassembler rc) \<le> length s"
    and "ByteStream_input_ended (sr_output (rc_reassembler rc)) \<Longrightarrow> sr_next (rc_reassembler rc) = length s"
proof -
  note D = net_invD [OF inv, folded rc_def]
  have tr: "sr_tracks (take (snd_bytes (net_sender n)) s) (rc_reassembler rc)" using D(3) by (simp add: rcv_within_def)
  show "sr_next (rc_reassembler rc) \<le> length s" using sr_tracksD(3) [OF tr] by simp
  show "ByteStream_input_ended (sr_output (rc_reassembler rc)) \<Longrightarrow> sr_next (rc_reassembler rc) = length s"
    using sr_tracksD(6) [OF tr] D(3) fin_all_sent [OF D(1)]
    by (auto simp: rcv_within_def ByteStream_input_ended_def)
qed

section \<open>Properties\<close>


definition demo_net :: tcp_net where
  "demo_net = net_init (TCPSender_new 10 1000 (Some (WrappingInt32 42)) 0) (TCPReceiver_new 20)"

lemma demo_net_fill:
  "(net_step [1, 2, 3] 77)\<^sup>*\<^sup>* demo_net (demo_net\<lparr>net_sender := fill_window (net_sender demo_net)\<rparr>)"
  by (rule r_into_rtranclp, rule net_step.sender_acts [of FillWindow]) simp_all


end
