(* ===== verification/TCP_Progress.thy ===== *)
theory TCP_Progress
  imports TCP_System
begin

text \<open>
  The system of sender, network and receiver never gets stuck: from every reachable state some
  continuation, with retransmission of what was lost, delivers the whole stream.
\<close>

abbreviation net_reach :: "bytes \<Rightarrow> u32 \<Rightarrow> tcp_net \<Rightarrow> tcp_net \<Rightarrow> bool" where
  "net_reach s cks \<equiv> (net_step s cks)\<^sup>*\<^sup>*"

section \<open>The sender has something outstanding\<close>

lemma fill_window_starts:
  assumes "snd_inv s t" and "\<not> ts_set_fin_flag t" and "ts_next_seqno t = 0"
  shows "ts_next_seqno (fill_window t) \<noteq> 0"
proof -
  have one: "ts_next_seqno (send_syn t) = 1" using assms(3) by (simp add: send_syn_def send_segment_def Let_def)
  have "ts_next_seqno (send_syn t) \<le> ts_next_seqno (fill_window (send_syn t))"
    using fill_window_grows [OF send_syn_inv [OF assms(1,3,2)]] by (simp add: snd_grows_def)
  then have "ts_next_seqno (fill_window (send_syn t)) \<noteq> 0" unfolding one by auto
  moreover have "fill_window t = fill_window (send_syn t) \<or> fill_window t = send_syn t"
    using assms(2,3) by (subst (1 2) fill_window.simps) (simp add: fill_window_step_def Let_def)
  ultimately show ?thesis using one by auto
qed

lemma outstanding_iff:
  assumes "snd_inv s t"
  shows "ts_outstanding_segments t = [] \<longleftrightarrow> ts_receiver_ack t = ts_next_seqno t"
proof -
  have "ts_outstanding_segments t = [] \<longleftrightarrow> in_flight t = 0"
    using assms by (cases "ts_outstanding_segments t") (auto simp: in_flight_def snd_inv_def snd_queue_inv_def)
  also have "\<dots> \<longleftrightarrow> ts_receiver_ack t = ts_next_seqno t"
    using bytes_in_flight_eq(2) [OF assms] by (auto simp: word_unat_eq_iff)
  finally show ?thesis .
qed

lemma fill_window_sends:
  assumes inv: "snd_inv s t" and empty: "ts_outstanding_segments t = []" and fin: "\<not> ts_set_fin_flag t"
    and more: "ts_next_seqno t = 0 \<or> bs_buffer (ts_stream t) \<noteq> [] \<or> bs_end_write (ts_stream t)"
  shows "ts_outstanding_segments (fill_window t) \<noteq> []"
proof
  let ?t = "fill_window t"
  assume none: "ts_outstanding_segments ?t = []"
  note inv' = fill_window_inv [OF inv]
  obtain new where new: "fill_sent s t new ?t" using fill_window_sent [OF inv] by blast
  then have same: "ts_next_seqno ?t = ts_next_seqno t"
    using outstanding_iff [OF inv] outstanding_iff [OF inv'] empty none by (simp add: fill_sent_def)
  then have nz: "ts_next_seqno t \<noteq> 0" using fill_window_starts [OF inv fin] by auto
  have "in_flight t = 0" using empty by (simp add: in_flight_def)
  then have "fill_done ?t" using fill_window_window [OF inv] by simp
  moreover have "in_flight ?t = 0" "0 < unat (effective_window ?t)"
    using none effective_window_eq [of ?t] by (simp_all add: in_flight_def)
  ultimately have "ts_set_fin_flag ?t \<or> bs_buffer (ts_stream ?t) = [] \<and> \<not> bs_end_write (ts_stream ?t)"
    by (auto simp: fill_done_def)
  moreover have "snd_bytes ?t + of_bool (ts_set_fin_flag ?t) = snd_bytes t"
    using next_eq [OF inv nz] next_eq [OF inv'] same nz fin by simp
  moreover have "snd_bytes t \<le> snd_bytes ?t" "snd_accepted ?t = snd_accepted t"
      "bs_end_write (ts_stream ?t) = bs_end_write (ts_stream t)"
    using new by (simp_all add: fill_sent_def)
  ultimately show False using more nz by (auto simp: snd_accepted_def)
qed

text \<open>One step of the sender's own.\<close>

lemma local_step:
  "local_op oper \<Longrightarrow> app_ok s oper (net_sender n) \<Longrightarrow> sender_step oper (net_sender n) = Inr t' \<Longrightarrow>
   net_reach s cks n (n\<lparr>net_sender := t'\<rparr>)"
  by (rule r_into_rtranclp) (rule net_step.sender_acts)

lemma fill_step: "net_reach s cks n (n\<lparr>net_sender := fill_window (net_sender n)\<rparr>)"
  by (rule local_step [of FillWindow]) simp_all

lemma not_finished:
  assumes inv: "snd_inv s t" and "ts_outstanding_segments t = []" and "unat (ts_receiver_ack t) < length s + 2"
  shows "\<not> ts_set_fin_flag t"
  using assms fin_all_sent [OF inv] next_eq [OF inv] outstanding_iff [OF inv] by auto

text \<open>The application offers more of the stream, or its end, when the buffer is empty.\<close>

lemma app_offers:
  assumes inv: "snd_inv s t" and cap: "0 < unat (bs_capacity (ts_stream t))" and "bs_buffer (ts_stream t) = []"
    and "\<not> bs_end_write (ts_stream t)"
  shows "\<exists>oper t'. local_op oper \<and> app_ok s oper t \<and> sender_step oper t = Inr t'
    \<and> ts_outstanding_segments t' = ts_outstanding_segments t \<and> ts_set_fin_flag t' = ts_set_fin_flag t
    \<and> ts_receiver_ack t' = ts_receiver_ack t
    \<and> (bs_buffer (ts_stream t') \<noteq> [] \<or> bs_end_write (ts_stream t'))"
proof (cases "snd_accepted t = length s")
  case True
  then show ?thesis
    by (intro exI [of _ AppEnd] exI [of _ "stream_in_end t"]) (simp add: stream_in_end_def ByteStream_end_input_def)
next
  case False
  let ?d = "drop (snd_accepted t) s"
  have st: "bs_inv (ts_stream t)" "snd_accepted t \<le> length s" "length s < 2 ^ 63 - 2"
    using inv by (simp_all add: snd_inv_def snd_stream_inv_def snd_accepted_def)
  have "0 < bs_room (ts_stream t)" using cap assms(3) by (simp add: bs_room_def)
  moreover have "?d \<noteq> []" using False st(2) by simp
  ultimately have "bs_buffer (fst (ByteStream_write (ts_stream t) ?d)) \<noteq> []"
    using bs.put_held [OF st(1), of ?d] st(3) by simp
  then show ?thesis
    using assms(4)
    by (intro exI [of _ "AppWrite ?d"] exI [of _ "stream_in_write t ?d"]) (simp add: stream_in_write_def)
qed

lemma fill_flight:
  assumes inv: "net_inv s cks n" and empty: "ts_outstanding_segments (net_sender n) = []"
  shows "unat (bytes_in_flight (fill_window (net_sender n))) \<le> 2 ^ 31"
proof -
  note D = net_invD [OF inv]
  have "in_flight (net_sender n) = 0" using empty by (simp add: in_flight_def)
  then have "in_flight (fill_window (net_sender n)) \<le> max 1 (unat (ts_receiver_window_size (net_sender n)))"
    using fill_window_window [OF D(1)] by (simp add: effective_window_eq)
  also have "\<dots> \<le> 2 ^ 31" using D(10) by simp
  finally show ?thesis using bytes_in_flight_eq(1) [OF fill_window_inv [OF D(1)]] by simp
qed

lemma app_progress:
  assumes inv: "net_inv s cks n" and cks: "unat cks < 2 ^ 30" and empty: "ts_outstanding_segments (net_sender n) = []"
    and "unat (ts_receiver_ack (net_sender n)) < length s + 2"
  shows "\<exists>n'. net_reach s cks n n' \<and> ts_outstanding_segments (net_sender n') \<noteq> []
    \<and> ts_receiver_ack (net_sender n') = ts_receiver_ack (net_sender n)
    \<and> unat (bytes_in_flight (net_sender n')) \<le> 2 ^ 31"
proof -
  let ?t = "net_sender n"
  note D = net_invD [OF inv]
  have ack: "ts_receiver_ack (fill_window t) = ts_receiver_ack t" if "snd_inv s t" for t
    using fill_window_sent [OF that] by (auto simp: fill_sent_def)
  have fin: "\<not> ts_set_fin_flag ?t" by (rule not_finished [OF D(1) empty assms(4)])
  show ?thesis
  proof (cases "bs_buffer (ts_stream ?t) \<noteq> [] \<or> bs_end_write (ts_stream ?t)")
    case True
    then show ?thesis
      using fill_step [of s cks n] fill_window_sends [OF D(1) empty fin] ack [OF D(1)] fill_flight [OF inv empty]
      by (intro exI [of _ "n\<lparr>net_sender := fill_window ?t\<rparr>"]) auto
  next
    case False
    then obtain oper t' where oper: "local_op oper" "app_ok s oper ?t" "sender_step oper ?t = Inr t'"
        and t': "ts_outstanding_segments t' = []" "\<not> ts_set_fin_flag t'" "ts_receiver_ack t' = ts_receiver_ack ?t"
          "bs_buffer (ts_stream t') \<noteq> [] \<or> bs_end_write (ts_stream t')"
      using app_offers [OF D(1,4)] empty fin by auto
    let ?n = "n\<lparr>net_sender := t'\<rparr>"
    note step = local_step [OF oper]
    have inv': "net_inv s cks ?n" by (rule net_reach_inv [OF step inv cks])
    have "net_reach s cks n (?n\<lparr>net_sender := fill_window (net_sender ?n)\<rparr>)"
      using step fill_step by (rule rtranclp_trans)
    then show ?thesis
      using fill_window_sends [OF _ t'(1,2)] t' ack [of t'] fill_flight [OF inv'] net_invD(1) [OF inv']
      by (intro exI [of _ "n\<lparr>net_sender := fill_window t'\<rparr>"]) auto
  qed
qed

section \<open>The oldest segment reaches the wire\<close>

lemma oldest_sent:
  assumes inv: "snd_inv s t" and out: "ts_outstanding_segments t = seg # rest"
  shows "sent_at s t (ts_receiver_ack t) seg" and "0 < seg_len seg"
proof -
  have chain: "seq_chain (ts_isn t) (unat (ts_receiver_ack t)) (seg # rest) (unat (ts_next_seqno t))"
    and "carried (ts_isn t) s (unat (ts_receiver_ack t)) (seg # rest)"
    using inv out by (simp_all add: snd_inv_def snd_queue_inv_def)
  then show "sent_at s t (ts_receiver_ack t) seg"
    using seq_chain_le [of "ts_isn t" _ rest] by (simp add: sent_at_def)
  show "0 < seg_len seg" using chain by simp
qed

lemma drain:
  assumes "net_inv s cks n" and cks: "unat cks < 2 ^ 30" and "ts_segments_out (net_sender n) = queue @ [seg]"
    and "sent_at s (net_sender n) x seg"
  shows "\<exists>n' b seg'. net_reach s cks n n' \<and> (x, b) \<in> net_wire n' \<and> packet_of cks b seg' \<and> seg_like seg' seg
    \<and> net_sender n' = (net_sender n)\<lparr>ts_segments_out := []\<rparr>"
  using assms(1,3,4)
proof (induction queue arbitrary: n)
  case Nil
  have "sendable seg" using net_invD(2) [OF Nil(1)] Nil(2) by (auto simp: queues_sent_def sent_seg_def)
  then obtain bl seg' where bl: "TCPSegment_serialize (fill_in seg False (WrappingInt32 0) 0) cks = Inr bl"
      "packet_of cks (BufferList_concatenate bl) seg'" "seg_like seg' seg"
    using packet_carries [OF _ cks] by blast
  have seg: "ts_segments_out (net_sender n) = seg # []" using Nil(2) by simp
  show ?case
    using net_step.transmit [OF seg Nil(3) bl(1)] bl(2,3) seg
    by (intro exI [of _ "n\<lparr>net_sender := segments_out_pop (net_sender n),
          net_wire := insert (x, BufferList_concatenate bl) (net_wire n)\<rparr>"]
        exI [of _ "BufferList_concatenate bl"] exI [of _ seg'])
      (auto simp: segments_out_pop_def)
next
  case (Cons y queue)
  have y: "ts_segments_out (net_sender n) = y # (queue @ [seg])" using Cons.prems(2) by simp
  obtain z where z: "sent_at s (net_sender n) z y" and "sendable y"
    using net_invD(2) [OF Cons.prems(1)] y by (auto simp: queues_sent_def sent_seg_def)
  then obtain bl where bl: "TCPSegment_serialize (fill_in y False (WrappingInt32 0) 0) cks = Inr bl"
    using packet_carries [OF _ cks] by blast
  let ?n = "n\<lparr>net_sender := segments_out_pop (net_sender n),
      net_wire := insert (z, BufferList_concatenate bl) (net_wire n)\<rparr>"
  have step: "net_step s cks n ?n" using y z bl by (rule net_step.transmit)
  have "ts_segments_out (net_sender ?n) = queue @ [seg]" "sent_at s (net_sender ?n) x seg"
    using y Cons.prems(3) by (simp_all add: segments_out_pop_def sent_at_def)
  from Cons.IH [OF net_step_inv [OF step Cons.prems(1) cks] this] obtain n' b seg' where
      "net_reach s cks ?n n'" "(x, b) \<in> net_wire n'" "packet_of cks b seg'" "seg_like seg' seg"
      "net_sender n' = (net_sender n)\<lparr>ts_segments_out := []\<rparr>"
    by (auto simp: segments_out_pop_def)
  with converse_rtranclp_into_rtranclp [of "net_step s cks", OF step] show ?case by blast
qed

lemma retransmit:
  assumes inv: "net_inv s cks n" and cks: "unat cks < 2 ^ 30"
    and out: "ts_outstanding_segments (net_sender n) = seg # rest"
  shows "\<exists>n' b seg'. net_reach s cks n n' \<and> (ts_receiver_ack (net_sender n), b) \<in> net_wire n'
    \<and> packet_of cks b seg' \<and> seg_like seg' seg
    \<and> ts_outstanding_segments (net_sender n') = seg # rest \<and> ts_isn (net_sender n') = ts_isn (net_sender n)
    \<and> ts_receiver_ack (net_sender n') = ts_receiver_ack (net_sender n)
    \<and> ts_next_seqno (net_sender n') = ts_next_seqno (net_sender n)"
proof -
  let ?t = "net_sender n" and ?timer = "ts_retransmission_timer (net_sender n)"
  note D = net_invD [OF inv]
  define ms where "ms = rt_rto ?timer - rt_accumulate_time ?timer"
  have "rt_is_running ?timer" using D(1) out by (simp add: snd_inv_def snd_queue_inv_def)
  then have expired: "snd (check_timeout ?timer ms)" by (simp add: check_timeout_def Let_def ms_def)
  then obtain timer' where tick: "tick ?t ms = Inr (?t\<lparr>ts_retransmission_timer := timer',
      ts_consecutive_retransmissions := ts_consecutive_retransmissions ?t + 1,
      ts_segments_out := ts_segments_out ?t @ [seg]\<rparr>)" (is "_ = Inr ?t'")
    using tick_eq [OF D(1), of ms] out by auto
  let ?n = "n\<lparr>net_sender := ?t'\<rparr>"
  have step: "net_reach s cks n ?n" by (rule local_step [of "Tick ms"]) (simp_all add: tick)
  have "ts_segments_out (net_sender ?n) = ts_segments_out ?t @ [seg]" by simp
  moreover have "sent_at s (net_sender ?n) (ts_receiver_ack ?t) seg"
    using oldest_sent(1) [OF D(1) out] by (simp add: sent_at_def)
  ultimately obtain n' b seg' where
      n': "net_reach s cks ?n n'" "(ts_receiver_ack ?t, b) \<in> net_wire n'" "packet_of cks b seg'" "seg_like seg' seg"
      "net_sender n' = (net_sender ?n)\<lparr>ts_segments_out := []\<rparr>"
    using drain [OF net_reach_inv [OF step inv cks] cks] by blast
  from step n'(1) have "net_reach s cks n n'" by (rule rtranclp_trans)
  with n' out show ?thesis by (intro exI [of _ n'] exI [of _ b] exI [of _ seg']) simp
qed

section \<open>The receiver takes it in\<close>

lemma read_all:
  assumes within: "rcv_within s t rc"
  shows "\<exists>k rc' d. TCPReceiver_read rc k = (rc', d) \<and> rcv_within s t rc' \<and> rcv_ack rc' = rcv_ack rc
    \<and> rc_isn rc' = rc_isn rc \<and> sr_next (rc_reassembler rc') = sr_next (rc_reassembler rc)
    \<and> bs_buffer (sr_output (rc_reassembler rc')) = [] \<and> d = bs_buffer (sr_output (rc_reassembler rc))"
proof -
  let ?r = "rc_reassembler rc" and ?k = "size_t (bs_buffer (sr_output (rc_reassembler rc)))"
  have inv: "bs_inv (sr_output ?r)" using within sr_tracksD(1) by (auto simp: rcv_within_def sr_inv_def)
  obtain rc' d where rd: "TCPReceiver_read rc ?k = (rc', d)" by fastforce
  then have "rc' = rc\<lparr>rc_reassembler := fst (stream_out_read ?r ?k)\<rparr>"
    by (auto simp: TCPReceiver_read_def Let_def split_def)
  then have "bs_buffer (sr_output (rc_reassembler rc')) = []"
    by (simp add: sr_read_eq [OF inv] read_eq [OF inv] unat_size_t [OF bs_inv_length [OF inv]])
  with rd read_within [OF within rd] show ?thesis by (intro exI [of _ ?k] exI [of _ rc'] exI [of _ d]) simp
qed

text \<open>The receiver with an empty buffer takes in at least the next byte of a segment that offers it.\<close>

lemma push_advances:
  assumes tracks: "sr_tracks s r" and empty: "bs_buffer (sr_output r) = []" and "push_post r d i f r'" and "sr_inv r'"
    and "unat i \<le> sr_next r" and "sr_next r < unat i + length d" and "sr_next r \<le> sr_next r'"
  shows "sr_next r < sr_next r'"
proof -
  have "0 < unat (sr_capacity r)" using sr_tracksD(1) [OF tracks] by (simp add: sr_inv_def)
  then have "sr_next r < sr_limit r" using sr_tracksD(7) [OF tracks] empty by (simp add: sr_limit_def)
  then have "sr_has r' (sr_next r)" using push_has [OF assms(3)] assms(5,6) by blast
  then have "sr_next r \<noteq> sr_next r'" using sr_has_front [OF assms(4)] by metis
  with assms(7) show ?thesis by simp
qed

lemma deliver_progress:
  assumes inv: "snd_inv s t" and rc: "rcv_within s t rc" and empty: "bs_buffer (sr_output (rc_reassembler rc)) = []"
    and seg: "sent_seg s t x seg" and near: "near_seq x (rc_position rc)" and pos: "0 < seg_len seg"
    and next_in: "unat x \<le> rcv_ack rc"
  shows "\<exists>rc'. segment_received rc seg = Inr rc' \<and> rcv_within s t rc' \<and> rcv_ack rc \<le> rcv_ack rc'
    \<and> sr_next (rc_reassembler rc) \<le> sr_next (rc_reassembler rc')
    \<and> (unat x + seg_len seg \<le> rcv_ack rc' \<or> sr_next (rc_reassembler rc) < sr_next (rc_reassembler rc'))"
proof -
  let ?h = "seg_header seg" and ?d = "Buffer_str (seg_payload seg)" and ?i = "pay_index x seg"
  let ?s = "take (snd_bytes t) s" and ?r = "rc_reassembler rc"
  note at = sent_index [OF inv seg pos] and len = sendable_len [OF sent_sendable [OF seg]]
  have syn: "th_syn ?h \<Longrightarrow> x = 0" using seg by (simp add: sent_seg_def sent_at_def carries_def)
  have ix: "unat ?i + 1 = unat x" if "\<not> th_syn ?h" using at len that by simp
  have est: "\<not> (rc_isn rc = None \<and> \<not> th_syn ?h)" using ix next_in by (auto simp: rcv_ack_def split: option.splits)
  obtain rc' where rc': "segment_received rc seg = Inr rc'" "rcv_within s t rc'" "rc_isn rc' = Some (ts_isn t)"
      and post: "push_post ?r ?d ?i (th_fin ?h) (rc_reassembler rc')" and le: "sr_next ?r \<le> sr_next (rc_reassembler rc')"
    using deliver_within [OF inv rc seg near] est by blast
  let ?r' = "rc_reassembler rc'"
  have tr: "sr_tracks ?s ?r" "sr_tracks ?s ?r'" using rc rc'(2) by (simp_all add: rcv_within_def)
  have ack: "rcv_ack rc \<le> rcv_ack rc'" using deliver_ack [OF inv rc seg near rc'(1)] by simp
  have ex: "excerpt ?s ?d ?i (th_fin ?h)" using sent_prefix(1) [OF inv seg] by (simp add: carries_def)
  have "unat x + seg_len seg \<le> rcv_ack rc' \<or> sr_next ?r < sr_next ?r'"
  proof (cases "sr_next ?r < unat ?i + length ?d")
    case True
    have "?d \<noteq> [] \<or> th_fin ?h" using True pos len by (cases "th_syn ?h") (auto simp: pay_index_def)
    then have "unat ?i + length ?d \<le> length ?s" using ex by (auto simp: excerpt_def)
    then have "\<not> bs_end_write (sr_output ?r)" using sr_tracksD(6) [OF tr(1)] True by linarith
    then have "unat ?i \<le> sr_next ?r"
      using ix next_in by (cases "th_syn ?h") (auto simp: pay_index_def rcv_ack_def split: option.splits)
    from push_advances [OF tr(1) empty post sr_tracksD(1) [OF tr(2)] this True le] show ?thesis by simp
  next
    case False
    have "bs_end_write (sr_output ?r')" if fin: "th_fin ?h"
    proof -
      have "sr_next ?r' = length ?s"
        using ex fin False le sr_tracksD(3) [OF tr(2)] by (auto simp: excerpt_def)
      moreover have "sr_eof_flag ?r'" using post fin by (simp add: push_post_def Let_def)
      ultimately show ?thesis using sr_tracksD(6) [OF tr(2)] by simp
    qed
    then have "unat x + seg_len seg \<le> rcv_ack rc'"
      using False le at rc'(3) by (cases "th_fin ?h") (auto simp: rcv_ack_def)
    then show ?thesis by simp
  qed
  with rc' le ack show ?thesis by blast
qed

text \<open>With at most \<open>2^31\<close> numbers in flight the oldest segment and the current acknowledgement are timely.\<close>

lemma oldest_timely:
  assumes inv: "net_inv s cks n" and flight: "unat (bytes_in_flight (net_sender n)) \<le> 2 ^ 31"
  shows "near_seq (ts_receiver_ack (net_sender n)) (rc_position (net_receiver n))"
    and "near_seq (word_of_nat (rcv_ack (net_receiver n))) (next_seqno_absolute (net_sender n))"
proof -
  let ?t = "net_sender n" and ?rc = "net_receiver n"
  note D = net_invD [OF inv] and small = rcv_ack_small [OF net_invD(1,3) [OF inv]]
  have nxt: "unat (ts_next_seqno ?t) \<le> unat (ts_receiver_ack ?t) + 2 ^ 31"
    using bytes_in_flight_eq [OF D(1)] flight by simp
  have "sr_tracks (take (snd_bytes ?t) s) (rc_reassembler ?rc)" using D(3) by (simp add: rcv_within_def)
  from sr_tracksD(3) [OF this] have "sr_next (rc_reassembler ?rc) \<le> snd_bytes ?t" by simp
  also have "\<dots> \<le> unat (ts_next_seqno ?t)"
    using D(1) by (cases "ts_next_seqno ?t = 0") (auto simp: snd_inv_def snd_stream_inv_def)
  finally have "sr_next (rc_reassembler ?rc) \<le> unat (ts_receiver_ack ?t) + 2 ^ 31" using nxt by linarith
  moreover have "rcv_ack ?rc \<le> sr_next (rc_reassembler ?rc) + 2" by (simp add: rcv_ack_def split: option.split)
  ultimately show "near_seq (ts_receiver_ack ?t) (rc_position ?rc)"
    using D(5) small by (simp add: near_seq_def position_next)
  have "unat (word_of_nat (rcv_ack ?rc) :: u64) = rcv_ack ?rc" using small by (simp add: unat_of_nat_small)
  then show "near_seq (word_of_nat (rcv_ack ?rc)) (next_seqno_absolute ?t)"
    using D(5) nxt small rcv_within_ack [OF D(1,3)] by (simp add: near_seq_def next_seqno_absolute_def)
qed

lemma receive_round:
  assumes inv: "net_inv s cks n" and flight: "unat (bytes_in_flight (net_sender n)) \<le> 2 ^ 31"
    and x: "x = ts_receiver_ack (net_sender n)"
    and b: "(x, b) \<in> net_wire n" "packet_of cks b seg" and pos: "0 < seg_len seg"
  shows "\<exists>n'. net_reach s cks n n' \<and> net_sender n' = net_sender n \<and> (x, b) \<in> net_wire n'
    \<and> rcv_ack (net_receiver n) \<le> rcv_ack (net_receiver n')
    \<and> (unat x + seg_len seg \<le> rcv_ack (net_receiver n')
       \<or> sr_next (rc_reassembler (net_receiver n)) < sr_next (rc_reassembler (net_receiver n')))"
proof -
  note D = net_invD [OF inv]
  have seg: "sent_seg s (net_sender n) x seg" using D(6) [OF b(1)] packet_unique [OF b(2)] by auto
  obtain k rc1 d where rd: "TCPReceiver_read (net_receiver n) k = (rc1, d)"
      and rc1: "rcv_within s (net_sender n) rc1" "rcv_ack rc1 = rcv_ack (net_receiver n)"
        "sr_next (rc_reassembler rc1) = sr_next (rc_reassembler (net_receiver n))"
        "bs_buffer (sr_output (rc_reassembler rc1)) = []"
    using read_all [OF D(3)] by blast
  let ?n1 = "n\<lparr>net_receiver := rc1, net_delivered := net_delivered n @ d\<rparr>"
  have step1: "net_step s cks n ?n1" using rd by (rule net_step.reader)
  have near: "near_seq x (rc_position rc1)"
    using oldest_timely(1) [OF inv flight] rc1(3) position_next by (simp add: near_seq_def x)
  obtain rc2 where rc2: "segment_received rc1 seg = Inr rc2" "rcv_ack rc1 \<le> rcv_ack rc2"
      "unat x + seg_len seg \<le> rcv_ack rc2 \<or> sr_next (rc_reassembler rc1) < sr_next (rc_reassembler rc2)"
    using deliver_progress [OF D(1) rc1(1,4) seg near pos] D(5) x rc1(2) by auto
  have step2: "net_step s cks ?n1 (?n1\<lparr>net_receiver := rc2\<rparr>)"
    by (rule net_step.deliver [of x b _ _ seg]) (use b near rc2(1) in simp_all)
  have "net_reach s cks n (?n1\<lparr>net_receiver := rc2\<rparr>)"
    using step1 step2 by (meson converse_rtranclp_into_rtranclp r_into_rtranclp)
  with rc1 rc2 b show ?thesis by (intro exI [of _ "?n1\<lparr>net_receiver := rc2\<rparr>"]) simp
qed

lemma receive_segment:
  assumes "net_inv s cks n" and flight: "unat (bytes_in_flight t) \<le> 2 ^ 31" and "net_sender n = t"
    and "(ts_receiver_ack t, b) \<in> net_wire n" and seg: "packet_of cks b seg" "0 < seg_len seg" and cks: "unat cks < 2 ^ 30"
  shows "\<exists>n'. net_reach s cks n n' \<and> net_sender n' = t \<and> unat (ts_receiver_ack t) + seg_len seg \<le> rcv_ack (net_receiver n')"
  using assms(1,3,4)
proof (induction "length s - sr_next (rc_reassembler (net_receiver n))" arbitrary: n rule: less_induct)
  case less
  obtain n1 where n1: "net_reach s cks n n1" "net_sender n1 = t" "(ts_receiver_ack t, b) \<in> net_wire n1"
      "unat (ts_receiver_ack t) + seg_len seg \<le> rcv_ack (net_receiver n1)
       \<or> sr_next (rc_reassembler (net_receiver n)) < sr_next (rc_reassembler (net_receiver n1))"
    using receive_round [OF less.prems(1) _ _ less.prems(3) seg] less.prems(2) flight by auto
  have inv1: "net_inv s cks n1" by (rule net_reach_inv [OF n1(1) less.prems(1) cks])
  show ?case
  proof (cases "unat (ts_receiver_ack t) + seg_len seg \<le> rcv_ack (net_receiver n1)")
    case False
    then have "length s - sr_next (rc_reassembler (net_receiver n1)) < length s - sr_next (rc_reassembler (net_receiver n))"
      using n1(4) assembled_prefix(1) [OF inv1] by linarith
    from less.hyps [OF this inv1 n1(2,3)] obtain n2 where "net_reach s cks n1 n2" "net_sender n2 = t"
        "unat (ts_receiver_ack t) + seg_len seg \<le> rcv_ack (net_receiver n2)" by blast
    with n1(1) show ?thesis by (intro exI [of _ n2]) (simp add: rtranclp_trans)
  qed (use n1 in blast)
qed

section \<open>The acknowledgement comes back\<close>

lemma ack_covers:
  assumes inv: "snd_inv s t" and flight: "unat (bytes_in_flight t) \<le> 2 ^ 31" and near: "near_seq k (ts_next_seqno t)"
    and out: "ts_outstanding_segments t = seg # rest"
    and k: "unat (ts_receiver_ack t) + seg_len seg \<le> unat k" "unat k \<le> unat (ts_next_seqno t)"
  shows "unat (ts_receiver_ack t) < unat (ts_receiver_ack (ack_received t (wrap k (ts_isn t)) win))"
proof -
  have dec: "unwrap (wrap k (ts_isn t)) (ts_isn t) (ts_next_seqno t) = k" using near by (rule wi.dec_enc)
  have "\<not> (ts_next_seqno t < k \<or> k < ts_receiver_ack t)" using k by (simp add: word_less_nat_alt)
  then obtain acked rest' ack' timer' count' where queue: "ts_outstanding_segments t = acked @ rest'"
      and t': "ack_received t (wrap k (ts_isn t)) win = t\<lparr>ts_receiver_window_size := ucast win,
        ts_outstanding_segments := rest', ts_receiver_ack := ack', ts_retransmission_timer := timer',
        ts_consecutive_retransmissions := count'\<rparr>"
      and chain: "seq_chain (ts_isn t) (unat (ts_receiver_ack t)) acked (unat ack')"
      and stop: "rest' \<noteq> [] \<longrightarrow> unat k < unat ack' + seg_len (hd rest')"
    using ack_received_cases [OF inv flight, of "wrap k (ts_isn t)" win, unfolded dec] by blast
  obtain xs where xs: "acked = seg # xs"
  proof (cases acked)
    case Nil
    then have "rest' = seg # rest" "unat ack' = unat (ts_receiver_ack t)" using queue out chain by simp_all
    with stop k(1) show ?thesis by simp
  next
    case (Cons x xs)
    with queue out that show ?thesis by simp
  qed
  then have "seq_chain (ts_isn t) (unat (ts_receiver_ack t) + seg_len seg) xs (unat ack')" "0 < seg_len seg"
    using chain by simp_all
  with seq_chain_le [OF this(1)] show ?thesis by (simp add: t')
qed

lemma ack_progress:
  assumes inv: "net_inv s cks n" and flight: "unat (bytes_in_flight (net_sender n)) \<le> 2 ^ 31" and cks: "unat cks < 2 ^ 30"
    and out: "ts_outstanding_segments (net_sender n) = seg # rest"
    and got: "unat (ts_receiver_ack (net_sender n)) + seg_len seg \<le> rcv_ack (net_receiver n)"
  shows "\<exists>n'. net_reach s cks n n' \<and> ts_next_seqno (net_sender n') = ts_next_seqno (net_sender n)
    \<and> unat (ts_receiver_ack (net_sender n)) < unat (ts_receiver_ack (net_sender n'))"
proof -
  let ?t = "net_sender n" and ?rc = "net_receiver n"
  note D = net_invD [OF inv]
  define k :: u64 where "k = word_of_nat (rcv_ack ?rc)"
  have k: "unat k = rcv_ack ?rc" using rcv_ack_small [OF D(1,3)] by (simp add: k_def unat_of_nat_small)
  have "rc_isn ?rc \<noteq> None" using got oldest_sent(2) [OF D(1) out] by (auto simp: rcv_ack_def split: option.splits)
  then have ackno: "TCPReceiver_ackno ?rc = Some (wrap k (ts_isn ?t))" using receiver_ackno [OF D(1,3)] by (simp add: k_def)
  obtain bl seg' where bl: "TCPSegment_serialize (fill_in TCPSegment_default True (wrap k (ts_isn ?t)) 0) cks = Inr bl"
      "packet_of cks (BufferList_concatenate bl) seg'" "th_ackno (seg_header seg') = wrap k (ts_isn ?t)"
    using packet_carries [OF default_sendable cks] by blast
  let ?n1 = "n\<lparr>net_acks := insert (k, BufferList_concatenate bl) (net_acks n)\<rparr>"
  let ?n2 = "?n1\<lparr>net_sender := ack_received ?t (wrap k (ts_isn ?t)) (th_win (seg_header seg'))\<rparr>"
  have step: "net_step s cks n ?n1" unfolding k_def by (rule net_step.acknowledge) (use ackno bl(1) in \<open>simp_all add: k_def\<close>)
  have near: "near_seq k (next_seqno_absolute ?t)" unfolding k_def by (rule oldest_timely(2) [OF inv flight])
  have "net_step s cks ?n1 ?n2"
    using net_step.ack_arrives [of k "BufferList_concatenate bl" ?n1 cks seg' s] bl(2,3) near flight by simp
  with step have "net_reach s cks n ?n2" by (meson converse_rtranclp_into_rtranclp r_into_rtranclp)
  moreover have "unat (ts_receiver_ack ?t) < unat (ts_receiver_ack (net_sender ?n2))"
    using ack_covers [OF D(1) flight _ out, of k] near got k rcv_within_ack [OF D(1,3)]
    by (simp add: next_seqno_absolute_def)
  moreover have "ts_next_seqno (net_sender ?n2) = ts_next_seqno ?t"
    using ack_received_cases [OF D(1) flight, of "wrap k (ts_isn ?t)" "th_win (seg_header seg')"] by auto
  ultimately show ?thesis by blast
qed

lemma round_trip:
  assumes inv: "net_inv s cks n" and flight: "unat (bytes_in_flight (net_sender n)) \<le> 2 ^ 31" and cks: "unat cks < 2 ^ 30"
    and out: "ts_outstanding_segments (net_sender n) \<noteq> []"
  shows "\<exists>n'. net_reach s cks n n' \<and> unat (bytes_in_flight (net_sender n')) \<le> 2 ^ 31
    \<and> unat (ts_receiver_ack (net_sender n)) < unat (ts_receiver_ack (net_sender n'))"
proof -
  let ?x = "ts_receiver_ack (net_sender n)" and ?next = "ts_next_seqno (net_sender n)"
  obtain seg rest where seg: "ts_outstanding_segments (net_sender n) = seg # rest" using out by (cases "ts_outstanding_segments (net_sender n)") auto
  obtain n1 b seg' where n1: "net_reach s cks n n1" "(?x, b) \<in> net_wire n1" "packet_of cks b seg'" "seg_like seg' seg"
      "ts_outstanding_segments (net_sender n1) = seg # rest" "ts_receiver_ack (net_sender n1) = ?x"
      "ts_next_seqno (net_sender n1) = ?next"
    using retransmit [OF inv cks seg] by blast
  have inv1: "net_inv s cks n1" by (rule net_reach_inv [OF n1(1) inv cks])
  have flight1: "unat (bytes_in_flight (net_sender n1)) \<le> 2 ^ 31" using flight n1(6,7) by (simp add: bytes_in_flight_def)
  have like: "seg_len seg' = seg_len seg"
    using n1(4) by (simp add: seg_like_def seg_len_def length_in_sequence_space_def)
  obtain n2 where n2: "net_reach s cks n1 n2" "net_sender n2 = net_sender n1"
      "unat ?x + seg_len seg \<le> rcv_ack (net_receiver n2)"
    using receive_segment [OF inv1 flight1 refl _ n1(3) _ cks] oldest_sent(2) [OF net_invD(1) [OF inv1] n1(5)]
      like n1(2,6) by auto
  have inv2: "net_inv s cks n2" by (rule net_reach_inv [OF n2(1) inv1 cks])
  obtain n3 where n3: "net_reach s cks n2 n3" "ts_next_seqno (net_sender n3) = ?next"
      "unat ?x < unat (ts_receiver_ack (net_sender n3))"
    using ack_progress [OF inv2 _ cks, of seg rest] flight1 n1(5-7) n2(2,3) by auto
  have inv3: "net_inv s cks n3" by (rule net_reach_inv [OF n3(1) inv2 cks])
  have "unat (bytes_in_flight (net_sender n3)) \<le> unat (bytes_in_flight (net_sender n))"
    using bytes_in_flight_eq [OF net_invD(1) [OF inv3]] bytes_in_flight_eq [OF net_invD(1) [OF inv]] n3(2,3) by simp
  moreover have "net_reach s cks n n3" using n1(1) n2(1) n3(1) by (meson rtranclp_trans)
  ultimately show ?thesis using n3(3) flight le_trans by blast
qed

lemma ack_advances:
  assumes inv: "net_inv s cks n" and flight: "unat (bytes_in_flight (net_sender n)) \<le> 2 ^ 31" and cks: "unat cks < 2 ^ 30"
    and "unat (ts_receiver_ack (net_sender n)) < length s + 2"
  shows "\<exists>n'. net_reach s cks n n' \<and> unat (bytes_in_flight (net_sender n')) \<le> 2 ^ 31
    \<and> unat (ts_receiver_ack (net_sender n)) < unat (ts_receiver_ack (net_sender n'))"
proof (cases "ts_outstanding_segments (net_sender n) = []")
  case False
  then show ?thesis by (rule round_trip [OF inv flight cks])
next
  case True
  obtain n1 where n1: "net_reach s cks n n1" "ts_outstanding_segments (net_sender n1) \<noteq> []"
      "ts_receiver_ack (net_sender n1) = ts_receiver_ack (net_sender n)" "unat (bytes_in_flight (net_sender n1)) \<le> 2 ^ 31"
    using app_progress [OF inv cks True assms(4)] by blast
  from round_trip [OF net_reach_inv [OF n1(1) inv cks] n1(4) cks n1(2)] n1 show ?thesis
    by (metis rtranclp_trans)
qed

lemma all_acknowledged:
  assumes "net_inv s cks n" and "unat (bytes_in_flight (net_sender n)) \<le> 2 ^ 31" and cks: "unat cks < 2 ^ 30"
  shows "\<exists>n'. net_reach s cks n n' \<and> unat (ts_receiver_ack (net_sender n')) = length s + 2"
  using assms(1,2)
proof (induction "length s + 2 - unat (ts_receiver_ack (net_sender n))" arbitrary: n rule: less_induct)
  case less
  note D = net_invD [OF less.prems(1)]
  have "unat (ts_receiver_ack (net_sender n)) \<le> length s + 2"
    using D(5) rcv_within_ack [OF D(1,3)] snd_next_bound [of s "net_sender n"] D(1) by (simp add: snd_inv_def)
  then consider "unat (ts_receiver_ack (net_sender n)) = length s + 2"
    | "unat (ts_receiver_ack (net_sender n)) < length s + 2" by linarith
  then show ?case
  proof cases
    case 2
    obtain n1 where n1: "net_reach s cks n n1" "unat (bytes_in_flight (net_sender n1)) \<le> 2 ^ 31"
        "unat (ts_receiver_ack (net_sender n)) < unat (ts_receiver_ack (net_sender n1))"
      using ack_advances [OF less.prems cks 2] by blast
    have "length s + 2 - unat (ts_receiver_ack (net_sender n1)) < length s + 2 - unat (ts_receiver_ack (net_sender n))"
      using n1(3) 2 by simp
    from less.hyps [OF this net_reach_inv [OF n1(1) less.prems(1) cks] n1(2)] n1(1) show ?thesis by (meson rtranclp_trans)
  qed blast
qed

section \<open>Properties\<close>

text \<open>When everything is acknowledged, everything is there.\<close>

lemma acknowledged_delivered:
  assumes inv: "net_inv s cks n" and ack: "unat (ts_receiver_ack (net_sender n)) = length s + 2"
  shows "sr_next (rc_reassembler (net_receiver n)) = length s"
    and "bs_end_write (sr_output (rc_reassembler (net_receiver n)))" and "rc_isn (net_receiver n) \<noteq> None"
    and "ts_set_fin_flag (net_sender n)" and "ts_outstanding_segments (net_sender n) = []"
proof -
  let ?t = "net_sender n" and ?rc = "net_receiver n"
  note D = net_invD [OF inv]
  have tr: "sr_tracks (take (snd_bytes ?t) s) (rc_reassembler ?rc)"
    using D(3) by (simp add: rcv_within_def)
  have le: "sr_next (rc_reassembler ?rc) \<le> length s" using sr_tracksD(3) [OF tr] by simp
  show isn: "rc_isn ?rc \<noteq> None" using D(5) ack by (auto simp: rcv_ack_def split: option.splits)
  then have "length s + 1 \<le> sr_next (rc_reassembler ?rc) + of_bool (bs_end_write (sr_output (rc_reassembler ?rc)))"
    using D(5) ack by (auto simp: rcv_ack_def)
  with le show "sr_next (rc_reassembler ?rc) = length s" and ended: "bs_end_write (sr_output (rc_reassembler ?rc))"
    by (cases "bs_end_write (sr_output (rc_reassembler ?rc))"; simp)+
  then show fin: "ts_set_fin_flag ?t" using sr_tracksD(6) [OF tr] D(3) by (simp add: rcv_within_def)
  have "unat (ts_next_seqno ?t) = length s + 2" using next_eq [OF D(1)] fin_all_sent [OF D(1) fin] fin by simp
  then show "ts_outstanding_segments ?t = []" using outstanding_iff [OF D(1)] ack by (simp add: word_unat_eq_iff)
qed

lemma fin_acked_distinct:
  "Sender_FIN_ACKED \<noteq> Sender_ERROR" "Sender_FIN_ACKED \<noteq> Sender_CLOSED" "Sender_FIN_ACKED \<noteq> Sender_SYN_SENT"
  "Sender_FIN_ACKED \<noteq> Sender_SYN_ACKED" "Sender_FIN_ACKED \<noteq> Sender_FIN_SENT"
  by (simp_all add: summary_strings)

lemma finished_summary:
  assumes inv: "net_inv s cks n"
  shows "sender_summary (net_sender n) = Sender_FIN_ACKED \<longleftrightarrow> unat (ts_receiver_ack (net_sender n)) = length s + 2"
proof
  let ?t = "net_sender n"
  note D = net_invD [OF inv]
  assume "sender_summary ?t = Sender_FIN_ACKED"
  then have fin: "ts_set_fin_flag ?t" "ts_outstanding_segments ?t = []"
    using sender_summary_eq [OF D(1)] fin_acked_distinct by (metis, metis)
  then show "unat (ts_receiver_ack ?t) = length s + 2"
    using outstanding_iff [OF D(1)] next_eq [OF D(1)] fin_all_sent [OF D(1)] by simp
next
  let ?t = "net_sender n"
  note D = net_invD [OF inv]
  assume ack: "unat (ts_receiver_ack ?t) = length s + 2"
  then have "ts_receiver_ack ?t \<noteq> 0" by auto
  moreover have "ts_next_seqno ?t \<noteq> 0"
    using fin_all_sent [OF D(1)] acknowledged_delivered(4) [OF inv ack] by simp
  ultimately show "sender_summary ?t = Sender_FIN_ACKED"
    using sender_summary_eq [OF D(1)] acknowledged_delivered(4,5) [OF inv ack] D(9) by simp
qed

text \<open>
  C3. The sender knows when it is done: when its summary is ``finished and fully acknowledged'', the
  receiver has assembled all of \<open>s\<close> and its stream has ended, so that the bytes read together with
  those waiting for the reader are \<open>s\<close>.
\<close>

theorem fin_acked_means_delivered:
  assumes "length s < 2 ^ 63 - 2" and "0 < unat scap" and "0 < unat rcap" and "length s + unat rcap < 2 ^ 64"
    and "unat cks < 2 ^ 30"
    and "net_reach s cks (net_init (TCPSender_new scap retx isn random) (TCPReceiver_new rcap)) n"
    and "sender_summary (net_sender n) = Sender_FIN_ACKED"
  shows "net_delivered n @ bs_buffer (sr_output (rc_reassembler (net_receiver n))) = s
    \<and> receiver_summary (net_receiver n)
        = (if ByteStream_error (sr_output (rc_reassembler (net_receiver n))) then Receiver_ERROR else Receiver_FIN_RECV)"
proof -
  have inv: "net_inv s cks n" by (rule net_reach_inv [OF assms(6) net_init_inv [OF assms(1-4)] assms(5)])
  note all = acknowledged_delivered [OF inv finished_summary [OF inv, THEN iffD1, OF assms(7)]]
  have "TCPReceiver_ackno (net_receiver n) \<noteq> None" using all(3) by (auto simp: TCPReceiver_ackno_def Let_def)
  with all net_invD(8) [OF inv] show ?thesis by (auto simp: receiver_summary_def ByteStream_input_ended_def)
qed

lemma demo_finishes:
  "\<exists>n. net_reach [1, 2, 3] 77 demo_net n \<and> sender_summary (net_sender n) = Sender_FIN_ACKED"
proof -
  have inv: "net_inv [1, 2, 3] 77 demo_net" unfolding demo_net_def by (rule net_init_inv) simp_all
  obtain n where n: "net_reach [1, 2, 3] 77 demo_net n"
      "unat (ts_receiver_ack (net_sender n)) = length [1, 2, 3 :: u8] + 2"
    using all_acknowledged [OF inv] by (auto simp: demo_net_def net_init_def TCPSender_new_def bytes_in_flight_def)
  have "net_inv [1, 2, 3] 77 n" by (rule net_reach_inv [OF n(1) inv]) simp
  from finished_summary [OF this] n show ?thesis by blast
qed

theorem fin_acked_means_delivered_witness:
  "\<exists>n. net_reach [1, 2, 3] 77 demo_net n \<and> sender_summary (net_sender n) = Sender_FIN_ACKED
     \<and> net_delivered n @ bs_buffer (sr_output (rc_reassembler (net_receiver n))) = [1, 2, 3]"
proof -
  obtain n where n: "net_reach [1, 2, 3] 77 demo_net n" "sender_summary (net_sender n) = Sender_FIN_ACKED"
    using demo_finishes by blast
  have "length [1, 2, 3 :: u8] < 2 ^ 63 - 2" "0 < unat (10 :: u64)" "0 < unat (20 :: u64)"
      "length [1, 2, 3 :: u8] + unat (20 :: u64) < 2 ^ 64" "unat (77 :: u32) < 2 ^ 30" by simp_all
  from fin_acked_means_delivered [OF this n(1) [unfolded demo_net_def] n(2)] n show ?thesis by blast
qed

text \<open>
  C2. Nothing the network does is fatal: from every reachable state, whatever has been lost, some
  continuation brings the whole stream to the reader and every acknowledgement back, so that the
  sender is finished. The continuation retransmits the oldest outstanding segment when its timer
  expires, and works for receivers smaller than a segment and for windows of zero. Asked is only that at
  most \<open>2^31\<close> sequence numbers are in flight, which streams shorter than that always satisfy.
\<close>

theorem tcp_never_stuck:
  assumes "length s < 2 ^ 63 - 2" and "0 < unat scap" and "0 < unat rcap" and "length s + unat rcap < 2 ^ 64"
    and cks: "unat cks < 2 ^ 30"
    and "net_reach s cks (net_init (TCPSender_new scap retx isn random) (TCPReceiver_new rcap)) n"
    and "length s < 2 ^ 31 - 2 \<or> unat (bytes_in_flight (net_sender n)) \<le> 2 ^ 31"
  shows "\<exists>n'. net_reach s cks n n' \<and> net_delivered n' = s
    \<and> ByteStream_eof (sr_output (rc_reassembler (net_receiver n')))
    \<and> sender_summary (net_sender n') = Sender_FIN_ACKED"
proof -
  have inv: "net_inv s cks n" by (rule net_reach_inv [OF assms(6) net_init_inv [OF assms(1-4)] cks])
  have flight: "unat (bytes_in_flight (net_sender n)) \<le> 2 ^ 31" using assms(7) short_timely(3) [OF inv] by blast
  obtain n1 where n1: "net_reach s cks n n1" "unat (ts_receiver_ack (net_sender n1)) = length s + 2"
    using all_acknowledged [OF inv flight cks] by blast
  have inv1: "net_inv s cks n1" by (rule net_reach_inv [OF n1(1) inv cks])
  obtain k rc' d where rd: "TCPReceiver_read (net_receiver n1) k = (rc', d)"
      "bs_buffer (sr_output (rc_reassembler rc')) = []"
    using read_all [OF net_invD(3) [OF inv1]] by blast
  let ?n = "n1\<lparr>net_receiver := rc', net_delivered := net_delivered n1 @ d\<rparr>"
  have step: "net_step s cks n1 ?n" using rd(1) by (rule net_step.reader)
  have inv': "net_inv s cks ?n" by (rule net_step_inv [OF step inv1 cks])
  have ack: "unat (ts_receiver_ack (net_sender ?n)) = length s + 2" using n1(2) by simp
  note all = acknowledged_delivered [OF inv' ack]
  have "net_reach s cks n ?n" using n1(1) step by (rule rtranclp.rtrancl_into_rtrancl)
  moreover have "net_delivered ?n = s" using net_invD(8) [OF inv'] all(1) rd(2) by simp
  moreover have "ByteStream_eof (sr_output (rc_reassembler (net_receiver ?n)))"
    using all(2) rd(2) by (simp add: ByteStream_eof_def)
  moreover have "sender_summary (net_sender ?n) = Sender_FIN_ACKED" using finished_summary [OF inv'] ack by blast
  ultimately show ?thesis by blast
qed

theorem tcp_never_stuck_witness:
  "\<exists>n'. net_reach [1, 2, 3] 77 (demo_net\<lparr>net_sender := fill_window (net_sender demo_net)\<rparr>) n'
     \<and> net_delivered n' = [1, 2, 3]"
proof -
  have "length [1, 2, 3 :: u8] < 2 ^ 63 - 2" "0 < unat (10 :: u64)" "0 < unat (20 :: u64)"
      "length [1, 2, 3 :: u8] + unat (20 :: u64) < 2 ^ 64" "unat (77 :: u32) < 2 ^ 30" by simp_all
  from tcp_never_stuck [OF this demo_net_fill [unfolded demo_net_def], folded demo_net_def]
  show ?thesis by simp blast
qed

end
