(* ===== verification/TCP_Channel.thy ===== *)
theory TCP_Channel
  imports TCP_Progress
begin

text \<open>
  What sender, network and receiver promise together: a reliable channel of bytes. The channel is an
  abstract machine that knows nothing of segments, acknowledgements or timers; every step of the
  system is a sequence of steps of the channel.
\<close>

section \<open>Simulation\<close>

text \<open>A concrete step relation implements an abstract one on the states that satisfy an invariant.\<close>

locale simulation =
  fixes cstep :: "'c \<Rightarrow> 'c \<Rightarrow> bool" and astep :: "'a \<Rightarrow> 'a \<Rightarrow> bool"
    and inv :: "'c \<Rightarrow> bool" and abs :: "'c \<Rightarrow> 'a"
  assumes inv_step: "inv c \<Longrightarrow> cstep c c' \<Longrightarrow> inv c'"
    and sim_step: "inv c \<Longrightarrow> cstep c c' \<Longrightarrow> astep\<^sup>*\<^sup>* (abs c) (abs c')"
begin

lemma run_inv: "cstep\<^sup>*\<^sup>* c c' \<Longrightarrow> inv c \<Longrightarrow> inv c'"
  by (induction rule: rtranclp_induct) (auto intro: inv_step)

lemma run_sim: "cstep\<^sup>*\<^sup>* c c' \<Longrightarrow> inv c \<Longrightarrow> astep\<^sup>*\<^sup>* (abs c) (abs c')"
proof (induction rule: rtranclp_induct)
  case (step d e)
  then show ?case using sim_step run_inv by (meson rtranclp_trans)
qed simp

end

section \<open>The channel\<close>

text \<open>
  The channel holds what has been written to it and what has been read from it. The writer appends
  until it closes the channel; the reader takes the next bytes; the end of the file is signalled when
  the channel is closed and everything has been read.
\<close>

record channel =
  ch_written :: bytes
  ch_read :: bytes
  ch_closed :: bool
  ch_eof :: bool

definition empty_channel :: channel where
  "empty_channel = \<lparr>ch_written = [], ch_read = [], ch_closed = False, ch_eof = False\<rparr>"

inductive channel_step :: "channel \<Rightarrow> channel \<Rightarrow> bool" where
  put: "\<not> ch_closed c \<Longrightarrow> channel_step c (c\<lparr>ch_written := ch_written c @ d\<rparr>)"
| close: "channel_step c (c\<lparr>ch_closed := True\<rparr>)"
| get: "ch_written c = ch_read c @ d @ e \<Longrightarrow> channel_step c (c\<lparr>ch_read := ch_read c @ d\<rparr>)"
| hang_up: "ch_closed c \<Longrightarrow> ch_read c = ch_written c \<Longrightarrow> channel_step c (c\<lparr>ch_eof := True\<rparr>)"

inductive_cases channel_stepE: "channel_step c c'"

definition channel_of :: "bytes \<Rightarrow> tcp_net \<Rightarrow> channel" where
  "channel_of s n =
     \<lparr>ch_written = take (snd_accepted (net_sender n)) s, ch_read = net_delivered n,
      ch_closed = bs_end_write (ts_stream (net_sender n)),
      ch_eof = ByteStream_eof (sr_output (rc_reassembler (net_receiver n)))\<rparr>"

lemma channel_of_fields [simp]:
  "ch_written (channel_of s n) = take (snd_accepted (net_sender n)) s" "ch_read (channel_of s n) = net_delivered n"
  "ch_closed (channel_of s n) = bs_end_write (ts_stream (net_sender n))"
  "ch_eof (channel_of s n) = ByteStream_eof (sr_output (rc_reassembler (net_receiver n)))"
  by (simp_all add: channel_of_def)

section \<open>The writer's side\<close>

lemma channel_of_network [simp]:
  "channel_of s (n\<lparr>net_wire := w\<rparr>) = channel_of s n" "channel_of s (n\<lparr>net_acks := a\<rparr>) = channel_of s n"
  "channel_of s (n\<lparr>net_sender := t', net_wire := w\<rparr>) = channel_of s (n\<lparr>net_sender := t'\<rparr>)"
  by (simp_all add: channel_of_def)

lemma same_channel:
  assumes "snd_accepted t' = snd_accepted (net_sender n)"
    and "bs_end_write (ts_stream t') = bs_end_write (ts_stream (net_sender n))"
  shows "channel_of s (n\<lparr>net_sender := t'\<rparr>) = channel_of s n"
  using assms by (simp add: channel_of_def)

lemma same_stream: "ts_stream t' = ts_stream (net_sender n) \<Longrightarrow> channel_of s (n\<lparr>net_sender := t'\<rparr>) = channel_of s n"
  by (rule same_channel) (simp_all add: snd_accepted_def snd_bytes_def)

lemma write_channel:
  assumes inv: "snd_inv s (net_sender n)" and app: "app_ok s (AppWrite d) (net_sender n)"
  shows "channel_step (channel_of s n) (channel_of s (n\<lparr>net_sender := stream_in_write (net_sender n) d\<rparr>))"
proof -
  let ?t = "net_sender n" and ?t' = "stream_in_write (net_sender n) d"
  let ?a = "snd_accepted ?t" and ?m = "min (bs_room (ts_stream ?t)) (length d)"
  have st: "bs_inv (ts_stream ?t)" using inv by (simp add: snd_inv_def snd_stream_inv_def)
  have "d = take (length d) (drop ?a s)" using app by simp
  from arg_cong [OF this, of length] have "length d \<le> length s" by simp
  then have d: "length d < 2 ^ 64" using inv by (simp add: snd_inv_def snd_stream_inv_def)
  have acc: "snd_accepted ?t' = ?a + ?m"
    using bs.put_held [OF st d] by (simp add: snd_accepted_def snd_bytes_def stream_in_write_def write_eq [OF st d])
  have "take (snd_accepted ?t') s = take ?a s @ take ?m (drop ?a s)" by (simp add: acc take_add)
  moreover have "bs_end_write (ts_stream ?t') = bs_end_write (ts_stream ?t)"
    by (simp add: stream_in_write_def write_eq [OF st d])
  ultimately have "channel_of s (n\<lparr>net_sender := ?t'\<rparr>)
      = (channel_of s n)\<lparr>ch_written := ch_written (channel_of s n) @ take ?m (drop ?a s)\<rparr>"
    by (simp add: channel_of_def)
  then show ?thesis using channel_step.put [of "channel_of s n"] app by simp
qed

lemma end_channel: "channel_step (channel_of s n) (channel_of s (n\<lparr>net_sender := stream_in_end (net_sender n)\<rparr>))"
proof -
  have "channel_of s (n\<lparr>net_sender := stream_in_end (net_sender n)\<rparr>) = (channel_of s n)\<lparr>ch_closed := True\<rparr>"
    by (simp add: channel_of_def stream_in_end_def ByteStream_end_input_def snd_accepted_def snd_bytes_def)
  then show ?thesis by (simp add: channel_step.close)
qed

lemma sender_channel:
  assumes inv: "snd_inv s (net_sender n)" and oper: "local_op oper" "app_ok s oper (net_sender n)"
      "sender_step oper (net_sender n) = Inr t'"
  shows "channel_step\<^sup>*\<^sup>* (channel_of s n) (channel_of s (n\<lparr>net_sender := t'\<rparr>))"
proof (cases oper)
  case (AppWrite d)
  then show ?thesis using write_channel [OF inv, of d] oper by auto
next
  case AppEnd
  then show ?thesis using end_channel [of s n] oper by auto
next
  case FillWindow
  then have "t' = fill_window (net_sender n)" using oper by simp
  then have "snd_accepted t' = snd_accepted (net_sender n)" "bs_end_write (ts_stream t') = bs_end_write (ts_stream (net_sender n))"
    using fill_window_sent [OF inv] by (auto simp: fill_sent_def)
  then show ?thesis by (simp add: same_channel)
next
  case (Tick ms)
  then have "ts_stream t' = ts_stream (net_sender n)" using tick_inv [OF inv, of ms] oper by auto
  then show ?thesis by (simp add: same_stream)
next
  case SendEmptySegment
  then have "ts_stream t' = ts_stream (net_sender n)" using oper by (auto simp: send_empty_segment_def Let_def)
  then show ?thesis by (simp add: same_stream)
qed (use oper in auto)

section \<open>The reader's side\<close>

text \<open>The end of the file is reached when the stream has ended and all of it has been read.\<close>

lemma eof_iff:
  assumes inv: "net_inv s cks n"
  shows "ByteStream_eof (sr_output (rc_reassembler (net_receiver n)))
    \<longleftrightarrow> bs_end_write (sr_output (rc_reassembler (net_receiver n))) \<and> net_delivered n = s"
proof -
  have "bs_end_write (sr_output (rc_reassembler (net_receiver n))) \<Longrightarrow>
      net_delivered n @ bs_buffer (sr_output (rc_reassembler (net_receiver n))) = s"
    using net_invD(8) [OF inv] assembled_prefix(2) [OF inv] by (simp add: ByteStream_input_ended_def)
  then show ?thesis by (auto simp: ByteStream_eof_def)
qed

lemma accepted_all:
  assumes inv: "net_inv s cks n" and "bs_end_write (sr_output (rc_reassembler (net_receiver n)))"
  shows "bs_end_write (ts_stream (net_sender n))" and "take (snd_accepted (net_sender n)) s = s"
proof -
  note D = net_invD [OF inv]
  have "sr_tracks (take (snd_bytes (net_sender n)) s) (rc_reassembler (net_receiver n))"
    using D(3) by (simp add: rcv_within_def)
  from sr_tracksD(6) [OF this] have "ts_set_fin_flag (net_sender n)"
    using assms(2) D(3) by (simp add: rcv_within_def)
  then show "bs_end_write (ts_stream (net_sender n))" "take (snd_accepted (net_sender n)) s = s"
    using D(1) fin_all_sent [OF D(1)] by (simp_all add: snd_inv_def snd_stream_inv_def snd_accepted_def)
qed

lemma delivered_written:
  assumes inv: "net_inv s cks n"
  shows "\<exists>e. take (snd_accepted (net_sender n)) s = net_delivered n @ e"
proof -
  note D = net_invD [OF inv]
  let ?k = "sr_next (rc_reassembler (net_receiver n))" and ?a = "snd_accepted (net_sender n)"
  have "sr_tracks (take (snd_bytes (net_sender n)) s) (rc_reassembler (net_receiver n))"
    using D(3) by (simp add: rcv_within_def)
  from sr_tracksD(3) [OF this] have "?k \<le> ?a" by (simp add: snd_accepted_def)
  then have "take ?a s = take ?k s @ take (?a - ?k) (drop ?k s)" using take_add [of ?k "?a - ?k" s] by simp
  then show ?thesis by (simp flip: D(8))
qed

text \<open>A step that adds \<open>d\<close> to what has been read, and may reach the end.\<close>

lemma receiver_channel:
  assumes inv': "net_inv s cks (n\<lparr>net_receiver := rc', net_delivered := net_delivered n @ d\<rparr>)"
    and inv: "net_inv s cks n"
    and ended: "bs_end_write (sr_output (rc_reassembler (net_receiver n))) \<Longrightarrow> bs_end_write (sr_output (rc_reassembler rc'))"
  shows "channel_step\<^sup>*\<^sup>* (channel_of s n)
    (channel_of s (n\<lparr>net_receiver := rc', net_delivered := net_delivered n @ d\<rparr>))"
proof -
  let ?n = "n\<lparr>net_receiver := rc', net_delivered := net_delivered n @ d\<rparr>"
  let ?c = "(channel_of s n)\<lparr>ch_read := ch_read (channel_of s n) @ d\<rparr>"
  obtain e where e: "take (snd_accepted (net_sender n)) s = net_delivered n @ d @ e"
    using delivered_written [OF inv'] by auto
  then have get: "channel_step (channel_of s n) ?c" by (intro channel_step.get) simp
  let ?eof = "\<lambda>rc. ByteStream_eof (sr_output (rc_reassembler rc))"
  show ?thesis
  proof (cases "?eof rc' = ?eof (net_receiver n)")
    case True
    then have "channel_of s ?n = ?c" by (simp add: channel_of_def)
    with get show ?thesis by auto
  next
    case False
    have "?eof (net_receiver n) \<Longrightarrow> ?eof rc'"
    proof -
      assume "?eof (net_receiver n)"
      then have "net_delivered n = s" "bs_end_write (sr_output (rc_reassembler rc'))"
        using eof_iff [OF inv] ended by auto
      moreover have "length (net_delivered n @ d @ e) \<le> length s" by (simp flip: e)
      ultimately show ?thesis using eof_iff [OF inv'] by simp
    qed
    with False have eof: "?eof rc'" "\<not> ?eof (net_receiver n)" by auto
    then have "bs_end_write (sr_output (rc_reassembler (net_receiver ?n)))" "net_delivered n @ d = s"
      using eof_iff [OF inv'] by auto
    with accepted_all [OF inv'] have "channel_step ?c (?c\<lparr>ch_eof := True\<rparr>)" by (intro channel_step.hang_up) auto
    moreover have "channel_of s ?n = ?c\<lparr>ch_eof := True\<rparr>" using eof by (simp add: channel_of_def)
    ultimately show ?thesis using get by (metis converse_rtranclp_into_rtranclp r_into_rtranclp)
  qed
qed

section \<open>The refinement\<close>

lemma net_step_channel:
  assumes inv: "net_inv s cks n" and cks: "unat cks < 2 ^ 30" and step: "net_step s cks n n'"
  shows "channel_step\<^sup>*\<^sup>* (channel_of s n) (channel_of s n')"
  using step
proof (cases rule: net_step.cases)
  case (sender_acts oper t')
  then show ?thesis using sender_channel [OF net_invD(1) [OF inv]] by simp
next
  case (transmit seg queue x ack ackno win bl)
  then show ?thesis using same_stream [of "segments_out_pop (net_sender n)" n s] by (simp add: segments_out_pop_def)
next
  case (deliver x b seg rc')
  have "sent_seg s (net_sender n) x seg"
    using net_invD(6) [OF inv deliver(2)] packet_unique [OF deliver(4)] by auto
  from deliver_within [OF net_invD(1,3) [OF inv] this deliver(3)] deliver(5)
  have "bs_end_write (sr_output (rc_reassembler (net_receiver n))) \<Longrightarrow> bs_end_write (sr_output (rc_reassembler rc'))"
    using push_post_ended by auto
  moreover have "n' = n\<lparr>net_receiver := rc', net_delivered := net_delivered n @ []\<rparr>" using deliver(1) by simp
  ultimately show ?thesis using receiver_channel [where d = "[]" and rc' = rc'] net_step_inv [OF step inv cks] inv by simp
next
  case (reader k rc' d)
  have "bs_end_write (sr_output (rc_reassembler rc')) = bs_end_write (sr_output (rc_reassembler (net_receiver n)))"
    using read_within [OF net_invD(3) [OF inv] reader(2)] by blast
  then show ?thesis using receiver_channel [where d = d and rc' = rc'] net_step_inv [OF step inv cks] inv reader(1) by simp
next
  case (ack_arrives k b seg)
  then show ?thesis
    using ack_received_cases [OF net_invD(1) [OF inv] ack_arrives(4), of "th_ackno (seg_header seg)" "th_win (seg_header seg)"]
      same_stream [of "ack_received (net_sender n) (th_ackno (seg_header seg)) (th_win (seg_header seg))" n s] by auto
qed simp_all

interpretation tcp: simulation "net_step s cks" channel_step "\<lambda>n. net_inv s cks n \<and> unat cks < 2 ^ 30" "channel_of s"
  for s cks
  by unfold_locales (use net_step_inv net_step_channel in blast)+

text \<open>What the channel itself promises.\<close>

lemma channel_step_safe:
  "channel_step c c' \<Longrightarrow> \<exists>e. ch_written c = ch_read c @ e \<Longrightarrow> ch_eof c \<longrightarrow> ch_closed c \<and> ch_read c = ch_written c \<Longrightarrow>
   (\<exists>e. ch_written c' = ch_read c' @ e) \<and> (ch_eof c' \<longrightarrow> ch_closed c' \<and> ch_read c' = ch_written c')"
  by (induction rule: channel_step.induct) auto

lemma channel_safe:
  "channel_step\<^sup>*\<^sup>* empty_channel c \<Longrightarrow>
   (\<exists>e. ch_written c = ch_read c @ e) \<and> (ch_eof c \<longrightarrow> ch_closed c \<and> ch_read c = ch_written c)"
  by (induction rule: rtranclp_induct) (use channel_step_safe in \<open>auto simp: empty_channel_def\<close>)

section \<open>Properties\<close>



end
