(* ===== verification/System_Calls.thy ===== *)
theory System_Calls
  imports Buffers
begin

text \<open>
  The boundary to the operating system. The system calls and library lookups that the sources make
  are the fields of a record \<open>kernel\<close>, a parameter of every definition that uses them; \<open>'w\<close> is the
  state of the world behind them. Each returns what the C function returns and leaves in \<open>errno\<close> and
  in its out-parameters. The arguments that are the same in every call of the sources are left out:
  \<open>open\<close> is for reading and writing, \<open>socket\<close> has protocol 0, \<open>recvfrom\<close> the flag \<open>MSG_TRUNC\<close>,
  \<open>accept\<close> asks for no address, \<open>getnameinfo\<close> for numeric results. The wrapper \<open>SystemCall\<close> and the error classes of \<open>util.hh\<close> and \<open>util.cc\<close>
  are modelled on top.
\<close>

section \<open>The kernel\<close>

text \<open>A \<open>pollfd\<close>, with the 16-bit masks of requested and returned events.\<close>

record pollfd =
  pfd_fd :: int
  pfd_events :: u16
  pfd_revents :: u16

text \<open>The return value and \<open>errno\<close>, and the new state of the world.\<close>

type_synonym 'w call = "'w \<Rightarrow> int \<times> int \<times> 'w"

type_synonym ('w, 'a) query = "'w \<Rightarrow> int \<times> int \<times> 'a \<times> 'w"

record 'w kernel =
  k_close :: "int \<Rightarrow> 'w call"
  k_read :: "int \<Rightarrow> u64 \<Rightarrow> ('w, bytes) query"
  k_writev :: "int \<Rightarrow> iovec list \<Rightarrow> 'w call"
  k_fcntl_getfl :: "int \<Rightarrow> 'w call"
  k_fcntl_setfl :: "int \<Rightarrow> u32 \<Rightarrow> 'w call"
  k_poll :: "pollfd list \<Rightarrow> int \<Rightarrow> ('w, u16 list) query"
  k_socket :: "int \<Rightarrow> int \<Rightarrow> 'w call"
  k_getsockopt :: "int \<Rightarrow> int \<Rightarrow> int \<Rightarrow> ('w, int \<times> u32) query"
  k_setsockopt :: "int \<Rightarrow> int \<Rightarrow> int \<Rightarrow> int \<Rightarrow> 'w call"
  k_getsockname :: "int \<Rightarrow> u32 \<Rightarrow> ('w, bytes \<times> u32) query"
  k_getpeername :: "int \<Rightarrow> u32 \<Rightarrow> ('w, bytes \<times> u32) query"
  k_bind :: "int \<Rightarrow> bytes \<Rightarrow> 'w call"
  k_connect :: "int \<Rightarrow> bytes \<Rightarrow> 'w call"
  k_shutdown :: "int \<Rightarrow> int \<Rightarrow> 'w call"
  k_listen :: "int \<Rightarrow> int \<Rightarrow> 'w call"
  k_accept :: "int \<Rightarrow> 'w call"
  k_recvfrom :: "int \<Rightarrow> u64 \<Rightarrow> ('w, bytes \<times> bytes \<times> u32) query"
  k_sendmsg :: "int \<Rightarrow> bytes option \<Rightarrow> iovec list \<Rightarrow> 'w call"
  k_open :: "string \<Rightarrow> 'w call"
  k_ioctl_tunsetiff :: "int \<Rightarrow> u16 \<Rightarrow> bytes \<Rightarrow> 'w call"
  k_getaddrinfo :: "string \<Rightarrow> string \<Rightarrow> int \<times> int \<Rightarrow> 'w \<Rightarrow> int \<times> bytes list \<times> 'w"
  k_getnameinfo :: "bytes \<Rightarrow> 'w \<Rightarrow> int \<times> (string \<times> string) \<times> 'w"
  k_strerror :: "int \<Rightarrow> string"
  k_gai_strerror :: "int \<Rightarrow> string"

section \<open>Errors of system calls\<close>

text \<open>The conversion of a return value to the \<open>int\<close> that \<open>SystemCall\<close> takes and returns.\<close>

definition c_int :: "int \<Rightarrow> int" where
  "c_int x = sint (word_of_int x :: u32)"

lemma c_int_id [simp]: "- (2 ^ 31) \<le> x \<Longrightarrow> x < 2 ^ 31 \<Longrightarrow> c_int x = x"
  by (simp add: c_int_def signed_of_int signed_take_bit_int_eq_self)

definition SystemCall :: "string \<Rightarrow> int \<Rightarrow> int \<Rightarrow> int \<Rightarrow> int result" where
  "SystemCall attempt return_value errno errno_mask =
     (if 0 \<le> c_int return_value \<or> errno = errno_mask then Inr (c_int return_value)
      else Inl (UnixError attempt errno))"

text \<open>The error category of the resolver, of which only the messages are used.\<close>

definition gai_error_category_name :: string where
  "gai_error_category_name = ''gai_error_category''"

definition gai_error_category_message :: "('w, 'x) kernel_scheme \<Rightarrow> int \<Rightarrow> string" where
  "gai_error_category_message K return_value = k_gai_strerror K return_value"

text \<open>
  \<open>what()\<close>: a tagged error puts the attempt before the message of its category, which for the resolver
  is \<open>gai_strerror\<close>; the others carry their text.
\<close>

fun what :: "('w, 'x) kernel_scheme \<Rightarrow> cpp_error \<Rightarrow> string" where
  "what K (UnixError attempt error) = attempt @ '': '' @ k_strerror K error"
| "what K (GaiError attempt error) = attempt @ '': '' @ gai_error_category_message K error"
| "what K (RuntimeError text) = text"
| "what K (OutOfRange text) = text"
| "what K (LengthError text) = text"
| "what K (InvalidArgument text) = text"
| "what K UndefinedBehaviour = ''''"

lemma SystemCall_ok: "0 \<le> r \<Longrightarrow> r < 2 ^ 31 \<Longrightarrow> SystemCall attempt r e 0 = Inr r"
  by (simp add: SystemCall_def)

lemma SystemCall_error: "r < 0 \<Longrightarrow> - (2 ^ 31) \<le> r \<Longrightarrow> e \<noteq> 0 \<Longrightarrow> SystemCall attempt r e 0 = Inl (UnixError attempt e)"
  by (simp add: SystemCall_def)

section \<open>Text\<close>

definition ascii :: "string \<Rightarrow> bytes" where
  "ascii = map of_char"

lemma ascii_append [simp]: "ascii (a @ b) = ascii a @ ascii b"
  by (simp add: ascii_def)

lemma ascii_length [simp]: "length (ascii a) = length a"
  by (simp add: ascii_def)

text \<open>\<open>std::to_string\<close> and the stream inserters for integers: digits in base ten or sixteen.\<close>

definition digit :: "nat \<Rightarrow> char" where
  "digit d = ''0123456789abcdef'' ! d"

fun digits :: "nat \<Rightarrow> nat \<Rightarrow> string" where
  "digits b n = (if b < 2 \<or> n < b then [digit n] else digits b (n div b) @ [digit (n mod b)])"

declare digits.simps [simp del]

definition decimal :: "nat \<Rightarrow> string" where
  "decimal n = digits 10 n"

definition decimal_int :: "int \<Rightarrow> string" where
  "decimal_int i = (if i < 0 then ''-'' @ decimal (nat (- i)) else decimal (nat i))"

end
