(* ===== verification/File_Descriptor.thy ===== *)
theory File_Descriptor
  imports System_Calls
begin

text \<open>
  The class \<open>FileDescriptor\<close> of \<open>util/file_descriptor.hh\<close> and \<open>util/file_descriptor.cc\<close>. A
  \<open>FileDescriptor\<close> is a counted reference to an \<open>FDWrapper\<close>, and duplicates share its flags and
  counters, so the wrappers live in a store with their reference counts and a \<open>FileDescriptor\<close> is an
  address in it. An operation takes the system (store, standard output and error, and the world) and
  gives a result or an exception together with the system it leaves.
\<close>

section \<open>Operations on the system\<close>

record FDWrapper =
  fw_fd :: int
  fw_eof :: bool
  fw_closed :: bool
  fw_read_count :: u32
  fw_write_count :: u32

type_synonym FileDescriptor = nat

record 'w system =
  sy_cells :: "(FDWrapper \<times> nat) list"
  sy_cout :: bytes
  sy_cerr :: bytes
  sy_world :: 'w

type_synonym ('w, 'a) io = "'w system \<Rightarrow> 'a result \<times> 'w system"

definition io_return :: "'a \<Rightarrow> ('w, 'a) io" where
  "io_return x s = (Inr x, s)"

definition io_throw :: "cpp_error \<Rightarrow> ('w, 'a) io" where
  "io_throw e s = (Inl e, s)"

definition io_bind :: "('w, 'a) io \<Rightarrow> ('a \<Rightarrow> ('w, 'b) io) \<Rightarrow> ('w, 'b) io" where
  "io_bind m f s = (case m s of (Inl e, s') \<Rightarrow> (Inl e, s') | (Inr x, s') \<Rightarrow> f x s')"

definition io_catch :: "('w, 'a) io \<Rightarrow> (cpp_error \<Rightarrow> ('w, 'a) io) \<Rightarrow> ('w, 'a) io" where
  "io_catch m h s = (case m s of (Inl e, s') \<Rightarrow> h e s' | (Inr x, s') \<Rightarrow> (Inr x, s'))"

definition io_result :: "'a result \<Rightarrow> ('w, 'a) io" where
  "io_result r s = (r, s)"

definition cout :: "bytes \<Rightarrow> ('w, unit) io" where
  "cout b s = (Inr (), s\<lparr>sy_cout := sy_cout s @ b\<rparr>)"

definition cerr :: "bytes \<Rightarrow> ('w, unit) io" where
  "cerr b s = (Inr (), s\<lparr>sy_cerr := sy_cerr s @ b\<rparr>)"

text \<open>\<open>SystemCall(attempt, f(...))\<close> with the default mask; a query also fills in an out-parameter.\<close>

definition syscall :: "string \<Rightarrow> 'w call \<Rightarrow> ('w, int) io" where
  "syscall attempt f s =
     (case f (sy_world s) of (ret, errno, w) \<Rightarrow> (SystemCall attempt ret errno 0, s\<lparr>sy_world := w\<rparr>))"

definition sysquery :: "string \<Rightarrow> ('w, 'a) query \<Rightarrow> ('w, int \<times> 'a) io" where
  "sysquery attempt f s =
     (case f (sy_world s) of (ret, errno, out, w) \<Rightarrow>
        (try_bind (SystemCall attempt ret errno 0) (\<lambda>r. Inr (r, out)), s\<lparr>sy_world := w\<rparr>))"

text \<open>The wrapper behind a live reference.\<close>

definition wrapper :: "FileDescriptor \<Rightarrow> ('w, FDWrapper) io" where
  "wrapper d s =
     (if d < length (sy_cells s) \<and> 0 < snd (sy_cells s ! d) then (Inr (fst (sy_cells s ! d)), s)
      else (Inl UndefinedBehaviour, s))"

definition modify_wrapper :: "FileDescriptor \<Rightarrow> (FDWrapper \<Rightarrow> FDWrapper) \<Rightarrow> ('w, unit) io" where
  "modify_wrapper d f =
     io_bind (wrapper d) (\<lambda>w s. (Inr (), s\<lparr>sy_cells := (sy_cells s)[d := (f w, snd (sy_cells s ! d))]\<rparr>))"

section \<open>FDWrapper\<close>

definition FDWrapper_new :: "int \<Rightarrow> FDWrapper result" where
  "FDWrapper_new fd =
     (if fd < 0 then Inl (RuntimeError (''invalid fd number:'' @ decimal_int fd))
      else Inr \<lparr>fw_fd = fd, fw_eof = False, fw_closed = False, fw_read_count = 0, fw_write_count = 0\<rparr>)"

definition FDWrapper_close :: "'w kernel \<Rightarrow> FileDescriptor \<Rightarrow> ('w, unit) io" where
  "FDWrapper_close K d =
     io_bind (wrapper d) (\<lambda>w.
     io_bind (syscall ''close'' (k_close K (fw_fd w))) (\<lambda>_.
     modify_wrapper d (\<lambda>w. w\<lparr>fw_eof := True, fw_closed := True\<rparr>)))"

definition FDWrapper_destroy :: "'w kernel \<Rightarrow> FileDescriptor \<Rightarrow> ('w, unit) io" where
  "FDWrapper_destroy K d =
     io_catch
       (io_bind (wrapper d) (\<lambda>w. if fw_closed w then io_return () else FDWrapper_close K d))
       (\<lambda>e. if e = UndefinedBehaviour then io_throw e
            else cerr (ascii (''Exception destructing FDWrapper: '' @ what K e @ ''\<newline>'')))"

section \<open>FileDescriptor\<close>

definition FileDescriptor_new :: "int \<Rightarrow> ('w, FileDescriptor) io" where
  "FileDescriptor_new fd =
     io_bind (io_result (FDWrapper_new fd)) (\<lambda>w s.
       (Inr (length (sy_cells s)), s\<lparr>sy_cells := sy_cells s @ [(w, 1)]\<rparr>))"

definition FileDescriptor_duplicate :: "FileDescriptor \<Rightarrow> ('w, FileDescriptor) io" where
  "FileDescriptor_duplicate d =
     io_bind (wrapper d) (\<lambda>w s.
       (Inr d, s\<lparr>sy_cells := (sy_cells s)[d := (w, snd (sy_cells s ! d) + 1)]\<rparr>))"

text \<open>Giving up a reference; the last one runs the destructor of the wrapper.\<close>

definition FileDescriptor_destroy :: "'w kernel \<Rightarrow> FileDescriptor \<Rightarrow> ('w, unit) io" where
  "FileDescriptor_destroy K d =
     io_bind (wrapper d) (\<lambda>_ s.
       io_bind (if snd (sy_cells s ! d) = 1 then FDWrapper_destroy K d else io_return ())
         (\<lambda>_ s'. (Inr (), s'\<lparr>sy_cells := (sy_cells s')[d := (fst (sy_cells s' ! d), snd (sy_cells s' ! d) - 1)]\<rparr>)) s)"

definition register_read :: "FileDescriptor \<Rightarrow> ('w, unit) io" where
  "register_read d = modify_wrapper d (\<lambda>w. w\<lparr>fw_read_count := fw_read_count w + 1\<rparr>)"

definition register_write :: "FileDescriptor \<Rightarrow> ('w, unit) io" where
  "register_write d = modify_wrapper d (\<lambda>w. w\<lparr>fw_write_count := fw_write_count w + 1\<rparr>)"

definition FileDescriptor_close :: "'w kernel \<Rightarrow> FileDescriptor \<Rightarrow> ('w, unit) io" where
  "FileDescriptor_close K d = FDWrapper_close K d"

definition fd_num :: "FileDescriptor \<Rightarrow> ('w, int) io" where
  "fd_num d = io_bind (wrapper d) (\<lambda>w. io_return (fw_fd w))"

definition FileDescriptor_eof :: "FileDescriptor \<Rightarrow> ('w, bool) io" where
  "FileDescriptor_eof d = io_bind (wrapper d) (\<lambda>w. io_return (fw_eof w))"

definition FileDescriptor_closed :: "FileDescriptor \<Rightarrow> ('w, bool) io" where
  "FileDescriptor_closed d = io_bind (wrapper d) (\<lambda>w. io_return (fw_closed w))"

definition read_count :: "FileDescriptor \<Rightarrow> ('w, u32) io" where
  "read_count d = io_bind (wrapper d) (\<lambda>w. io_return (fw_read_count w))"

definition write_count :: "FileDescriptor \<Rightarrow> ('w, u32) io" where
  "write_count d = io_bind (wrapper d) (\<lambda>w. io_return (fw_write_count w))"

text \<open>\<open>std::string::resize\<close>, and a buffer whose front the kernel has overwritten.\<close>

definition string_resize :: "bytes \<Rightarrow> nat \<Rightarrow> bytes" where
  "string_resize str n = take n str @ replicate (n - length str) 0"

definition overwrite :: "bytes \<Rightarrow> bytes \<Rightarrow> bytes" where
  "overwrite buf data = take (length buf) data @ drop (length data) buf"

definition BUFFER_SIZE :: u64 where
  "BUFFER_SIZE = 1024 * 1024"

definition FileDescriptor_read_into :: "'w kernel \<Rightarrow> FileDescriptor \<Rightarrow> bytes \<Rightarrow> u64 \<Rightarrow> ('w, bytes) io" where
  "FileDescriptor_read_into K d str limit =
     (let size_to_read = min BUFFER_SIZE limit;
          str1 = string_resize str (unat size_to_read)
      in io_bind (fd_num d) (\<lambda>fd.
         io_bind (sysquery ''read'' (k_read K fd size_to_read)) (\<lambda>(bytes_read, data).
         io_bind (if 0 < limit \<and> bytes_read = 0 then modify_wrapper d (\<lambda>w. w\<lparr>fw_eof := True\<rparr>) else io_return ()) (\<lambda>_.
         if sint size_to_read < bytes_read then io_throw (RuntimeError ''read() read more than requested'')
         else if bytes_read < 0 then io_throw (LengthError ''basic_string::_M_replace_aux'')
         else io_bind (register_read d) (\<lambda>_.
           io_return (string_resize (overwrite str1 data) (nat bytes_read)))))))"

definition FileDescriptor_read :: "'w kernel \<Rightarrow> FileDescriptor \<Rightarrow> u64 \<Rightarrow> ('w, bytes) io" where
  "FileDescriptor_read K d limit = FileDescriptor_read_into K d [] limit"

text \<open>One round of the loop of \<open>write\<close>: the number of bytes written and what is left of the buffer.\<close>

definition write_round :: "'w kernel \<Rightarrow> FileDescriptor \<Rightarrow> BufferViewList \<Rightarrow> ('w, u64 \<times> BufferViewList) io" where
  "write_round K d buffer =
     (let iovecs = as_iovecs buffer
      in io_bind (fd_num d) (\<lambda>fd.
         io_bind (syscall ''writev'' (k_writev K fd iovecs)) (\<lambda>bytes_written.
         if bytes_written = 0 \<and> BufferViewList_size buffer \<noteq> 0
         then io_throw (RuntimeError ''write returned 0 given non-empty input buffer'')
         else if sint (BufferViewList_size buffer) < bytes_written
         then io_throw (RuntimeError ''write wrote more than length of input buffer'')
         else io_bind (register_write d) (\<lambda>_.
              io_bind (io_result (BufferViewList_remove_prefix buffer (word_of_int bytes_written))) (\<lambda>buffer'.
              io_return (word_of_int bytes_written, buffer'))))))"

lemma view_prefix_decreases:
  "view_prefix_loop vs n = Inr vs' \<Longrightarrow> n \<noteq> 0 \<Longrightarrow> length (concat vs') + length vs' < length (concat vs) + length vs"
proof (induction vs arbitrary: n)
  case Nil
  then show ?case by (simp add: view_prefix_loop.simps [of "[]"] word_gt_0)
next
  case (Cons v vs)
  show ?case
  proof (cases "n < size_t v")
    case True
    have "unat (size_t v) \<le> length v" by (simp add: size_t_def unat_of_nat)
    then have "unat n \<le> length v" "0 < unat n" using True Cons.prems(2) by (simp_all add: word_less_nat_alt unat_gt_0)
    then show ?thesis using True Cons.prems by (auto simp: view_prefix_loop.simps [of "v # vs"] word_gt_0)
  next
    case False
    then have rest: "view_prefix_loop vs (n - size_t v) = Inr vs'"
      using Cons.prems by (simp add: view_prefix_loop.simps [of "v # vs"] word_gt_0)
    show ?thesis
    proof (cases "n - size_t v = 0")
      case True
      with rest show ?thesis by simp
    next
      case False
      from Cons.IH [OF rest this] show ?thesis by simp
    qed
  qed
qed

lemma c_int_range: "- (2 ^ 31) \<le> c_int x \<and> c_int x < 2 ^ 31"
  using sint_greater_eq [of "word_of_int x :: u32"] sint_less [of "word_of_int x :: u32"] by (simp add: c_int_def)

lemma word_of_int_c_int: "word_of_int (c_int x) = (0 :: u64) \<Longrightarrow> c_int x = 0"
proof -
  assume "word_of_int (c_int x) = (0 :: u64)"
  then have "sint (word_of_int (c_int x) :: u64) = 0" by simp
  moreover have "sint (word_of_int (c_int x) :: u64) = c_int x"
    using c_int_range [of x] by (simp add: signed_of_int signed_take_bit_int_eq_self)
  ultimately show ?thesis by simp
qed

lemma write_round_decreases:
  assumes "write_round K d buffer s = (Inr (n, buffer'), s')" and "BufferViewList_size buffer' \<noteq> 0"
  shows "length (bvl_contents buffer') + length (bvl_views buffer')
    < length (bvl_contents buffer) + length (bvl_views buffer)"
proof -
  obtain ret :: int where ret: "n = word_of_int (c_int ret)" "\<not> (c_int ret = 0 \<and> BufferViewList_size buffer \<noteq> 0)"
      and pre: "BufferViewList_remove_prefix buffer (word_of_int (c_int ret)) = Inr buffer'"
    using assms(1)
    by (auto simp: write_round_def io_bind_def io_return_def io_throw_def io_result_def syscall_def SystemCall_def
        Let_def split: prod.splits sum.splits if_splits)
  have "n \<noteq> 0"
  proof
    assume "n = 0"
    then have "c_int ret = 0" using ret(1) word_of_int_c_int by simp
    then have "buffer' = buffer" "BufferViewList_size buffer = 0"
      using pre ret(2) by (auto simp: BufferViewList_remove_prefix_def)
    with assms(2) show False by simp
  qed
  with pre ret(1) show ?thesis
    using view_prefix_decreases [of "bvl_views buffer" n] by (auto simp: BufferViewList_remove_prefix_def bvl_contents_def)
qed

function write_loop :: "'w kernel \<Rightarrow> FileDescriptor \<Rightarrow> bool \<Rightarrow> BufferViewList \<Rightarrow> u64 \<Rightarrow> ('w, u64) io" where
  "write_loop K d write_all buffer total_bytes s =
     (case write_round K d buffer s of
        (Inl e, s') \<Rightarrow> (Inl e, s')
      | (Inr (n, buffer'), s') \<Rightarrow>
          if write_all \<and> BufferViewList_size buffer' \<noteq> 0 then write_loop K d write_all buffer' (total_bytes + n) s'
          else (Inr (total_bytes + n), s'))"
  by pat_completeness auto
termination
  by (relation "measure (\<lambda>(K, d, write_all, buffer, total_bytes, s). length (bvl_contents buffer) + length (bvl_views buffer))")
    (auto intro: write_round_decreases [OF sym])

declare write_loop.simps [simp del]

definition FileDescriptor_write :: "'w kernel \<Rightarrow> FileDescriptor \<Rightarrow> BufferViewList \<Rightarrow> bool \<Rightarrow> ('w, u64) io" where
  "FileDescriptor_write K d buffer write_all = write_loop K d write_all buffer 0"

definition FileDescriptor_write_string :: "'w kernel \<Rightarrow> FileDescriptor \<Rightarrow> bytes \<Rightarrow> bool \<Rightarrow> ('w, u64) io" where
  "FileDescriptor_write_string K d str write_all = FileDescriptor_write K d (BufferViewList_of_string_view str) write_all"

text \<open>The flag of \<open>fcntl\<close>; the flags are a 32-bit mask.\<close>

definition O_NONBLOCK :: u32 where
  "O_NONBLOCK = 0x800"

unbundle bit_operations_syntax

definition set_blocking :: "'w kernel \<Rightarrow> FileDescriptor \<Rightarrow> bool \<Rightarrow> ('w, unit) io" where
  "set_blocking K d blocking_state =
     io_bind (fd_num d) (\<lambda>fd.
     io_bind (syscall ''fcntl'' (k_fcntl_getfl K fd)) (\<lambda>f.
     let flags = word_of_int f;
         flags' = (if blocking_state then flags XOR (flags AND O_NONBLOCK) else flags OR O_NONBLOCK)
     in io_bind (fd_num d) (\<lambda>fd.
        io_bind (syscall ''fcntl'' (k_fcntl_setfl K fd flags')) (\<lambda>_. io_return ()))))"

section \<open>Rules for operations\<close>

named_theorems io_eval \<open>evaluating operations step by step\<close>

lemma io_bind_Inr [io_eval]: "m s = (Inr x, s') \<Longrightarrow> io_bind m f s = f x s'"
  by (simp add: io_bind_def)

lemma io_bind_Inl [io_eval]: "m s = (Inl e, s') \<Longrightarrow> io_bind m f s = (Inl e, s')"
  by (simp add: io_bind_def)

lemmas io_basic [io_eval] = io_return_def io_throw_def io_result_def cout_def cerr_def

definition fd_live :: "'w system \<Rightarrow> FileDescriptor \<Rightarrow> FDWrapper \<Rightarrow> bool" where
  "fd_live s d w \<longleftrightarrow> d < length (sy_cells s) \<and> fst (sy_cells s ! d) = w \<and> 0 < snd (sy_cells s ! d)"

definition fd_update :: "FileDescriptor \<Rightarrow> FDWrapper \<Rightarrow> 'w system \<Rightarrow> 'w system" where
  "fd_update d w s = s\<lparr>sy_cells := (sy_cells s)[d := (w, snd (sy_cells s ! d))]\<rparr>"

text \<open>The number of references to a wrapper.\<close>

definition refs :: "'w system \<Rightarrow> FileDescriptor \<Rightarrow> nat" where
  "refs s d = (if d < length (sy_cells s) then snd (sy_cells s ! d) else 0)"

lemma wrapper_live: "fd_live s d w \<Longrightarrow> wrapper d s = (Inr w, s)"
  by (auto simp: wrapper_def fd_live_def)

lemma modify_live: "fd_live s d w \<Longrightarrow> modify_wrapper d f s = (Inr (), fd_update d (f w) s)"
  by (simp add: modify_wrapper_def io_bind_def wrapper_live fd_update_def)

lemma fd_num_live: "fd_live s d w \<Longrightarrow> fd_num d s = (Inr (fw_fd w), s)"
  by (simp add: fd_num_def io_bind_def io_return_def wrapper_live)

lemma update_live [simp]: "fd_live s d w \<Longrightarrow> fd_live (fd_update d w' s) d w'"
  by (simp add: fd_live_def fd_update_def)

lemma update_fields [simp]:
  "sy_world (fd_update d w s) = sy_world s" "sy_cout (fd_update d w s) = sy_cout s" "sy_cerr (fd_update d w s) = sy_cerr s"
  by (simp_all add: fd_update_def)

lemma update_update [simp]: "fd_update d a (fd_update d b s) = fd_update d a s"
  by (cases "d < length (sy_cells s)") (simp_all add: fd_update_def list_update_beyond)

lemma live_world [simp]: "fd_live (s\<lparr>sy_world := x\<rparr>) d w = fd_live s d w"
  by (simp add: fd_live_def)

text \<open>The outcomes of a call: an error number, or a value that fits the \<open>int\<close> of \<open>SystemCall\<close>.\<close>

lemma syscall_fail:
  "f (sy_world s) = (-1, errno, x) \<Longrightarrow> errno \<noteq> 0 \<Longrightarrow> syscall attempt f s = (Inl (UnixError attempt errno), s\<lparr>sy_world := x\<rparr>)"
  by (simp add: syscall_def SystemCall_error)

lemma syscall_ok:
  "f (sy_world s) = (ret, errno, x) \<Longrightarrow> 0 \<le> ret \<Longrightarrow> ret < 2 ^ 31 \<Longrightarrow> syscall attempt f s = (Inr ret, s\<lparr>sy_world := x\<rparr>)"
  by (simp add: syscall_def SystemCall_ok)

lemma sysquery_fail:
  "f (sy_world s) = (-1, errno, out, x) \<Longrightarrow> errno \<noteq> 0 \<Longrightarrow> sysquery attempt f s = (Inl (UnixError attempt errno), s\<lparr>sy_world := x\<rparr>)"
  by (simp add: sysquery_def SystemCall_error)

lemma sysquery_ok:
  "f (sy_world s) = (ret, errno, out, x) \<Longrightarrow> 0 \<le> ret \<Longrightarrow> ret < 2 ^ 31 \<Longrightarrow> sysquery attempt f s = (Inr (ret, out), s\<lparr>sy_world := x\<rparr>)"
  by (simp add: sysquery_def SystemCall_ok)

section \<open>Writing everything\<close>

text \<open>
  What \<open>writev(2)\<close> promises of a descriptor that takes a stream of bytes: it fails with \<open>-1\<close> and an
  error number and takes nothing, or it takes a prefix of the data, not empty unless the data is
  empty, and returns its length.
\<close>

definition stream_sink :: "'w kernel \<Rightarrow> int \<Rightarrow> ('w \<Rightarrow> bytes) \<Rightarrow> bool" where
  "stream_sink K fd sent \<longleftrightarrow> (\<forall>iov w ret errno w'. k_writev K fd iov w = (ret, errno, w') \<longrightarrow>
     (let data = concat (map iov_base iov)
      in ret = -1 \<and> errno \<noteq> 0 \<and> sent w' = sent w
         \<or> 0 \<le> ret \<and> ret < 2 ^ 31 \<and> nat ret \<le> length data \<and> (ret = 0 \<longrightarrow> data = [])
           \<and> sent w' = sent w @ take (nat ret) data))"

definition view_ok :: "BufferViewList \<Rightarrow> bool" where
  "view_ok b \<longleftrightarrow> (\<forall>v \<in> set (bvl_views b). length v < 2 ^ 64) \<and> length (bvl_contents b) < 2 ^ 63"

lemma iovecs_data: "concat (map iov_base (as_iovecs b)) = bvl_contents b"
  by (simp add: as_iovecs_eq bvl_contents_def comp_def)

lemma sint_small: "unat (x :: u64) < 2 ^ 63 \<Longrightarrow> sint x = int (unat x)"
proof -
  assume "unat x < 2 ^ 63"
  then have "int (unat x) < int (2 ^ 63)" unfolding of_nat_less_iff .
  then have "uint x < 2 ^ 63" by simp
  moreover have "- (2 ^ 63) \<le> uint x" by (rule order.trans [OF _ uint_ge_0]) simp
  ultimately show ?thesis by (simp add: sint_uint signed_take_bit_int_eq_self)
qed

lemma view_size:
  assumes "view_ok b"
  shows "unat (BufferViewList_size b) = length (bvl_contents b)" and "sint (BufferViewList_size b) = int (length (bvl_contents b))"
    and "BufferViewList_size b = 0 \<longleftrightarrow> bvl_contents b = []"
proof -
  have len: "length (bvl_contents b) < 2 ^ 63" using assms by (simp add: view_ok_def)
  then show u: "unat (BufferViewList_size b) = length (bvl_contents b)"
    by (simp add: BufferViewList_size_eq bvl_contents_def unat_size_t)
  show "sint (BufferViewList_size b) = int (length (bvl_contents b))"
    using sint_small [of "BufferViewList_size b"] u len by simp
  show "BufferViewList_size b = 0 \<longleftrightarrow> bvl_contents b = []"
    using u by (metis length_0_conv unat_0 unat_eq_zero)
qed

lemma write_round_cases:
  assumes sink: "stream_sink K (fw_fd w) sent" and live: "fd_live s d w" and ok: "view_ok b"
  shows "(\<exists>errno s'. write_round K d b s = (Inl (UnixError ''writev'' errno), s')
      \<and> sent (sy_world s') = sent (sy_world s))
    \<or> (\<exists>n b' s' w'. write_round K d b s = (Inr (n, b'), s') \<and> fd_live s' d w' \<and> fw_fd w' = fw_fd w
      \<and> fw_eof w' = fw_eof w \<and> view_ok b'
      \<and> unat n \<le> length (bvl_contents b) \<and> bvl_contents b' = drop (unat n) (bvl_contents b)
      \<and> sent (sy_world s') = sent (sy_world s) @ take (unat n) (bvl_contents b))"
proof -
  obtain ret errno x where call: "k_writev K (fw_fd w) (as_iovecs b) (sy_world s) = (ret, errno, x)"
    by (cases "k_writev K (fw_fd w) (as_iovecs b) (sy_world s)")
  let ?s = "s\<lparr>sy_world := x\<rparr>" and ?w = "w\<lparr>fw_write_count := fw_write_count w + 1\<rparr>"
  have live': "fd_live ?s d w" using live by simp
  from sink call consider (fail) "ret = -1" "errno \<noteq> 0" "sent x = sent (sy_world s)"
    | (wrote) "0 \<le> ret" "ret < 2 ^ 31" "nat ret \<le> length (bvl_contents b)" "ret = 0 \<longrightarrow> bvl_contents b = []"
      "sent x = sent (sy_world s) @ take (nat ret) (bvl_contents b)"
    unfolding stream_sink_def Let_def by (metis iovecs_data)
  then show ?thesis
  proof cases
    case fail
    note sys = syscall_fail [where attempt = "''writev''" and s = s and f = "k_writev K (fw_fd w) (as_iovecs b)", OF call [unfolded fail(1)] fail(2)]
    show ?thesis using fail by (simp add: write_round_def Let_def io_bind_def fd_num_live [OF live] sys)
  next
    case wrote
    define n :: u64 where "n = word_of_int ret"
    have n: "unat n = nat ret"
      using wrote(1,2) by (simp add: n_def unat_eq_nat_uint word_of_int_inverse take_bit_int_eq_self uint_word_of_int_eq)
    obtain b' where b': "BufferViewList_remove_prefix b n = Inr b'" "view_ok b'"
        "bvl_contents b' = drop (unat n) (bvl_contents b)"
      using bvl.discard_ok [of b n] ok wrote(3) n by (auto simp: view_ok_def)
    have fits: "\<not> int (length (bvl_contents b)) < ret" using wrote(1,3) by linarith
    note sys = syscall_ok [where attempt = "''writev''" and s = s and f = "k_writev K (fw_fd w) (as_iovecs b)", OF call wrote(1,2)]
    have "write_round K d b s = (Inr (n, b'), fd_update d ?w ?s)"
      using wrote(4) view_size [OF ok] b'(1) fits
      by (auto simp: write_round_def Let_def io_bind_def fd_num_live [OF live] sys register_write_def
          modify_live [OF live'] io_result_def io_return_def n_def)
    with wrote b' n update_live [OF live', of ?w] show ?thesis by auto
  qed
qed

lemma write_loop_all:
  assumes "stream_sink K fd sent" and "fd_live s d w" and "fw_fd w = fd" and "view_ok b"
  shows "(\<exists>n s' w'. write_loop K d True b t s = (Inr n, s') \<and> n = t + size_t (bvl_contents b)
      \<and> sent (sy_world s') = sent (sy_world s) @ bvl_contents b \<and> fd_live s' d w' \<and> fw_fd w' = fd
      \<and> fw_eof w' = fw_eof w)
    \<or> (\<exists>errno s' k. write_loop K d True b t s = (Inl (UnixError ''writev'' errno), s')
      \<and> sent (sy_world s') = sent (sy_world s) @ take k (bvl_contents b))"
  using assms
proof (induction "length (bvl_contents b) + length (bvl_views b)" arbitrary: s w b t rule: less_induct)
  case less
  from write_round_cases [OF less.prems(1) [folded less.prems(3)] less.prems(2,4)]
  show ?case
  proof (elim disjE exE conjE)
    fix errno s'
    assume "write_round K d b s = (Inl (UnixError ''writev'' errno), s')" "sent (sy_world s') = sent (sy_world s)"
    then show ?thesis by (intro disjI2 exI [of _ errno] exI [of _ s'] exI [of _ 0]) (simp add: write_loop.simps)
  next
    fix n b' s' w'
    assume r: "write_round K d b s = (Inr (n, b'), s')" and w': "fd_live s' d w'" "fw_fd w' = fw_fd w" "fw_eof w' = fw_eof w"
      and b': "view_ok b'" "bvl_contents b' = drop (unat n) (bvl_contents b)" and n: "unat n \<le> length (bvl_contents b)"
      and sent: "sent (sy_world s') = sent (sy_world s) @ take (unat n) (bvl_contents b)"
    show ?thesis
    proof (cases "BufferViewList_size b' = 0")
      case True
      then have "length (bvl_contents b) \<le> unat n" using view_size(3) [OF b'(1)] b'(2) by simp
      with n have len: "length (bvl_contents b) = unat n" by simp
      then have "size_t (bvl_contents b) = n" by (simp add: size_t_def)
      with r True sent len w' less.prems(3) show ?thesis
        by (intro disjI1) (auto simp: write_loop.simps)
    next
      case False
      note smaller = write_round_decreases [OF r False]
      have eq: "write_loop K d True b t s = write_loop K d True b' (t + n) s'"
        using r False by (simp add: write_loop.simps [of K d True b])
      have total_n: "t + n + size_t (bvl_contents b') = t + size_t (bvl_contents b)"
        using b'(2) n by (simp add: size_t_drop)
      have split: "take (unat n) (bvl_contents b) @ bvl_contents b' = bvl_contents b" by (simp add: b'(2))
      have part: "take (unat n) (bvl_contents b) @ take k (bvl_contents b') = take (unat n + k) (bvl_contents b)" for k
        by (simp add: b'(2) take_add)
      have IH: "(\<exists>m s'' w''. write_loop K d True b' (t + n) s' = (Inr m, s'') \<and> m = t + n + size_t (bvl_contents b')
          \<and> sent (sy_world s'') = sent (sy_world s') @ bvl_contents b' \<and> fd_live s'' d w'' \<and> fw_fd w'' = fd
          \<and> fw_eof w'' = fw_eof w')
        \<or> (\<exists>errno s'' k. write_loop K d True b' (t + n) s' = (Inl (UnixError ''writev'' errno), s'')
          \<and> sent (sy_world s'') = sent (sy_world s') @ take k (bvl_contents b'))"
        by (rule less.hyps [OF smaller less.prems(1) w'(1) _ b'(1)]) (use w'(2) less.prems(3) in simp)
      then show ?thesis
        unfolding eq total_n sent append.assoc split part w'(3) by blast
    qed
  qed
qed

section \<open>Reading\<close>

text \<open>
  What \<open>read(2)\<close> promises of a descriptor that delivers a stream of bytes: it fails with \<open>-1\<close> and an
  error number, or it stores the next bytes of the stream, at most as many as asked for, and returns
  their number; it returns zero for a request of at least one byte only at the end of the stream.
\<close>

definition stream_source :: "'w kernel \<Rightarrow> int \<Rightarrow> ('w \<Rightarrow> bytes) \<Rightarrow> bool" where
  "stream_source K fd input \<longleftrightarrow> (\<forall>n w ret errno data w'. k_read K fd n w = (ret, errno, data, w') \<longrightarrow>
     ret = -1 \<and> errno \<noteq> 0 \<and> input w' = input w
     \<or> 0 \<le> ret \<and> nat ret \<le> unat n \<and> nat ret = length data \<and> input w = data @ input w'
       \<and> (ret = 0 \<and> 0 < n \<longrightarrow> input w = []))"

lemma string_resize_length [simp]: "length (string_resize str n) = n"
  by (cases "n \<le> length str") (simp_all add: string_resize_def)

lemma string_resize_prefix:
  "n \<le> length data \<Longrightarrow> n \<le> length buf \<Longrightarrow> string_resize (overwrite buf data) n = take n data"
  by (simp add: string_resize_def overwrite_def)

lemma read_size: "unat (min BUFFER_SIZE limit) = min (2 ^ 20) (unat limit)" "sint (min BUFFER_SIZE limit) = int (min (2 ^ 20) (unat limit))"
proof -
  show n: "unat (min BUFFER_SIZE limit) = min (2 ^ 20) (unat limit)" by (simp add: unat_min BUFFER_SIZE_def)
  then have "unat (min BUFFER_SIZE limit) < 2 ^ 63" by simp
  from sint_small [OF this] show "sint (min BUFFER_SIZE limit) = int (min (2 ^ 20) (unat limit))" by (simp add: n)
qed

text \<open>A call that delivers \<open>data\<close>.\<close>

lemma read_into_got:
  assumes live: "fd_live s d w" and ret: "0 \<le> ret" "nat ret = length data"
    and call: "k_read K (fw_fd w) (min BUFFER_SIZE limit) (sy_world s) = (ret, errno, data, x)"
    and len: "length data \<le> min (2 ^ 20) (unat limit)"
  shows "FileDescriptor_read_into K d str limit s =
    (Inr data, fd_update d (w\<lparr>fw_read_count := fw_read_count w + 1, fw_eof := (fw_eof w \<or> 0 < limit \<and> data = [])\<rparr>)
       (s\<lparr>sy_world := x\<rparr>))"
proof -
  let ?n = "min BUFFER_SIZE limit" and ?s = "s\<lparr>sy_world := x\<rparr>"
  have "length data \<le> 1048576" using len by simp
  then have "ret \<le> 1048576" using ret by linarith
  then have "ret < 2 ^ 31" by simp
  note sys = sysquery_ok [where attempt = "''read''" and s = s and f = "k_read K (fw_fd w) ?n", OF call ret(1) this]
  have live': "fd_live ?s d w" using live by simp
  have res: "string_resize (overwrite (string_resize str (unat ?n)) data) (nat ret) = data"
    using ret len by (subst string_resize_prefix) (simp_all add: read_size)
  have fits: "\<not> sint ?n < ret" unfolding read_size(2) using len ret by linarith
  have zero: "ret = 0 \<longleftrightarrow> data = []" using ret by auto
  note eval = FileDescriptor_read_into_def Let_def io_bind_def fd_num_live [OF live] sys register_read_def io_return_def
  show ?thesis
  proof (cases "0 < limit \<and> ret = 0")
    case True
    have w': "w\<lparr>fw_read_count := fw_read_count w + 1, fw_eof := (fw_eof w \<or> 0 < limit \<and> data = [])\<rparr>
        = w\<lparr>fw_eof := True, fw_read_count := fw_read_count w + 1\<rparr>"
      using True zero by (cases w) simp
    show ?thesis
      unfolding w' using True res fits zero update_live [OF live', of "w\<lparr>fw_eof := True\<rparr>"]
      by (simp add: eval modify_live [OF live'] modify_live)
  next
    case False
    then have none: "(0 < limit \<and> ret = 0) = False" and eof: "(fw_eof w \<or> 0 < limit \<and> data = []) = fw_eof w"
      using zero by auto
    show ?thesis
      unfolding eof using res fits ret(1) by (simp add: eval none modify_live [OF live'])
  qed
qed

lemma read_into_cases:
  assumes source: "stream_source K (fw_fd w) input" and live: "fd_live s d w"
  shows "(\<exists>errno x. FileDescriptor_read_into K d str limit s = (Inl (UnixError ''read'' errno), s\<lparr>sy_world := x\<rparr>)
      \<and> input x = input (sy_world s))
    \<or> (\<exists>data x. FileDescriptor_read_into K d str limit s =
          (Inr data, fd_update d (w\<lparr>fw_read_count := fw_read_count w + 1,
             fw_eof := (fw_eof w \<or> 0 < limit \<and> data = [])\<rparr>) (s\<lparr>sy_world := x\<rparr>))
      \<and> input (sy_world s) = data @ input x \<and> length data \<le> min (2 ^ 20) (unat limit)
      \<and> (0 < limit \<and> data = [] \<longrightarrow> input (sy_world s) = []))"
proof -
  let ?n = "min BUFFER_SIZE limit"
  obtain ret errno data x where call: "k_read K (fw_fd w) ?n (sy_world s) = (ret, errno, data, x)"
    by (cases "k_read K (fw_fd w) ?n (sy_world s)")
  from source call consider (fail) "ret = -1" "errno \<noteq> 0" "input x = input (sy_world s)"
    | (got) "0 \<le> ret" "nat ret \<le> unat ?n" "nat ret = length data" "input (sy_world s) = data @ input x"
      "ret = 0 \<and> 0 < ?n \<longrightarrow> input (sy_world s) = []"
    unfolding stream_source_def by metis
  then show ?thesis
  proof cases
    case fail
    note sys = sysquery_fail [where attempt = "''read''" and s = s and f = "k_read K (fw_fd w) ?n", OF call [unfolded fail(1)] fail(2)]
    show ?thesis
      using fail(3)
      by (intro disjI1 exI [of _ errno] exI [of _ x]) (simp add: FileDescriptor_read_into_def Let_def io_bind_def fd_num_live [OF live] sys)
  next
    case got
    have len: "length data \<le> min (2 ^ 20) (unat limit)" using got(2,3) read_size(1) [of limit] by simp
    have "data = [] \<Longrightarrow> ret = 0" "0 < limit \<longleftrightarrow> 0 < ?n"
      using got(1,3) read_size(1) [of limit] by (simp_all add: word_less_nat_alt)
    with got(4,5) len read_into_got [OF live got(1,3) call len, of str] show ?thesis by blast
  qed
qed

section \<open>Giving up a reference\<close>

text \<open>
  Giving up a reference never throws. The descriptor is closed, once, when the last reference goes
  and it was not closed before; otherwise the outside world sees nothing. Other descriptors are not
  touched, and the wrapper's reference count goes down by one.
\<close>

lemma destroy_closes_once:
  assumes "fd_live s d w"
  shows "\<exists>s'. FileDescriptor_destroy K d s = (Inr (), s')
    \<and> sy_world s' = (if snd (sy_cells s ! d) = 1 \<and> \<not> fw_closed w
                     then snd (snd (k_close K (fw_fd w) (sy_world s))) else sy_world s)
    \<and> length (sy_cells s') = length (sy_cells s) \<and> snd (sy_cells s' ! d) = snd (sy_cells s ! d) - 1
    \<and> (\<forall>c. c \<noteq> d \<longrightarrow> c < length (sy_cells s) \<longrightarrow> sy_cells s' ! c = sy_cells s ! c)"
proof -
  let ?n = "snd (sy_cells s ! d)" and ?drop = "\<lambda>s'. s'\<lparr>sy_cells :=
    (sy_cells s')[d := (fst (sy_cells s' ! d), snd (sy_cells s' ! d) - 1)]\<rparr>"
  have d: "d < length (sy_cells s)" "fst (sy_cells s ! d) = w" using assms by (simp_all add: fd_live_def)
  have eq: "FileDescriptor_destroy K d s = (Inr (), ?drop s')"
    if "(if ?n = 1 then FDWrapper_destroy K d else io_return ()) s = (Inr (), s')" for s'
    using that by (simp add: FileDescriptor_destroy_def io_bind_def wrapper_live [OF assms])
  show ?thesis
  proof (cases "?n = 1 \<and> \<not> fw_closed w")
    case False
    then have "(if ?n = 1 then FDWrapper_destroy K d else io_return ()) s = (Inr (), s)"
      by (auto simp: FDWrapper_destroy_def io_catch_def io_bind_def wrapper_live [OF assms] io_return_def)
    from eq [OF this] d False show ?thesis by auto
  next
    case True
    obtain ret errno x where call: "k_close K (fw_fd w) (sy_world s) = (ret, errno, x)"
      by (cases "k_close K (fw_fd w) (sy_world s)")
    have live: "fd_live (s\<lparr>sy_world := x\<rparr>) d w" using assms by simp
    have "\<exists>s'. FDWrapper_destroy K d s = (Inr (), s') \<and> sy_world s' = x \<and> length (sy_cells s') = length (sy_cells s)
        \<and> snd (sy_cells s' ! d) = ?n \<and> (\<forall>c. c \<noteq> d \<longrightarrow> sy_cells s' ! c = sy_cells s ! c)"
    proof (cases "SystemCall ''close'' ret errno 0")
      case (Inl e)
      then have "e \<noteq> UndefinedBehaviour" by (auto simp: SystemCall_def split: if_splits)
      with Inl True show ?thesis
        by (simp add: FDWrapper_destroy_def FDWrapper_close_def io_catch_def io_bind_def wrapper_live [OF assms]
            syscall_def call cerr_def)
    next
      case (Inr r)
      with True d show ?thesis
        by (simp add: FDWrapper_destroy_def FDWrapper_close_def io_catch_def io_bind_def wrapper_live [OF assms]
            syscall_def call modify_live [OF live] fd_update_def)
    qed
    then obtain s' where "FDWrapper_destroy K d s = (Inr (), s')" and s': "sy_world s' = x"
        "length (sy_cells s') = length (sy_cells s)" "snd (sy_cells s' ! d) = ?n"
        "\<forall>c. c \<noteq> d \<longrightarrow> sy_cells s' ! c = sy_cells s ! c" by blast
    with eq [of s'] True d show ?thesis by (simp add: call)
  qed
qed

section \<open>Properties\<close>

text \<open>
  A small world for the examples: what was sent and what is still to be received, two bytes at a
  time; every other call succeeds.
\<close>

definition chunk :: "nat \<Rightarrow> bytes \<Rightarrow> bytes" where
  "chunk n xs = take (min 2 n) xs"

lemma chunk_facts [simp]:
  "chunk n xs @ drop (length (chunk n xs)) xs = xs" "take (length (chunk n xs)) xs = chunk n xs"
  "length (chunk n xs) \<le> n" "length (chunk n xs) \<le> 2" "length (chunk n xs) \<le> length xs"
  "chunk n xs = [] \<longleftrightarrow> n = 0 \<or> xs = []"
  by (auto simp: chunk_def min_def)

lemma chunk_small [simp]: "length (chunk n xs) < 2147483648"
  using chunk_facts(4) [of n xs] by linarith

definition demo_kernel :: "(bytes \<times> bytes) kernel" where
  "demo_kernel =
     \<lparr>k_close = (\<lambda>fd w. (0, 0, w)),
      k_read = (\<lambda>fd n w. let d = chunk (unat n) (snd w) in (int (length d), 0, d, fst w, drop (length d) (snd w))),
      k_writev = (\<lambda>fd iov w. let d = chunk 2 (concat (map iov_base iov)) in (int (length d), 0, fst w @ d, snd w)),
      k_fcntl_getfl = (\<lambda>fd w. (0, 0, w)), k_fcntl_setfl = (\<lambda>fd f w. (0, 0, w)),
      k_poll = (\<lambda>p t w. (-1, 22, map pfd_revents p, w)),
      k_socket = (\<lambda>a b w. (3, 0, w)), k_getsockopt = (\<lambda>fd l opt w. (0, 0, (if opt = 39 then 2 else 1, 4), w)),
      k_setsockopt = (\<lambda>fd l opt v w. (0, 0, w)),
      k_getsockname = (\<lambda>fd n w. (0, 0, ([], 0), w)), k_getpeername = (\<lambda>fd n w. (0, 0, ([], 0), w)),
      k_bind = (\<lambda>fd a w. (0, 0, w)), k_connect = (\<lambda>fd a w. (0, 0, w)), k_shutdown = (\<lambda>fd how w. (0, 0, w)),
      k_listen = (\<lambda>fd n w. (0, 0, w)), k_accept = (\<lambda>fd w. (4, 0, w)),
      k_recvfrom = (\<lambda>fd n w. (0, 0, ([], [], 0), w)), k_sendmsg = (\<lambda>fd a iov w. (0, 0, w)),
      k_open = (\<lambda>path w. (5, 0, w)), k_ioctl_tunsetiff = (\<lambda>fd f name w. (0, 0, w)),
      k_getaddrinfo = (\<lambda>node service hints w. (0, [[2, 0, 0, 80, 10, 0, 0, 1, 0, 0, 0, 0, 0, 0, 0, 0]], w)),
      k_getnameinfo = (\<lambda>a w. (0, (''10.0.0.1'', ''80''), w)),
      k_strerror = (\<lambda>e. ''error''), k_gai_strerror = (\<lambda>e. ''resolver error'')\<rparr>"

definition demo_wrapper :: FDWrapper where
  "demo_wrapper = \<lparr>fw_fd = 3, fw_eof = False, fw_closed = False, fw_read_count = 0, fw_write_count = 0\<rparr>"

definition demo_system :: "bytes \<Rightarrow> (bytes \<times> bytes) system" where
  "demo_system input = \<lparr>sy_cells = [(demo_wrapper, 1)], sy_cout = [], sy_cerr = [], sy_world = ([], input)\<rparr>"

lemma demo_live: "fd_live (demo_system input) 0 demo_wrapper"
  by (simp add: fd_live_def demo_system_def)

lemma demo_sink: "stream_sink demo_kernel fd fst"
  by (auto simp: stream_sink_def demo_kernel_def Let_def simp del: concat_eq_Nil_conv)

lemma demo_source: "stream_source demo_kernel fd snd"
  by (auto simp: stream_source_def demo_kernel_def Let_def unat_eq_0)

text \<open>
  C26. \<open>write\<close> with \<open>write_all\<close> against a descriptor that may take as little as one byte at a time: it
  always comes to an end; it returns the size of the buffer after every byte of it has been taken, in
  order and once; or it throws the error of a failed \<open>writev\<close> after a prefix has been taken.
\<close>

theorem write_all_delivers:
  assumes "stream_sink K (fw_fd w) sent" and "fd_live s d w" and "view_ok b"
  shows "\<exists>r s'. FileDescriptor_write K d b True s = (r, s')
    \<and> (case r of
         Inr n \<Rightarrow> unat n = length (bvl_contents b) \<and> sent (sy_world s') = sent (sy_world s) @ bvl_contents b
       | Inl e \<Rightarrow> (\<exists>errno. e = UnixError ''writev'' errno)
           \<and> (\<exists>k. sent (sy_world s') = sent (sy_world s) @ take k (bvl_contents b)))"
proof -
  have "unat (size_t (bvl_contents b)) = length (bvl_contents b)"
    using assms(3) by (simp add: view_ok_def unat_size_t)
  with write_loop_all [OF assms(1,2) refl assms(3), of 0] show ?thesis
    unfolding FileDescriptor_write_def by (elim disjE exE conjE) auto
qed

theorem write_all_delivers_witness:
  "\<exists>r s'. FileDescriptor_write demo_kernel 0 (BufferViewList_of_string_view [7, 8, 9, 10, 11]) True (demo_system []) = (r, s')
    \<and> (\<forall>n. r = Inr n \<longrightarrow> fst (sy_world s') = [7, 8, 9, 10, 11])"
proof -
  have "view_ok (BufferViewList_of_string_view [7, 8, 9, 10, 11])"
    by (simp add: view_ok_def BufferViewList_of_string_view_def bvl_contents_def)
  from write_all_delivers [OF demo_sink demo_live this, of "[]"] obtain r s' where
      "FileDescriptor_write demo_kernel 0 (BufferViewList_of_string_view [7, 8, 9, 10, 11]) True (demo_system []) = (r, s')"
      "\<forall>n. r = Inr n \<longrightarrow> fst (sy_world s') = fst (sy_world (demo_system [])) @ bvl_contents (BufferViewList_of_string_view [7, 8, 9, 10, 11])"
    by (elim exE conjE) (auto split: sum.splits)
  then show ?thesis by (simp add: demo_system_def BufferViewList_of_string_view_def bvl_contents_def)
qed

text \<open>
  C27. \<open>read\<close>: it gives the next bytes of the stream, no more than the limit and no more than a
  megabyte, counts the read, and sets the end-of-file flag exactly when at least one byte was asked
  for and the stream had none left; a failed call throws and leaves flags and counters alone.
\<close>

theorem read_delivers:
  assumes "stream_source K (fw_fd w) input" and "fd_live s d w"
  shows "\<exists>r s' w'. FileDescriptor_read K d limit s = (r, s') \<and> fd_live s' d w' \<and> fw_fd w' = fw_fd w
    \<and> (case r of
         Inr data \<Rightarrow> input (sy_world s) = data @ input (sy_world s') \<and> length data \<le> min (2 ^ 20) (unat limit)
           \<and> (0 < limit \<longrightarrow> (data = [] \<longleftrightarrow> input (sy_world s) = []))
           \<and> fw_eof w' = (fw_eof w \<or> 0 < limit \<and> input (sy_world s) = [])
           \<and> fw_read_count w' = fw_read_count w + 1
       | Inl e \<Rightarrow> (\<exists>errno. e = UnixError ''read'' errno) \<and> w' = w \<and> input (sy_world s') = input (sy_world s))"
  using read_into_cases [OF assms, of "[]" limit]
proof (elim disjE exE conjE)
  fix errno x
  assume "FileDescriptor_read_into K d [] limit s = (Inl (UnixError ''read'' errno), s\<lparr>sy_world := x\<rparr>)"
    "input x = input (sy_world s)"
  with assms(2) show ?thesis
    unfolding FileDescriptor_read_def
    by (intro exI [of _ "Inl (UnixError ''read'' errno)"] exI [of _ "s\<lparr>sy_world := x\<rparr>"] exI [of _ w]) simp
next
  fix data :: bytes and x
  let ?w = "w\<lparr>fw_read_count := fw_read_count w + 1, fw_eof := (fw_eof w \<or> 0 < limit \<and> data = [])\<rparr>"
  assume r: "FileDescriptor_read_into K d [] limit s = (Inr data, fd_update d ?w (s\<lparr>sy_world := x\<rparr>))"
    and rest: "input (sy_world s) = data @ input x" "length data \<le> min (2 ^ 20) (unat limit)"
      "0 < limit \<and> data = [] \<longrightarrow> input (sy_world s) = []"
  have "fd_live (fd_update d ?w (s\<lparr>sy_world := x\<rparr>)) d ?w" using assms(2) by (intro update_live) simp
  with r rest show ?thesis
    unfolding FileDescriptor_read_def
    by (intro exI [of _ "Inr data"] exI [of _ "fd_update d ?w (s\<lparr>sy_world := x\<rparr>)"] exI [of _ ?w]) auto
qed

theorem read_delivers_witness:
  "\<exists>r s' w'. FileDescriptor_read demo_kernel 0 100 (demo_system [1, 2, 3]) = (r, s') \<and> fd_live s' 0 w'
    \<and> (\<forall>data. r = Inr data \<longrightarrow> [1, 2, 3] = data @ snd (sy_world s'))"
  using read_delivers [OF demo_source demo_live, of 100 "[1, 2, 3]"]
  by (elim exE conjE) (auto simp: demo_system_def split: sum.splits)

end
