(* ===== verification/Address.thy ===== *)
theory Address
  imports File_Descriptor Net_Parser
begin

text \<open>
  The class \<open>Address\<close> of \<open>util/address.hh\<close> and \<open>util/address.cc\<close>: the bytes of a socket address in
  the 128 bytes of a \<open>sockaddr_storage\<close>, and their length. The layout of a \<open>sockaddr_in\<close> is that of
  Linux on a little-endian machine: family, port, address, eight bytes of padding. The resolver
  functions are fields of the kernel.
\<close>

section \<open>Definitions\<close>

record Address =
  ad_size :: u32
  ad_storage :: bytes

definition sizeof_storage :: nat where
  "sizeof_storage = 128"

definition sizeof_sockaddr_in :: nat where
  "sizeof_sockaddr_in = 16"

definition AF_INET :: int where
  "AF_INET = 2"

definition AI_NUMERICHOST :: int where
  "AI_NUMERICHOST = 4"

definition AI_ALL :: int where
  "AI_ALL = 0x10"

definition AI_NUMERICSERV :: int where
  "AI_NUMERICSERV = 0x400"

definition Raw_default :: bytes where
  "Raw_default = replicate sizeof_storage 0"

text \<open>The copy reads \<open>sz\<close> bytes from \<open>addr\<close>.\<close>

definition Address_of_sockaddr :: "bytes \<Rightarrow> u64 \<Rightarrow> Address result" where
  "Address_of_sockaddr addr sz =
     (if word_of_nat sizeof_storage < sz then Inl (RuntimeError ''invalid sockaddr size'')
      else if length addr < unat sz then Inl UndefinedBehaviour
      else Inr \<lparr>ad_size = ucast sz, ad_storage = overwrite Raw_default (take (unat sz) addr)\<rparr>)"

definition make_hints :: "int \<Rightarrow> int \<Rightarrow> int \<times> int" where
  "make_hints ai_flags ai_family = (ai_flags, ai_family)"

definition Address_resolve :: "'w kernel \<Rightarrow> string \<Rightarrow> string \<Rightarrow> int \<times> int \<Rightarrow> ('w, Address) io" where
  "Address_resolve K node service hints s =
     (case k_getaddrinfo K node service hints (sy_world s) of (gai_ret, resolved_address, w) \<Rightarrow>
        let s' = s\<lparr>sy_world := w\<rparr>
        in if gai_ret \<noteq> 0
           then (Inl (GaiError (''getaddrinfo('' @ node @ '', '' @ service @ '')'') gai_ret), s')
           else case resolved_address of
               [] \<Rightarrow> (Inl (RuntimeError ''getaddrinfo returned successfully but with no results''), s')
             | addr # _ \<Rightarrow> (Address_of_sockaddr addr (size_t addr), s'))"

definition Address_of_host :: "'w kernel \<Rightarrow> string \<Rightarrow> string \<Rightarrow> ('w, Address) io" where
  "Address_of_host K hostname service = Address_resolve K hostname service (make_hints AI_ALL AF_INET)"

definition Address_of_ip :: "'w kernel \<Rightarrow> string \<Rightarrow> u16 \<Rightarrow> ('w, Address) io" where
  "Address_of_ip K ip port =
     Address_resolve K ip (decimal (unat port)) (make_hints (AI_NUMERICHOST OR AI_NUMERICSERV) AF_INET)"

text \<open>\<open>std::stoi\<close>: white space, a sign, and as many digits as follow.\<close>

definition digit_value :: "char \<Rightarrow> nat option" where
  "digit_value c = (let v = of_char c :: nat in if 48 \<le> v \<and> v \<le> 57 then Some (v - 48) else None)"

fun read_digits :: "string \<Rightarrow> nat \<Rightarrow> nat" where
  "read_digits [] acc = acc"
| "read_digits (c # cs) acc = (case digit_value c of None \<Rightarrow> acc | Some v \<Rightarrow> read_digits cs (acc * 10 + v))"

definition stoi :: "string \<Rightarrow> int result" where
  "stoi str =
     (let text = dropWhile (\<lambda>c. c \<in> set [CHR 0x20, CHR 0x09, CHR 0x0A, CHR 0x0B, CHR 0x0C, CHR 0x0D]) str;
          negative = (text \<noteq> [] \<and> hd text = CHR ''-'');
          digs = (if text \<noteq> [] \<and> hd text \<in> set ''+-'' then tl text else text)
      in if digs = [] \<or> digit_value (hd digs) = None then Inl (InvalidArgument ''stoi'')
         else let v = int (read_digits digs 0); i = (if negative then - v else v)
              in if i < - (2 ^ 31) \<or> 2 ^ 31 \<le> i then Inl (OutOfRange ''stoi'') else Inr i)"

definition ip_port :: "'w kernel \<Rightarrow> Address \<Rightarrow> ('w, string \<times> u16) io" where
  "ip_port K a s =
     (case k_getnameinfo K (take (unat (ad_size a)) (ad_storage a)) (sy_world s) of (gni_ret, (ip, port), w) \<Rightarrow>
        let s' = s\<lparr>sy_world := w\<rparr>
        in if gni_ret \<noteq> 0 then (Inl (GaiError ''getnameinfo'' gni_ret), s')
           else (try_bind (stoi port) (\<lambda>p. Inr (ip, word_of_int p)), s'))"

definition Address_ip :: "'w kernel \<Rightarrow> Address \<Rightarrow> ('w, string) io" where
  "Address_ip K a = io_bind (ip_port K a) (\<lambda>(ip, port). io_return ip)"

definition Address_port :: "'w kernel \<Rightarrow> Address \<Rightarrow> ('w, u16) io" where
  "Address_port K a = io_bind (ip_port K a) (\<lambda>(ip, port). io_return port)"

definition Address_to_string :: "'w kernel \<Rightarrow> Address \<Rightarrow> ('w, string) io" where
  "Address_to_string K a = io_bind (ip_port K a) (\<lambda>(ip, port). io_return (ip @ '':'' @ decimal (unat port)))"

definition Address_size :: "Address \<Rightarrow> u32" where
  "Address_size a = ad_size a"

text \<open>The conversion to \<open>const sockaddr *\<close>, as the bytes a call with \<open>size()\<close> reads there.\<close>

definition Address_sockaddr :: "Address \<Rightarrow> bytes" where
  "Address_sockaddr a = take (unat (ad_size a)) (ad_storage a)"

definition ss_family :: "bytes \<Rightarrow> int" where
  "ss_family storage = int (unat (storage ! 0)) + 256 * int (unat (storage ! 1))"

definition ipv4_numeric :: "Address \<Rightarrow> u32 result" where
  "ipv4_numeric a =
     (if ss_family (ad_storage a) \<noteq> AF_INET \<or> unat (ad_size a) \<noteq> sizeof_sockaddr_in
      then Inl (RuntimeError ''ipv4_numeric called on non-IPV4 address'')
      else Inr (word_of_nat (be_nat (take 4 (drop 4 (ad_storage a))))))"

definition from_ipv4_numeric :: "u32 \<Rightarrow> Address result" where
  "from_ipv4_numeric ip_address =
     Address_of_sockaddr ([2, 0, 0, 0] @ unparse_int [] ip_address @ replicate 8 0) (word_of_nat sizeof_sockaddr_in)"

definition Address_eq :: "Address \<Rightarrow> Address \<Rightarrow> bool" where
  "Address_eq a b \<longleftrightarrow>
     (if ad_size a \<noteq> ad_size b then False
      else take (unat (ad_size a)) (ad_storage a) = take (unat (ad_size a)) (ad_storage b))"

definition Address_neq :: "Address \<Rightarrow> Address \<Rightarrow> bool" where
  "Address_neq a b \<longleftrightarrow> \<not> Address_eq a b"

section \<open>Well-formed addresses\<close>

definition address_ok :: "Address \<Rightarrow> bool" where
  "address_ok a \<longleftrightarrow> length (ad_storage a) = sizeof_storage \<and> unat (ad_size a) \<le> sizeof_storage
     \<and> drop (unat (ad_size a)) (ad_storage a) = replicate (sizeof_storage - unat (ad_size a)) 0"

lemma of_sockaddr_ok:
  assumes "Address_of_sockaddr addr sz = Inr a"
  shows "address_ok a" and "Address_sockaddr a = take (unat sz) addr" and "unat (ad_size a) = unat sz"
    and "unat sz \<le> sizeof_storage"
proof -
  have le: "unat sz \<le> 128" "unat sz \<le> length addr"
      and a: "a = \<lparr>ad_size = ucast sz, ad_storage = overwrite Raw_default (take (unat sz) addr)\<rparr>"
    using assms by (auto simp: Address_of_sockaddr_def sizeof_storage_def word_less_nat_alt split: if_splits)
  show sz: "unat (ad_size a) = unat sz"
    using le(1) by (simp add: a unsigned_ucast_eq take_bit_nat_eq_self)
  have st: "ad_storage a = take (unat sz) addr @ replicate (128 - unat sz) 0"
    using le by (simp add: a overwrite_def Raw_default_def sizeof_storage_def)
  show "address_ok a" "Address_sockaddr a = take (unat sz) addr" "unat sz \<le> sizeof_storage"
    using le by (simp_all add: address_ok_def Address_sockaddr_def sz st sizeof_storage_def)
qed

lemma resolve_ok:
  assumes "Address_resolve K node service hints s = (Inr a, s')"
  shows "address_ok a"
  using assms of_sockaddr_ok(1)
  by (auto simp: Address_resolve_def Let_def split: prod.splits if_splits list.splits)

lemma address_eq_iff:
  assumes "address_ok a" and "address_ok b"
  shows "Address_eq a b \<longleftrightarrow> a = b"
proof
  assume eq: "Address_eq a b"
  then have "ad_size a = ad_size b" "take (unat (ad_size a)) (ad_storage a) = take (unat (ad_size a)) (ad_storage b)"
    by (simp_all add: Address_eq_def split: if_splits)
  moreover from this assms have "drop (unat (ad_size a)) (ad_storage a) = drop (unat (ad_size a)) (ad_storage b)"
    by (simp add: address_ok_def)
  ultimately have "ad_storage a = ad_storage b" by (metis append_take_drop_id)
  with \<open>ad_size a = ad_size b\<close> show "a = b" by simp
qed (simp add: Address_eq_def)

section \<open>Properties\<close>

text \<open>
  C36. Every address the program makes is well formed: its length fits the 128 bytes of the storage and
  what lies behind it is zero, whether it was copied from a \<open>sockaddr\<close> or resolved from a name; a
  longer \<open>sockaddr\<close> is refused. On well-formed addresses \<open>operator==\<close> is equality.
\<close>

theorem address_well_formed:
  assumes "Address_of_sockaddr addr sz = Inr a"
    and "Address_of_host K hostname service s = (Inr b, s')"
    and "Address_of_ip K ip port s = (Inr c, s'')"
  shows "list_all address_ok [a, b, c] \<and> unat sz \<le> 128
    \<and> Address_sockaddr a = take (unat sz) addr
    \<and> Address_eq a b = (a = b) \<and> Address_eq b c = (b = c) \<and> Address_neq a c = (a \<noteq> c)"
proof -
  have "address_ok a" "address_ok b" "address_ok c"
    by (rule of_sockaddr_ok(1) [OF assms(1)], rule resolve_ok [OF assms(2) [unfolded Address_of_host_def]],
      rule resolve_ok [OF assms(3) [unfolded Address_of_ip_def]])
  with of_sockaddr_ok [OF assms(1)] show ?thesis
    by (simp add: address_eq_iff Address_neq_def sizeof_storage_def)
qed

theorem address_well_formed_witness:
  "\<exists>a b c. list_all address_ok [a, b, c]
     \<and> Address_of_sockaddr [1, 0, 65] 3 = Inr a
     \<and> fst (Address_of_host demo_kernel ''example.org'' ''http'' (demo_system [])) = Inr b
     \<and> fst (Address_of_ip demo_kernel ''10.0.0.1'' 80 (demo_system [])) = Inr c"
proof -
  obtain a where a: "Address_of_sockaddr [1, 0, 65] 3 = Inr a"
    by (simp add: Address_of_sockaddr_def sizeof_storage_def)
  obtain b s' where b: "Address_of_host demo_kernel ''example.org'' ''http'' (demo_system []) = (Inr b, s')"
    by (simp add: Address_of_host_def Address_resolve_def demo_kernel_def Address_of_sockaddr_def sizeof_storage_def
        size_t_def make_hints_def)
  obtain c s'' where c: "Address_of_ip demo_kernel ''10.0.0.1'' 80 (demo_system []) = (Inr c, s'')"
    by (simp add: Address_of_ip_def Address_resolve_def demo_kernel_def Address_of_sockaddr_def sizeof_storage_def
        size_t_def make_hints_def)
  from address_well_formed [OF a b c] a b c show ?thesis by auto
qed

text \<open>
  Numeric IPv4 addresses: \<open>from_ipv4_numeric\<close> never throws, \<open>ipv4_numeric\<close> gives the number back,
  and two such addresses are equal exactly when the numbers are.
\<close>

theorem ipv4_numeric_roundtrip:
  "\<exists>a b. from_ipv4_numeric x = Inr a \<and> from_ipv4_numeric y = Inr b \<and> ipv4_numeric a = Inr x
    \<and> Address_eq a b = (x = y)"
proof -
  let ?addr = "\<lambda>x. [2, 0, 0, 0] @ unparse_int [] (x :: u32) @ replicate 8 0 :: bytes"
  have len: "length (unparse_int [] (x :: u32)) = 4" for x by (simp add: unparse_int_eq)
  have "\<exists>a. from_ipv4_numeric x = Inr a \<and> ad_size a = 16 \<and> ad_storage a = ?addr x @ replicate 112 0" for x
    by (simp add: from_ipv4_numeric_def Address_of_sockaddr_def sizeof_storage_def sizeof_sockaddr_in_def
        overwrite_def Raw_default_def len)
  then obtain a b where a: "from_ipv4_numeric x = Inr a" "ad_size a = 16" "ad_storage a = ?addr x @ replicate 112 0"
      and b: "from_ipv4_numeric y = Inr b" "ad_size b = 16" "ad_storage b = ?addr y @ replicate 112 0" by meson
  have num: "be_nat (unparse_int [] z) = unat z" for z :: u32 by (rule be_nat_unparse [of 4]) simp
  have "ipv4_numeric a = Inr x"
    using a by (simp add: ipv4_numeric_def ss_family_def AF_INET_def sizeof_sockaddr_in_def len num)
  moreover have "unparse_int [] x = unparse_int [] y \<longleftrightarrow> x = y"
    using num [of x] num [of y] by (metis word_unat_eq_iff)
  then have "Address_eq a b = (x = y)" using a b by (simp add: Address_eq_def len)
  ultimately show ?thesis using a b by blast
qed

end
