(* ===== verification/Sockets.thy ===== *)
theory Sockets
  imports Address
begin

text \<open>
  The classes \<open>Socket\<close>, \<open>UDPSocket\<close>, \<open>TCPSocket\<close> and \<open>LocalStreamSocket\<close> of \<open>util/socket.hh\<close> and
  \<open>util/socket.cc\<close>, and \<open>TunTapFD\<close> with its subclasses of \<open>util/tun.hh\<close> and \<open>util/tun.cc\<close>. All are
  file descriptors; a constructor that throws gives up the reference its base class holds. The
  constants are those of Linux.
\<close>

section \<open>Constants and helpers\<close>

definition AF_UNIX :: int where
  "AF_UNIX = 1"

definition SOCK_STREAM :: int where
  "SOCK_STREAM = 1"

definition SOCK_DGRAM :: int where
  "SOCK_DGRAM = 2"

definition SOL_SOCKET :: int where
  "SOL_SOCKET = 1"

definition SO_REUSEADDR :: int where
  "SO_REUSEADDR = 2"

definition SO_TYPE :: int where
  "SO_TYPE = 3"

definition SO_DOMAIN :: int where
  "SO_DOMAIN = 39"

definition SHUT_RD :: int where
  "SHUT_RD = 0"

definition SHUT_WR :: int where
  "SHUT_WR = 1"

definition SHUT_RDWR :: int where
  "SHUT_RDWR = 2"

text \<open>The destructor of a completed part of an object whose construction fails.\<close>

definition io_on_error :: "('w, 'a) io \<Rightarrow> ('w, unit) io \<Rightarrow> ('w, 'a) io" where
  "io_on_error m cleanup s =
     (case m s of
        (Inl e, s') \<Rightarrow> (case cleanup s' of (Inl e', s'') \<Rightarrow> (Inl e', s'') | (Inr _, s'') \<Rightarrow> (Inl e, s''))
      | (Inr x, s') \<Rightarrow> (Inr x, s'))"

section \<open>Socket\<close>

definition Socket_new :: "'w kernel \<Rightarrow> int \<Rightarrow> int \<Rightarrow> ('w, FileDescriptor) io" where
  "Socket_new K domain type =
     io_bind (syscall ''socket'' (k_socket K domain type)) FileDescriptor_new"

text \<open>One of the two checks: the option is an \<open>int\<close> of four bytes with the expected value.\<close>

definition verify_option :: "'w kernel \<Rightarrow> FileDescriptor \<Rightarrow> int \<Rightarrow> int \<Rightarrow> string \<Rightarrow> ('w, unit) io" where
  "verify_option K d option expected text =
     io_bind (fd_num d) (\<lambda>fd.
     io_bind (sysquery ''getsockopt'' (k_getsockopt K fd SOL_SOCKET option)) (\<lambda>(_, actual_value, len).
     if len \<noteq> 4 \<or> actual_value \<noteq> expected then io_throw (RuntimeError text) else io_return ()))"

definition Socket_of_fd :: "'w kernel \<Rightarrow> FileDescriptor \<Rightarrow> int \<Rightarrow> int \<Rightarrow> ('w, FileDescriptor) io" where
  "Socket_of_fd K d domain type =
     io_on_error
       (io_bind (verify_option K d SO_DOMAIN domain ''socket domain mismatch'') (\<lambda>_.
        io_bind (verify_option K d SO_TYPE type ''socket type mismatch'') (\<lambda>_.
        io_return d)))
       (FileDescriptor_destroy K d)"

definition get_address ::
  "FileDescriptor \<Rightarrow> string \<Rightarrow> (int \<Rightarrow> u32 \<Rightarrow> ('w, bytes \<times> u32) query) \<Rightarrow> ('w, Address) io" where
  "get_address d name_of_function f =
     io_bind (fd_num d) (\<lambda>fd.
     io_bind (sysquery name_of_function (f fd (word_of_nat sizeof_storage))) (\<lambda>(_, address, len).
     io_result (Address_of_sockaddr (overwrite Raw_default address) (ucast len))))"

definition local_address :: "'w kernel \<Rightarrow> FileDescriptor \<Rightarrow> ('w, Address) io" where
  "local_address K d = get_address d ''getsockname'' (k_getsockname K)"

definition peer_address :: "'w kernel \<Rightarrow> FileDescriptor \<Rightarrow> ('w, Address) io" where
  "peer_address K d = get_address d ''getpeername'' (k_getpeername K)"

definition Socket_bind :: "'w kernel \<Rightarrow> FileDescriptor \<Rightarrow> Address \<Rightarrow> ('w, unit) io" where
  "Socket_bind K d address =
     io_bind (fd_num d) (\<lambda>fd.
     io_bind (syscall ''bind'' (k_bind K fd (Address_sockaddr address))) (\<lambda>_. io_return ()))"

definition Socket_connect :: "'w kernel \<Rightarrow> FileDescriptor \<Rightarrow> Address \<Rightarrow> ('w, unit) io" where
  "Socket_connect K d address =
     io_bind (fd_num d) (\<lambda>fd.
     io_bind (syscall ''connect'' (k_connect K fd (Address_sockaddr address))) (\<lambda>_. io_return ()))"

definition Socket_shutdown :: "'w kernel \<Rightarrow> FileDescriptor \<Rightarrow> int \<Rightarrow> ('w, unit) io" where
  "Socket_shutdown K d how =
     io_bind (fd_num d) (\<lambda>fd.
     io_bind (syscall ''shutdown'' (k_shutdown K fd how)) (\<lambda>_.
     if how = SHUT_RD then register_read d
     else if how = SHUT_WR then register_write d
     else if how = SHUT_RDWR then io_bind (register_read d) (\<lambda>_. register_write d)
     else io_throw (RuntimeError ''Socket::shutdown() called with invalid `how`'')))"

definition Socket_setsockopt :: "'w kernel \<Rightarrow> FileDescriptor \<Rightarrow> int \<Rightarrow> int \<Rightarrow> int \<Rightarrow> ('w, unit) io" where
  "Socket_setsockopt K d level option option_value =
     io_bind (fd_num d) (\<lambda>fd.
     io_bind (syscall ''setsockopt'' (k_setsockopt K fd level option option_value)) (\<lambda>_. io_return ()))"

definition set_reuseaddr :: "'w kernel \<Rightarrow> FileDescriptor \<Rightarrow> ('w, unit) io" where
  "set_reuseaddr K d = Socket_setsockopt K d SOL_SOCKET SO_REUSEADDR 1"

section \<open>UDPSocket\<close>

record received_datagram =
  rd_source_address :: Address
  rd_payload :: bytes

definition UDPSocket_new :: "'w kernel \<Rightarrow> ('w, FileDescriptor) io" where
  "UDPSocket_new K = Socket_new K AF_INET SOCK_DGRAM"

definition UDPSocket_of_fd :: "'w kernel \<Rightarrow> FileDescriptor \<Rightarrow> ('w, FileDescriptor) io" where
  "UDPSocket_of_fd K d = Socket_of_fd K d AF_INET SOCK_DGRAM"

definition UDPSocket_recv_into ::
  "'w kernel \<Rightarrow> FileDescriptor \<Rightarrow> received_datagram \<Rightarrow> u64 \<Rightarrow> ('w, received_datagram) io" where
  "UDPSocket_recv_into K d datagram mtu =
     (let payload = string_resize (rd_payload datagram) (unat mtu)
      in io_bind (fd_num d) (\<lambda>fd.
         io_bind (sysquery ''recvfrom'' (k_recvfrom K fd (size_t payload))) (\<lambda>(recv_len, data, source, fromlen).
         if sint mtu < recv_len then io_throw (RuntimeError ''recvfrom (oversized datagram)'')
         else io_bind (register_read d) (\<lambda>_.
              io_bind (io_result (Address_of_sockaddr (overwrite Raw_default source) (ucast fromlen))) (\<lambda>addr.
              if recv_len < 0 then io_throw (LengthError ''basic_string::_M_replace_aux'')
              else io_return \<lparr>rd_source_address = addr,
                     rd_payload = string_resize (overwrite payload data) (nat recv_len)\<rparr>)))))"

definition UDPSocket_recv :: "'w kernel \<Rightarrow> FileDescriptor \<Rightarrow> u64 \<Rightarrow> ('w, received_datagram) io" where
  "UDPSocket_recv K d mtu =
     io_bind (io_result (Address_of_sockaddr [] 0)) (\<lambda>addr.
     UDPSocket_recv_into K d \<lparr>rd_source_address = addr, rd_payload = []\<rparr> mtu)"

definition sendmsg_helper :: "'w kernel \<Rightarrow> int \<Rightarrow> bytes option \<Rightarrow> BufferViewList \<Rightarrow> ('w, unit) io" where
  "sendmsg_helper K fd destination payload =
     (let iovecs = as_iovecs payload
      in io_bind (syscall ''sendmsg'' (k_sendmsg K fd destination iovecs)) (\<lambda>bytes_sent.
         if (word_of_int bytes_sent :: u64) \<noteq> BufferViewList_size payload
         then io_throw (RuntimeError ''datagram payload too big for sendmsg()'')
         else io_return ()))"

definition UDPSocket_sendto :: "'w kernel \<Rightarrow> FileDescriptor \<Rightarrow> Address \<Rightarrow> BufferViewList \<Rightarrow> ('w, unit) io" where
  "UDPSocket_sendto K d destination payload =
     io_bind (fd_num d) (\<lambda>fd.
     io_bind (sendmsg_helper K fd (Some (Address_sockaddr destination)) payload) (\<lambda>_. register_write d))"

definition UDPSocket_send :: "'w kernel \<Rightarrow> FileDescriptor \<Rightarrow> BufferViewList \<Rightarrow> ('w, unit) io" where
  "UDPSocket_send K d payload =
     io_bind (fd_num d) (\<lambda>fd.
     io_bind (sendmsg_helper K fd None payload) (\<lambda>_. register_write d))"

section \<open>TCPSocket and LocalStreamSocket\<close>

definition TCPSocket_new :: "'w kernel \<Rightarrow> ('w, FileDescriptor) io" where
  "TCPSocket_new K = Socket_new K AF_INET SOCK_STREAM"

definition TCPSocket_of_fd :: "'w kernel \<Rightarrow> FileDescriptor \<Rightarrow> ('w, FileDescriptor) io" where
  "TCPSocket_of_fd K d = Socket_of_fd K d AF_INET SOCK_STREAM"

definition TCPSocket_listen :: "'w kernel \<Rightarrow> FileDescriptor \<Rightarrow> int \<Rightarrow> ('w, unit) io" where
  "TCPSocket_listen K d backlog =
     io_bind (fd_num d) (\<lambda>fd. io_bind (syscall ''listen'' (k_listen K fd backlog)) (\<lambda>_. io_return ()))"

definition TCPSocket_accept :: "'w kernel \<Rightarrow> FileDescriptor \<Rightarrow> ('w, FileDescriptor) io" where
  "TCPSocket_accept K d =
     io_bind (register_read d) (\<lambda>_.
     io_bind (fd_num d) (\<lambda>fd.
     io_bind (syscall ''accept'' (k_accept K fd)) (\<lambda>new_fd.
     io_bind (FileDescriptor_new new_fd) (TCPSocket_of_fd K))))"

definition LocalStreamSocket_of_fd :: "'w kernel \<Rightarrow> FileDescriptor \<Rightarrow> ('w, FileDescriptor) io" where
  "LocalStreamSocket_of_fd K d = Socket_of_fd K d AF_UNIX SOCK_STREAM"

section \<open>TunTapFD\<close>

definition CLONEDEV :: string where
  "CLONEDEV = ''/dev/net/tun''"

definition IFF_TUN :: u16 where
  "IFF_TUN = 1"

definition IFF_TAP :: u16 where
  "IFF_TAP = 2"

definition IFF_NO_PI :: u16 where
  "IFF_NO_PI = 0x1000"

definition IFNAMSIZ :: nat where
  "IFNAMSIZ = 16"

text \<open>\<open>strncpy\<close> into a zeroed array of 16: up to a zero byte and at most 15, then a final zero.\<close>

definition ifr_name :: "bytes \<Rightarrow> bytes" where
  "ifr_name devname =
     (let copied = takeWhile (\<lambda>c. c \<noteq> 0) (take (IFNAMSIZ - 1) devname)
      in (copied @ replicate (IFNAMSIZ - length copied) 0)[IFNAMSIZ - 1 := 0])"

definition TunTapFD_new :: "'w kernel \<Rightarrow> string \<Rightarrow> bool \<Rightarrow> ('w, FileDescriptor) io" where
  "TunTapFD_new K devname is_tun =
     io_bind (syscall ''open'' (k_open K CLONEDEV)) (\<lambda>n.
     io_bind (FileDescriptor_new n) (\<lambda>d.
     let flags = (if is_tun then IFF_TUN else IFF_TAP) OR IFF_NO_PI
     in io_on_error
          (io_bind (fd_num d) (\<lambda>fd.
           io_bind (syscall ''ioctl'' (k_ioctl_tunsetiff K fd flags (ifr_name (ascii devname)))) (\<lambda>_.
           io_return d)))
          (FileDescriptor_destroy K d)))"

definition TunFD_new :: "'w kernel \<Rightarrow> string \<Rightarrow> ('w, FileDescriptor) io" where
  "TunFD_new K devname = TunTapFD_new K devname True"

definition TapFD_new :: "'w kernel \<Rightarrow> string \<Rightarrow> ('w, FileDescriptor) io" where
  "TapFD_new K devname = TunTapFD_new K devname False"

section \<open>Receiving datagrams\<close>

text \<open>
  What \<open>recvfrom(2)\<close> with \<open>MSG_TRUNC\<close> promises of a datagram socket with a queue of payloads and source
  addresses: it fails with \<open>-1\<close> and an error number and takes nothing, or it takes the first
  datagram, stores as much of the payload as fits, stores the source address and its length, and
  returns the full length of the payload.
\<close>

definition datagram_source :: "'w kernel \<Rightarrow> int \<Rightarrow> ('w \<Rightarrow> (bytes \<times> bytes) list) \<Rightarrow> bool" where
  "datagram_source K fd queue \<longleftrightarrow>
     (\<forall>n w ret errno data source len w'. k_recvfrom K fd n w = (ret, errno, (data, source, len), w') \<longrightarrow>
        ret = -1 \<and> errno \<noteq> 0 \<and> queue w' = queue w
        \<or> (\<exists>payload. queue w = (payload, source) # queue w' \<and> ret = int (length payload) \<and> length payload < 2 ^ 31
             \<and> data = take (unat n) payload \<and> unat len = length source \<and> length source \<le> sizeof_storage))"

text \<open>The address stored by the kernel, as the constructor of \<open>Address\<close> finds it.\<close>

lemma received_address:
  assumes "unat (len :: u32) = length source" and "length source \<le> sizeof_storage"
  shows "\<exists>a. Address_of_sockaddr (overwrite Raw_default source) (ucast len) = Inr a \<and> address_ok a
    \<and> Address_sockaddr a = source"
proof -
  have len: "unat (ucast len :: u64) = length source"
    using assms by (simp add: unsigned_ucast_eq sizeof_storage_def take_bit_nat_eq_self)
  have raw: "length (overwrite Raw_default source) = sizeof_storage" "take (length source) (overwrite Raw_default source) = source"
    using assms(2) by (simp_all add: overwrite_def Raw_default_def)
  obtain a where "Address_of_sockaddr (overwrite Raw_default source) (ucast len) = Inr a"
    using assms(2) raw(1) len by (simp add: Address_of_sockaddr_def word_less_nat_alt sizeof_storage_def)
  with of_sockaddr_ok(1,2) [OF this] len raw(2) show ?thesis by simp
qed

lemma recv_into_cases:
  assumes kernel: "datagram_source K (fw_fd w) queue" and live: "fd_live s d w" and mtu: "unat mtu < 2 ^ 63"
  shows "(\<exists>errno x. UDPSocket_recv_into K d dg mtu s = (Inl (UnixError ''recvfrom'' errno), s\<lparr>sy_world := x\<rparr>)
      \<and> queue x = queue (sy_world s))
    \<or> (\<exists>payload source x. queue (sy_world s) = (payload, source) # queue x
      \<and> (if unat mtu < length payload
         then UDPSocket_recv_into K d dg mtu s = (Inl (RuntimeError ''recvfrom (oversized datagram)''), s\<lparr>sy_world := x\<rparr>)
         else \<exists>a. UDPSocket_recv_into K d dg mtu s = (Inr \<lparr>rd_source_address = a, rd_payload = payload\<rparr>,
                  fd_update d (w\<lparr>fw_read_count := fw_read_count w + 1\<rparr>) (s\<lparr>sy_world := x\<rparr>))
                \<and> address_ok a \<and> Address_sockaddr a = source))"
proof -
  let ?buf = "string_resize (rd_payload dg) (unat mtu)" and ?f = "k_recvfrom K (fw_fd w) mtu"
  obtain ret errno data source len x where call: "?f (sy_world s) = (ret, errno, (data, source, len), x)"
    by (cases "?f (sy_world s)") auto
  have n: "size_t ?buf = mtu" by (simp add: size_t_def)
  note eval = UDPSocket_recv_into_def Let_def io_bind_def fd_num_live [OF live] n io_throw_def
  from kernel call consider (fail) "ret = -1" "errno \<noteq> 0" "queue x = queue (sy_world s)"
    | (got) payload where "queue (sy_world s) = (payload, source) # queue x" "ret = int (length payload)"
      "length payload < 2 ^ 31" "data = take (unat mtu) payload" "unat len = length source" "length source \<le> sizeof_storage"
    unfolding datagram_source_def by metis
  then show ?thesis
  proof cases
    case fail
    note sys = sysquery_fail [where attempt = "''recvfrom''" and s = s and f = ?f, OF call [unfolded fail(1)] fail(2)]
    from fail(3) show ?thesis by (intro disjI1 exI [of _ errno] exI [of _ x]) (simp add: eval sys)
  next
    case got
    have "0 \<le> ret" "ret < 2 ^ 31" using got(2,3) by simp_all
    note sys = sysquery_ok [where attempt = "''recvfrom''" and s = s and f = ?f, OF call this]
    have long: "sint mtu < ret \<longleftrightarrow> unat mtu < length payload" unfolding sint_small [OF mtu] got(2) of_nat_less_iff ..
    obtain a where a: "Address_of_sockaddr (overwrite Raw_default source) (ucast len) = Inr a" "address_ok a" "Address_sockaddr a = source"
      using received_address [OF got(5,6)] by blast
    have res: "string_resize (overwrite ?buf data) (length payload) = payload" if "\<not> unat mtu < length payload"
      using that got(4) by (subst string_resize_prefix) simp_all
    have "fd_live (s\<lparr>sy_world := x\<rparr>) d w" using live by simp
    note reg = modify_live [OF this]
    from got(1,2) long a res show ?thesis
      by (intro disjI2 exI [of _ payload] exI [of _ source] exI [of _ x])
        (simp add: eval sys register_read_def reg io_result_def io_return_def)
  qed
qed

section \<open>Properties\<close>

text \<open>
  C31. \<open>UDPSocket::recv\<close> never hands over part of a datagram: it takes at most one datagram from the
  queue and returns its whole payload with the address it came from, or throws because the payload
  is longer than the given size (that datagram is then lost), or throws the error of a failed call.
\<close>

theorem recv_never_truncates:
  assumes "datagram_source K (fw_fd w) queue" and "fd_live s d w" and "unat mtu < 2 ^ 63"
  shows "\<exists>r s'. UDPSocket_recv K d mtu s = (r, s')
    \<and> (case r of
         Inr dg \<Rightarrow> queue (sy_world s) = (rd_payload dg, Address_sockaddr (rd_source_address dg)) # queue (sy_world s')
           \<and> length (rd_payload dg) \<le> unat mtu \<and> address_ok (rd_source_address dg)
       | Inl e \<Rightarrow>
           (\<exists>payload source. e = RuntimeError ''recvfrom (oversized datagram)''
              \<and> queue (sy_world s) = (payload, source) # queue (sy_world s') \<and> unat mtu < length payload)
           \<or> (\<exists>errno. e = UnixError ''recvfrom'' errno \<and> queue (sy_world s') = queue (sy_world s)))"
proof -
  obtain a where "Address_of_sockaddr [] 0 = Inr a" by (simp add: Address_of_sockaddr_def)
  then have eq: "UDPSocket_recv K d mtu s = UDPSocket_recv_into K d \<lparr>rd_source_address = a, rd_payload = []\<rparr> mtu s"
    by (simp add: UDPSocket_recv_def io_bind_def io_result_def)
  from recv_into_cases [OF assms, of "\<lparr>rd_source_address = a, rd_payload = []\<rparr>"]
  show ?thesis unfolding eq by (elim disjE exE conjE) (auto split: if_splits)
qed

definition datagram_kernel :: "(bytes \<times> bytes) kernel" where
  "datagram_kernel = demo_kernel\<lparr>k_recvfrom := (\<lambda>fd n w. case snd w of
     [] \<Rightarrow> (-1, 11, ([], [], 0), w) | b # bs \<Rightarrow> (2, 0, (take (unat n) [b, b], [2, 0], 2), fst w, bs))\<rparr>"

lemma datagram_kernel_source: "datagram_source datagram_kernel fd (\<lambda>w. map (\<lambda>b. ([b, b], [2, 0])) (snd w))"
  by (auto simp: datagram_source_def datagram_kernel_def sizeof_storage_def split: list.splits)

theorem recv_never_truncates_witness:
  "\<exists>r s'. UDPSocket_recv datagram_kernel 0 100 (demo_system [7, 8]) = (r, s')
    \<and> (\<forall>dg. r = Inr dg \<longrightarrow> rd_payload dg = [7, 7] \<and> Address_sockaddr (rd_source_address dg) = [2, 0])"
proof -
  have "unat (100 :: u64) < 2 ^ 63" by simp
  from recv_never_truncates [OF datagram_kernel_source demo_live this, of "[7, 8]"] show ?thesis
    by (elim exE conjE) (auto simp: demo_system_def split: sum.splits)
qed

end
