(* ===== verification/Event_Loop.thy ===== *)
theory Event_Loop
  imports Sockets "HOL-Library.Sublist"
begin

text \<open>
  The class \<open>EventLoop\<close> of \<open>util/eventloop.hh\<close> and \<open>util/eventloop.cc\<close>. The function objects of a
  rule are opaque identifiers; what calling them does is a parameter, the record \<open>callbacks\<close>: a
  result or an exception, the rules the call adds to the loop, and the system it leaves. Since the
  calls may add rules for ever, the two loops of \<open>wait_next_event\<close> are partial functions, with \<open>None\<close>
  for a loop that does not end; the second one always ends, its index running out of poll results.
\<close>

section \<open>Definitions\<close>

definition POLLIN :: u16 where
  "POLLIN = 0x1"

definition POLLOUT :: u16 where
  "POLLOUT = 0x4"

definition POLLERR :: u16 where
  "POLLERR = 0x8"

definition POLLHUP :: u16 where
  "POLLHUP = 0x10"

definition POLLNVAL :: u16 where
  "POLLNVAL = 0x20"

definition EINTR :: int where
  "EINTR = 4"

datatype Direction = In | Out

fun direction_mask :: "Direction \<Rightarrow> u16" where
  "direction_mask In = POLLIN"
| "direction_mask Out = POLLOUT"

record Rule =
  rl_fd :: FileDescriptor
  rl_direction :: Direction
  rl_callback :: nat
  rl_interest :: nat
  rl_cancel :: nat

type_synonym ('w, 'a) action = "'w system \<Rightarrow> 'a result \<times> Rule list \<times> 'w system"

record 'w callbacks =
  cb_callback :: "nat \<Rightarrow> ('w, unit) action"
  cb_interest :: "nat \<Rightarrow> ('w, bool) action"
  cb_cancel :: "nat \<Rightarrow> ('w, unit) action"

datatype Result = Success | Timeout | Exit

definition service_count :: "Rule \<Rightarrow> ('w, u32) io" where
  "service_count r = (if rl_direction r = In then read_count (rl_fd r) else write_count (rl_fd r))"

definition add_rule ::
  "Rule list \<Rightarrow> FileDescriptor \<Rightarrow> Direction \<Rightarrow> nat \<Rightarrow> nat \<Rightarrow> nat \<Rightarrow> ('w, Rule list) io" where
  "add_rule rules fd direction callback interest cancel =
     io_bind (FileDescriptor_duplicate fd) (\<lambda>d.
     io_return (rules @ [\<lparr>rl_fd = d, rl_direction = direction, rl_callback = callback,
                          rl_interest = interest, rl_cancel = cancel\<rparr>]))"

text \<open>Whether a rule is to be cancelled before polling: end of file on a rule for reading, or closed.\<close>

definition rule_over :: "Rule \<Rightarrow> ('w, bool) io" where
  "rule_over r =
     io_bind (if rl_direction r = In then FileDescriptor_eof (rl_fd r) else io_return False) (\<lambda>at_eof.
     if at_eof then io_return True else FileDescriptor_closed (rl_fd r))"

text \<open>
  The first loop. \<open>kept\<close> are the rules before the iterator, \<open>rest\<close> those from it on, so that the list
  of rules is \<open>kept @ rest\<close>; rules that a call adds go to its end.
\<close>

partial_function (option) poll_setup ::
  "'w kernel \<Rightarrow> 'w callbacks \<Rightarrow> Rule list \<Rightarrow> pollfd list \<Rightarrow> bool \<Rightarrow> Rule list \<Rightarrow> 'w system
     \<Rightarrow> ((pollfd list \<times> bool) result \<times> Rule list \<times> 'w system) option" where
  "poll_setup K C kept pollfds something_to_poll rest s =
     (case rest of
        [] \<Rightarrow> Some (Inr (pollfds, something_to_poll), kept, s)
      | r # rest' \<Rightarrow>
         (case rule_over r s of
            (Inl e, s1) \<Rightarrow> Some (Inl e, kept @ rest, s1)
          | (Inr over, s1) \<Rightarrow>
              if over
              then (case cb_cancel C (rl_cancel r) s1 of
                      (Inl e, added, s2) \<Rightarrow> Some (Inl e, kept @ rest @ added, s2)
                    | (Inr _, added, s2) \<Rightarrow>
                       (case FileDescriptor_destroy K (rl_fd r) s2 of
                          (Inl e, s3) \<Rightarrow> Some (Inl e, kept @ rest' @ added, s3)
                        | (Inr _, s3) \<Rightarrow> poll_setup K C kept pollfds something_to_poll (rest' @ added) s3))
              else (case cb_interest C (rl_interest r) s1 of
                      (Inl e, added, s2) \<Rightarrow> Some (Inl e, kept @ rest @ added, s2)
                    | (Inr interested, added, s2) \<Rightarrow>
                       (case fd_num (rl_fd r) s2 of
                          (Inl e, s3) \<Rightarrow> Some (Inl e, kept @ rest @ added, s3)
                        | (Inr n, s3) \<Rightarrow>
                            poll_setup K C (kept @ [r])
                              (pollfds @ [\<lparr>pfd_fd = n, pfd_events = (if interested then direction_mask (rl_direction r) else 0),
                                           pfd_revents = 0\<rparr>])
                              (something_to_poll \<or> interested) (rest' @ added) s3))))"

text \<open>What a ready rule does: the callback, and the check that it has read, written or lost interest.\<close>

definition serve_rule :: "'w callbacks \<Rightarrow> Rule \<Rightarrow> ('w, unit) action" where
  "serve_rule C r s =
     (case service_count r s of
        (Inl e, s1) \<Rightarrow> (Inl e, [], s1)
      | (Inr count_before, s1) \<Rightarrow>
         (case cb_callback C (rl_callback r) s1 of
            (Inl e, added, s2) \<Rightarrow> (Inl e, added, s2)
          | (Inr _, added, s2) \<Rightarrow>
             (case service_count r s2 of
                (Inl e, s3) \<Rightarrow> (Inl e, added, s3)
              | (Inr count_after, s3) \<Rightarrow>
                  if count_before = count_after
                  then (case cb_interest C (rl_interest r) s3 of
                          (Inl e, added', s4) \<Rightarrow> (Inl e, added @ added', s4)
                        | (Inr interested, added', s4) \<Rightarrow>
                            if interested
                            then (Inl (RuntimeError
                              ''EventLoop: busy wait detected: callback did not read/write fd and is still interested''),
                              added @ added', s4)
                            else (Inr (), added @ added', s4))
                  else (Inr (), added, s3))))"

text \<open>The second loop; \<open>idx\<close> counts up with the iterator and indexes the poll results.\<close>

partial_function (option) poll_results ::
  "'w kernel \<Rightarrow> 'w callbacks \<Rightarrow> pollfd list \<Rightarrow> nat \<Rightarrow> Rule list \<Rightarrow> Rule list \<Rightarrow> 'w system
     \<Rightarrow> (unit result \<times> Rule list \<times> 'w system) option" where
  "poll_results K C pollfds idx kept rest s =
     (case rest of
        [] \<Rightarrow> Some (Inr (), kept, s)
      | r # rest' \<Rightarrow>
          if \<not> idx < length pollfds then Some (Inl UndefinedBehaviour, kept @ rest, s)
          else let p = pollfds ! idx;
                   poll_ready = (pfd_revents p AND pfd_events p \<noteq> 0);
                   poll_hup = (pfd_revents p AND POLLHUP \<noteq> 0)
               in if pfd_revents p AND (POLLERR OR POLLNVAL) \<noteq> 0
                  then Some (Inl (RuntimeError ''EventLoop: error on polled file descriptor''), kept @ rest, s)
                  else if poll_hup \<and> pfd_events p \<noteq> 0 \<and> \<not> poll_ready
                  then (case cb_cancel C (rl_cancel r) s of
                          (Inl e, added, s1) \<Rightarrow> Some (Inl e, kept @ rest @ added, s1)
                        | (Inr _, added, s1) \<Rightarrow>
                           (case FileDescriptor_destroy K (rl_fd r) s1 of
                              (Inl e, s2) \<Rightarrow> Some (Inl e, kept @ rest' @ added, s2)
                            | (Inr _, s2) \<Rightarrow> poll_results K C pollfds (idx + 1) kept (rest' @ added) s2))
                  else if poll_ready
                  then (case serve_rule C r s of
                          (Inl e, added, s1) \<Rightarrow> Some (Inl e, kept @ rest @ added, s1)
                        | (Inr _, added, s1) \<Rightarrow> poll_results K C pollfds (idx + 1) (kept @ [r]) (rest' @ added) s1)
                  else poll_results K C pollfds (idx + 1) (kept @ [r]) rest' s)"

text \<open>The kernel fills in the returned events.\<close>

definition set_revents :: "pollfd list \<Rightarrow> u16 list \<Rightarrow> pollfd list" where
  "set_revents pollfds revents =
     map (\<lambda>i. (pollfds ! i)\<lparr>pfd_revents := if i < length revents then revents ! i else 0\<rparr>) [0..<length pollfds]"

definition wait_next_event ::
  "'w kernel \<Rightarrow> 'w callbacks \<Rightarrow> Rule list \<Rightarrow> int \<Rightarrow> 'w system \<Rightarrow> (Result result \<times> Rule list \<times> 'w system) option" where
  "wait_next_event K C rules timeout_ms s =
     (case poll_setup K C [] [] False rules s of
        None \<Rightarrow> None
      | Some (Inl e, rules1, s1) \<Rightarrow> Some (Inl e, rules1, s1)
      | Some (Inr (pollfds, something_to_poll), rules1, s1) \<Rightarrow>
          if \<not> something_to_poll then Some (Inr Exit, rules1, s1)
          else (case k_poll K pollfds timeout_ms (sy_world s1) of (ret, errno, revents, w) \<Rightarrow>
            let s2 = s1\<lparr>sy_world := w\<rparr>; called = SystemCall ''poll'' ret errno 0
            in if called = Inr 0 then Some (Inr Timeout, rules1, s2)
               else if called = Inl (UnixError ''poll'' EINTR) then Some (Inr Exit, rules1, s2)
               else (case poll_results K C (set_revents pollfds revents) 0 [] rules1 s2 of
                       None \<Rightarrow> None
                     | Some (Inl e, rules2, s3) \<Rightarrow> Some (Inl e, rules2, s3)
                     | Some (Inr _, rules2, s3) \<Rightarrow> Some (Inr Success, rules2, s3))))"

section \<open>References held by the rules\<close>

text \<open>Every rule in the list owns one of the counted references to its descriptor.\<close>

definition holds :: "'w system \<Rightarrow> Rule list \<Rightarrow> bool" where
  "holds s rules \<longleftrightarrow> (\<forall>d. count_list (map rl_fd rules) d \<le> refs s d)"

lemma holds_live:
  assumes "holds s rules" and "r \<in> set rules"
  shows "\<exists>w. fd_live s (rl_fd r) w"
proof -
  have "0 < count_list (map rl_fd rules) (rl_fd r)" using assms(2) by (simp add: count_list_0_iff flip: neq0_conv)
  then have "0 < refs s (rl_fd r)" using assms(1) by (metis holds_def less_le_trans)
  then show ?thesis by (auto simp: refs_def fd_live_def split: if_splits)
qed

lemma holds_world [simp]: "holds (s\<lparr>sy_world := w\<rparr>) rules = holds s rules"
  by (simp add: holds_def refs_def)

lemma destroy_holds:
  assumes "holds s (kept @ r # rest)"
  shows "\<exists>s'. FileDescriptor_destroy K (rl_fd r) s = (Inr (), s') \<and> holds s' (kept @ rest)"
proof -
  obtain w where live: "fd_live s (rl_fd r) w" using holds_live [OF assms, of r] by auto
  obtain s' where s': "FileDescriptor_destroy K (rl_fd r) s = (Inr (), s')"
      "length (sy_cells s') = length (sy_cells s)" "snd (sy_cells s' ! rl_fd r) = snd (sy_cells s ! rl_fd r) - 1"
      "\<forall>c. c \<noteq> rl_fd r \<longrightarrow> c < length (sy_cells s) \<longrightarrow> sy_cells s' ! c = sy_cells s ! c"
    using destroy_closes_once [OF live, of K] by blast
  have "count_list (map rl_fd (kept @ rest)) d \<le> refs s' d" for d
  proof -
    have "count_list (map rl_fd (kept @ r # rest)) d \<le> refs s d" using assms by (simp add: holds_def)
    then show ?thesis using s'(2-4) by (cases "d = rl_fd r") (auto simp: refs_def split: if_splits)
  qed
  with s'(1) show ?thesis by (simp add: holds_def)
qed

text \<open>
  What the loop relies on: calling a function object adds no rules, does not run into undefined
  behaviour of its own, and leaves the loop its references.
\<close>

definition well_behaved :: "Rule list \<Rightarrow> ('w, 'a) action \<Rightarrow> bool" where
  "well_behaved rules f \<longleftrightarrow> (\<forall>s. case f s of (res, added, s') \<Rightarrow>
     added = [] \<and> res \<noteq> Inl UndefinedBehaviour
     \<and> (\<forall>rules'. subseq rules' rules \<longrightarrow> holds s rules' \<longrightarrow> holds s' rules'))"

definition callbacks_ok :: "Rule list \<Rightarrow> 'w callbacks \<Rightarrow> bool" where
  "callbacks_ok rules C \<longleftrightarrow> (\<forall>i. well_behaved rules (cb_callback C i) \<and> well_behaved rules (cb_interest C i)
     \<and> well_behaved rules (cb_cancel C i))"

lemma well_behavedD:
  assumes "well_behaved rules f" and "f s = (res, added, s')"
  shows "added = []" and "res \<noteq> Inl UndefinedBehaviour" and "subseq rules' rules \<Longrightarrow> holds s rules' \<Longrightarrow> holds s' rules'"
  using assms unfolding well_behaved_def by (metis (mono_tags, lifting) case_prod_conv)+

lemma subseq_drop_middle: "subseq (kept @ rest) (kept @ r # rest)"
  by (induction kept) auto

section \<open>The loops keep in step\<close>

lemma rule_over_live: "fd_live s (rl_fd r) w \<Longrightarrow> \<exists>over. rule_over r s = (Inr over, s)"
  by (auto simp: rule_over_def FileDescriptor_eof_def FileDescriptor_closed_def io_bind_def io_return_def wrapper_live)

text \<open>
  How a loop over the rules may end: with a C++ exception or a value, having only removed rules, and
  with every remaining rule still owning its reference.
\<close>

definition loop_ok :: "('a \<Rightarrow> Rule list \<Rightarrow> bool) \<Rightarrow> Rule list \<Rightarrow> ('a result \<times> Rule list \<times> 'w system) option \<Rightarrow> bool" where
  "loop_ok P rules out \<longleftrightarrow> (\<exists>res rules' s'. out = Some (res, rules', s') \<and> res \<noteq> Inl UndefinedBehaviour
     \<and> subseq rules' rules \<and> holds s' rules' \<and> (\<forall>x. res = Inr x \<longrightarrow> P x rules'))"

lemma loop_ok_drop:
  assumes "loop_ok P (kept @ rest) out"
  shows "loop_ok P (kept @ r # rest) out"
proof -
  have "subseq rules' (kept @ r # rest)" if "subseq rules' (kept @ rest)" for rules'
    using that subseq_drop_middle by (rule subseq_order.trans)
  with assms show ?thesis unfolding loop_ok_def by blast
qed

lemma loop_ok_error: "e \<noteq> UndefinedBehaviour \<Longrightarrow> holds s rules \<Longrightarrow> loop_ok P rules (Some (Inl e, rules, s))"
  by (simp add: loop_ok_def)

text \<open>The calls the loops make, for a rule \<open>r\<close> with \<open>kept\<close> before and \<open>rest\<close> behind it.\<close>

lemma cancel_ok:
  assumes "callbacks_ok rules C" and "holds s (kept @ r # rest)" and "subseq (kept @ r # rest) rules"
  obtains res s1 s2 where "cb_cancel C (rl_cancel r) s = (res, [], s1)" "res \<noteq> Inl UndefinedBehaviour"
    "holds s1 (kept @ r # rest)" "FileDescriptor_destroy K (rl_fd r) s1 = (Inr (), s2)" "holds s2 (kept @ rest)"
proof -
  obtain res added s1 where call: "cb_cancel C (rl_cancel r) s = (res, added, s1)" by (cases "cb_cancel C (rl_cancel r) s")
  have ok: "well_behaved rules (cb_cancel C (rl_cancel r))" using assms(1) by (simp add: callbacks_ok_def)
  note held = well_behavedD(3) [OF ok call assms(3,2)]
  obtain s2 where "FileDescriptor_destroy K (rl_fd r) s1 = (Inr (), s2)" "holds s2 (kept @ rest)"
    using destroy_holds [OF held] by blast
  with that call well_behavedD(1,2) [OF ok call] held show ?thesis by simp
qed

lemma interest_ok:
  assumes "callbacks_ok rules C" and "holds s (kept @ r # rest)" and "subseq (kept @ r # rest) rules"
  obtains res s1 w where "cb_interest C (rl_interest r) s = (res, [], s1)" "res \<noteq> Inl UndefinedBehaviour"
    "holds s1 (kept @ r # rest)" "fd_live s1 (rl_fd r) w"
proof -
  obtain res added s1 where call: "cb_interest C (rl_interest r) s = (res, added, s1)" by (cases "cb_interest C (rl_interest r) s")
  have ok: "well_behaved rules (cb_interest C (rl_interest r))" using assms(1) by (simp add: callbacks_ok_def)
  note held = well_behavedD(3) [OF ok call assms(3,2)]
  obtain w where "fd_live s1 (rl_fd r) w" using holds_live [OF held, of r] by auto
  with that call well_behavedD(1,2) [OF ok call] held show ?thesis by simp
qed

lemma poll_setup_ok:
  assumes "callbacks_ok rules C" and "holds s (kept @ rest)" and "subseq (kept @ rest) rules"
    and "length pollfds = length kept"
  shows "loop_ok (\<lambda>(pf, b) rules'. length pf = length rules') (kept @ rest) (poll_setup K C kept pollfds b rest s)"
  using assms(2-4)
proof (induction rest arbitrary: kept pollfds b s)
  case Nil
  then show ?case by (simp add: poll_setup.simps loop_ok_def)
next
  case (Cons r rest)
  note unfold = poll_setup.simps [of K C kept pollfds b "r # rest"]
  obtain w where "fd_live s (rl_fd r) w" using holds_live [OF Cons.prems(1), of r] by auto
  then obtain over where over: "rule_over r s = (Inr over, s)" using rule_over_live by blast
  show ?case
  proof (cases over)
    case True
    obtain res s1 s2 where call: "cb_cancel C (rl_cancel r) s = (res, [], s1)" "res \<noteq> Inl UndefinedBehaviour"
        "holds s1 (kept @ r # rest)" "FileDescriptor_destroy K (rl_fd r) s1 = (Inr (), s2)" "holds s2 (kept @ rest)"
      using cancel_ok [OF assms(1) Cons.prems(1,2)] by blast
    note IH = Cons.IH [OF call(5) subseq_order.trans [OF subseq_drop_middle Cons.prems(2)] Cons.prems(3)]
    show ?thesis
      using True over call(1-4) loop_ok_drop [OF IH] by (cases res) (simp_all add: unfold loop_ok_error)
  next
    case False
    obtain res s1 w where call: "cb_interest C (rl_interest r) s = (res, [], s1)" "res \<noteq> Inl UndefinedBehaviour"
        "holds s1 (kept @ r # rest)" "fd_live s1 (rl_fd r) w"
      using interest_ok [OF assms(1) Cons.prems(1,2)] by blast
    show ?thesis
    proof (cases res)
      case (Inl e)
      with False over call show ?thesis by (simp add: unfold loop_ok_error)
    next
      case (Inr interested)
      let ?p = "\<lparr>pfd_fd = fw_fd w, pfd_events = (if interested then direction_mask (rl_direction r) else 0), pfd_revents = 0\<rparr>"
      have "poll_setup K C kept pollfds b (r # rest) s
          = poll_setup K C (kept @ [r]) (pollfds @ [?p]) (b \<or> interested) rest s1"
        using False over call(1) Inr fd_num_live [OF call(4)] by (simp add: unfold)
      with Cons.IH [of s1 "kept @ [r]" "pollfds @ [?p]" "b \<or> interested"] call(3) Cons.prems(2,3) show ?thesis by simp
    qed
  qed
qed

lemma count_live:
  "fd_live s (rl_fd r) w \<Longrightarrow> \<exists>n. service_count r s = (Inr n, s)"
  by (auto simp: service_count_def read_count_def write_count_def io_bind_def io_return_def wrapper_live)

lemma serve_rule_ok:
  assumes ok: "callbacks_ok rules C" and "holds s all_rules" and "subseq all_rules rules" and "r \<in> set all_rules"
  shows "\<exists>res s'. serve_rule C r s = (res, [], s') \<and> res \<noteq> Inl UndefinedBehaviour \<and> holds s' all_rules"
proof -
  have cb: "well_behaved rules (cb_callback C (rl_callback r))" "well_behaved rules (cb_interest C (rl_interest r))"
    using ok by (simp_all add: callbacks_ok_def)
  obtain n where n: "service_count r s = (Inr n, s)" using holds_live [OF assms(2,4)] count_live by blast
  obtain res added s1 where call: "cb_callback C (rl_callback r) s = (res, added, s1)" by (cases "cb_callback C (rl_callback r) s")
  note D = well_behavedD(1,2) [OF cb(1) call] and held = well_behavedD(3) [OF cb(1) call assms(3,2)]
  obtain m where m: "service_count r s1 = (Inr m, s1)" using holds_live [OF held assms(4)] count_live by blast
  obtain res2 added2 s2 where call2: "cb_interest C (rl_interest r) s1 = (res2, added2, s2)"
    by (cases "cb_interest C (rl_interest r) s1")
  note D2 = well_behavedD(1,2) [OF cb(2) call2] and held2 = well_behavedD(3) [OF cb(2) call2 assms(3) held]
  show ?thesis
    using n call D held m call2 D2 held2
    by (cases res; cases res2) (auto simp: serve_rule_def)
qed

lemma poll_results_ok:
  assumes "callbacks_ok rules C" and "holds s (kept @ rest)" and "subseq (kept @ rest) rules"
    and "idx + length rest \<le> length pollfds"
  shows "loop_ok (\<lambda>_ _. True) (kept @ rest) (poll_results K C pollfds idx kept rest s)"
  using assms(2-4)
proof (induction rest arbitrary: idx kept s)
  case Nil
  then show ?case by (simp add: poll_results.simps loop_ok_def)
next
  case (Cons r rest)
  let ?p = "pollfds ! idx"
  let ?error = "pfd_revents ?p AND (POLLERR OR POLLNVAL) \<noteq> 0" and ?ready = "pfd_revents ?p AND pfd_events ?p \<noteq> 0"
  let ?hup = "pfd_revents ?p AND POLLHUP \<noteq> 0 \<and> pfd_events ?p \<noteq> 0 \<and> \<not> ?ready"
  have idx: "idx < length pollfds" "idx + 1 + length rest \<le> length pollfds" using Cons.prems(3) by simp_all
  note unfold = poll_results.simps [of K C pollfds idx kept "r # rest" s] Let_def
  have keep: "loop_ok (\<lambda>_ _. True) (kept @ r # rest) (poll_results K C pollfds (idx + 1) (kept @ [r]) rest s1)"
    if "holds s1 (kept @ r # rest)" for s1
    using that Cons.IH [of s1 "kept @ [r]" "idx + 1"] Cons.prems(2) idx(2) by simp
  consider (error) ?error | (hup) "\<not> ?error" ?hup | (ready) "\<not> ?error" "\<not> ?hup" ?ready | (idle) "\<not> ?error" "\<not> ?hup" "\<not> ?ready"
    by blast
  then show ?case
  proof cases
    case error
    with Cons.prems(1) idx(1) show ?thesis by (simp add: unfold loop_ok_error)
  next
    case hup
    obtain res s1 s2 where call: "cb_cancel C (rl_cancel r) s = (res, [], s1)" "res \<noteq> Inl UndefinedBehaviour"
        "holds s1 (kept @ r # rest)" "FileDescriptor_destroy K (rl_fd r) s1 = (Inr (), s2)" "holds s2 (kept @ rest)"
      using cancel_ok [OF assms(1) Cons.prems(1,2)] by blast
    note IH = Cons.IH [OF call(5) subseq_order.trans [OF subseq_drop_middle Cons.prems(2)] idx(2)]
    show ?thesis
      using hup call(1-4) idx(1) loop_ok_drop [OF IH] by (cases res) (simp_all add: unfold loop_ok_error)
  next
    case ready
    obtain res s1 where "serve_rule C r s = (res, [], s1)" "res \<noteq> Inl UndefinedBehaviour" "holds s1 (kept @ r # rest)"
      using serve_rule_ok [OF assms(1) Cons.prems(1,2), of r] by auto
    with ready idx(1) keep [of s1] show ?thesis by (cases res) (simp_all add: unfold loop_ok_error)
  next
    case idle
    with keep [OF Cons.prems(1)] idx(1) show ?thesis by (auto simp: unfold)
  qed
qed

text \<open>With no events returned nothing is called.\<close>

lemma poll_results_idle:
  assumes "\<forall>p \<in> set pollfds. pfd_revents p = 0" and "idx + length rest \<le> length pollfds"
  shows "poll_results K C pollfds idx kept rest s = Some (Inr (), kept @ rest, s)"
  using assms(2)
proof (induction rest arbitrary: idx kept)
  case (Cons r rest)
  have "pfd_revents (pollfds ! idx) = 0" using assms(1) Cons.prems by simp
  then show ?case
    using Cons.IH [of "idx + 1" "kept @ [r]"] Cons.prems by (simp add: poll_results.simps [of K C pollfds idx kept "r # rest"])
qed (simp add: poll_results.simps)

lemma set_revents_length [simp]: "length (set_revents pollfds revents) = length pollfds"
  by (simp add: set_revents_def)

section \<open>Which callbacks are called\<close>

text \<open>
  Calls observed through a log: every callback of a ready rule leaves its mark, while asking for
  interest, cancelling, giving up descriptors and polling leave none. None of the calls adds rules.
\<close>

definition logs_calls :: "'w kernel \<Rightarrow> 'w callbacks \<Rightarrow> ('w system \<Rightarrow> nat list) \<Rightarrow> bool" where
  "logs_calls K C log \<longleftrightarrow>
     (\<forall>i s res added s'. cb_callback C i s = (res, added, s') \<longrightarrow> added = [] \<and> log s' = log s @ [i])
     \<and> (\<forall>i s res added s'. cb_interest C i s = (res, added, s') \<longrightarrow> added = [] \<and> log s' = log s)
     \<and> (\<forall>i s res added s'. cb_cancel C i s = (res, added, s') \<longrightarrow> added = [] \<and> log s' = log s)
     \<and> (\<forall>d s res s'. FileDescriptor_destroy K d s = (res, s') \<longrightarrow> log s' = log s)
     \<and> (\<forall>pollfds t s ret errno revents w. k_poll K pollfds t (sy_world s) = (ret, errno, revents, w)
          \<longrightarrow> log (s\<lparr>sy_world := w\<rparr>) = log s)"

lemma logs_callsD:
  assumes "logs_calls K C log"
  shows "cb_callback C i s = (res, added, s') \<Longrightarrow> added = [] \<and> log s' = log s @ [i]"
    and "cb_interest C i s = (res', added, s') \<Longrightarrow> added = [] \<and> log s' = log s"
    and "cb_cancel C i s = (res, added, s') \<Longrightarrow> added = [] \<and> log s' = log s"
    and "FileDescriptor_destroy K d s = (res'', s') \<Longrightarrow> log s' = log s"
    and "k_poll K pollfds t (sy_world s) = (ret, errno, revents, w) \<Longrightarrow> log (s\<lparr>sy_world := w\<rparr>) = log s"
  using assms unfolding logs_calls_def by meson+

text \<open>Asking a descriptor for its flags, number or counters changes nothing.\<close>

lemma wrapper_same: "wrapper d s = (r, s') \<Longrightarrow> s' = s"
  by (simp add: wrapper_def split: if_splits)

lemma query_same:
  "rule_over r s = (x, s') \<Longrightarrow> s' = s" "fd_num d s = (y, s') \<Longrightarrow> s' = s" "service_count r s = (z, s') \<Longrightarrow> s' = s"
  by (auto simp: rule_over_def FileDescriptor_eof_def FileDescriptor_closed_def fd_num_def service_count_def read_count_def
      write_count_def io_bind_def io_return_def wrapper_def split: if_splits prod.splits sum.splits)

lemma poll_setup_log:
  assumes log: "logs_calls K C log" and "poll_setup K C kept pollfds b rest s = Some (Inr res, rules', s')"
  shows "log s' = log s"
  using assms(2)
proof (induction rest arbitrary: kept pollfds b s)
  case Nil
  then show ?case by (simp add: poll_setup.simps)
next
  case (Cons r rest)
  note D = logs_callsD [OF log]
  from Cons.prems show ?case
    by (subst (asm) poll_setup.simps)
      (auto split: prod.splits sum.splits if_splits dest!: D(2,3,4) query_same Cons.IH)
qed

text \<open>
  Descriptors keep their numbers while the loop asks its rules: no call changes the number of a
  wrapper that is there. Giving up a reference does not; of the function objects it is required.
\<close>

definition fd_number :: "'w system \<Rightarrow> FileDescriptor \<Rightarrow> int" where
  "fd_number s d = fw_fd (fst (sy_cells s ! d))"

definition same_fds :: "'w system \<Rightarrow> 'w system \<Rightarrow> bool" where
  "same_fds s s' \<longleftrightarrow> length (sy_cells s) \<le> length (sy_cells s')
     \<and> (\<forall>d < length (sy_cells s). fd_number s' d = fd_number s d)"

definition keeps_fds :: "'w callbacks \<Rightarrow> bool" where
  "keeps_fds C \<longleftrightarrow> (\<forall>i s. same_fds s (snd (snd (cb_interest C i s))) \<and> same_fds s (snd (snd (cb_cancel C i s))))"

lemma same_fds_refl [simp]: "same_fds s s"
  by (simp add: same_fds_def)

lemma same_fds_trans: "same_fds s s' \<Longrightarrow> same_fds s' s'' \<Longrightarrow> same_fds s s''"
  by (simp add: same_fds_def)

lemma keeps_fdsD:
  assumes "keeps_fds C"
  shows "cb_interest C i s = (res, added, s') \<Longrightarrow> same_fds s s'" and "cb_cancel C i s = (res', added, s') \<Longrightarrow> same_fds s s'"
  using assms unfolding keeps_fds_def by (metis snd_conv)+

lemma same_fds_update:
  assumes "sy_cells s' = (sy_cells s)[d := c]" and "fw_fd (fst c) = fd_number s d"
  shows "same_fds s s'"
  using assms by (cases "d < length (sy_cells s)") (auto simp: same_fds_def fd_number_def nth_list_update)

lemma FDWrapper_destroy_fds: "FDWrapper_destroy K d s = (res, s') \<Longrightarrow> same_fds s s'"
  by (auto simp: FDWrapper_destroy_def FDWrapper_close_def modify_wrapper_def io_catch_def io_bind_def io_return_def
      io_throw_def wrapper_def syscall_def cerr_def fd_number_def same_fds_def nth_list_update
      split: prod.splits sum.splits if_splits)

lemma FileDescriptor_destroy_fds:
  assumes "FileDescriptor_destroy K d s = (res, s')"
  shows "same_fds s s'"
proof -
  obtain x s1 where inner: "(if snd (sy_cells s ! d) = 1 then FDWrapper_destroy K d else io_return ()) s = (x, s1)"
    by fastforce
  then have "same_fds s s1" by (auto simp: io_return_def dest: FDWrapper_destroy_fds split: if_splits)
  moreover have "same_fds s1 (s1\<lparr>sy_cells := (sy_cells s1)[d := (fst (sy_cells s1 ! d), n)]\<rparr>)" for n
    by (rule same_fds_update [of _ _ d "(fst (sy_cells s1 ! d), n)"]) (simp_all add: fd_number_def)
  ultimately show ?thesis
    using assms inner
    by (auto simp: FileDescriptor_destroy_def io_bind_def wrapper_def dest: same_fds_trans split: prod.splits sum.splits if_splits)
qed

text \<open>
  What is polled for a rule: its descriptor, for the rule's direction if the rule's interest function
  said yes when it was asked, and for errors alone if it said no.
\<close>

definition polls_for :: "'w callbacks \<Rightarrow> 'w system \<Rightarrow> pollfd \<Rightarrow> Rule \<Rightarrow> bool" where
  "polls_for C s p r \<longleftrightarrow> pfd_fd p = fd_number s (rl_fd r) \<and> pfd_revents p = 0
     \<and> (\<exists>t interested t'. same_fds s t \<and> cb_interest C (rl_interest r) t = (Inr interested, [], t')
          \<and> pfd_events p = (if interested then direction_mask (rl_direction r) else 0))"

lemma fd_num_number:
  "fd_num d s = (Inr n, s') \<Longrightarrow> n = fd_number s d"
  by (auto simp: fd_num_def fd_number_def io_bind_def io_return_def wrapper_def split: if_splits)

text \<open>The first loop polls for the rules it keeps, position by position.\<close>

lemma poll_setup_polls_for:
  assumes log: "logs_calls K C log" and keeps: "keeps_fds C"
    and "poll_setup K C kept pollfds b rest s = Some (Inr (pollfds', b'), rules', s')"
    and "same_fds s0 s" and "\<forall>r \<in> set rest. rl_fd r < length (sy_cells s0)"
  shows "\<exists>pf rs. pollfds' = pollfds @ pf \<and> rules' = kept @ rs \<and> subseq rs rest \<and> list_all2 (polls_for C s0) pf rs"
  using assms(3-5)
proof (induction rest arbitrary: kept pollfds b s)
  case Nil
  then show ?case by (simp add: poll_setup.simps)
next
  case (Cons r rest)
  obtain over where over: "rule_over r s = (Inr over, s)"
    using Cons.prems(1) query_same(1) by (subst (asm) poll_setup.simps) (fastforce split: prod.splits sum.splits)
  note unfold = Cons.prems(1) [unfolded poll_setup.simps [of K C kept pollfds b "r # rest"]] over
  show ?case
  proof (cases over)
    case True
    obtain res s1 where call: "cb_cancel C (rl_cancel r) s = (res, [], s1)"
      using logs_callsD(3) [OF log] by (metis prod_cases3)
    obtain res2 s2 where call2: "FileDescriptor_destroy K (rl_fd r) s1 = (res2, s2)" by fastforce
    have rec: "poll_setup K C kept pollfds b rest s2 = Some (Inr (pollfds', b'), rules', s')"
      using True unfold call call2 by (cases res; cases res2) simp_all
    have "same_fds s0 s2"
      using Cons.prems(2) keeps_fdsD(2) [OF keeps call] FileDescriptor_destroy_fds [OF call2] same_fds_trans by blast
    from Cons.IH [OF rec this] Cons.prems(3) show ?thesis by auto
  next
    case False
    obtain res s1 where asked: "cb_interest C (rl_interest r) s = (res, [], s1)"
      using logs_callsD(2) [OF log] by (metis prod_cases3)
    obtain res2 s2 where num: "fd_num (rl_fd r) s1 = (res2, s2)" by fastforce
    obtain interested n where call: "cb_interest C (rl_interest r) s = (Inr interested, [], s1)" "fd_num (rl_fd r) s1 = (Inr n, s2)"
        and rec: "poll_setup K C (kept @ [r]) (pollfds @ [\<lparr>pfd_fd = n, pfd_events = (if interested then direction_mask (rl_direction r) else 0),
            pfd_revents = 0\<rparr>]) (b \<or> interested) rest s2 = Some (Inr (pollfds', b'), rules', s')"
      using False unfold asked num by (cases res; cases res2) simp_all
    let ?p = "\<lparr>pfd_fd = n, pfd_events = (if interested then direction_mask (rl_direction r) else 0), pfd_revents = 0\<rparr>"
    have s1: "s2 = s1" "same_fds s0 s1"
      using query_same(2) [OF call(2)] Cons.prems(2) keeps_fdsD(1) [OF keeps call(1)] same_fds_trans by blast+
    have "n = fd_number s0 (rl_fd r)"
      using fd_num_number [OF call(2)] s1(2) Cons.prems(3) by (simp add: same_fds_def)
    with call(1) Cons.prems(2) have "polls_for C s0 ?p r"
      unfolding polls_for_def by (intro conjI exI [of _ s] exI [of _ interested] exI [of _ s1]) simp_all
    moreover obtain pf rs where "pollfds' = (pollfds @ [?p]) @ pf" "rules' = (kept @ [r]) @ rs" "subseq rs rest" "list_all2 (polls_for C s0) pf rs"
      using Cons.IH [OF rec] s1 Cons.prems(3) by auto
    ultimately show ?thesis by (intro exI [of _ "?p # pf"] exI [of _ "r # rs"]) simp
  qed
qed

definition ready_calls :: "pollfd list \<Rightarrow> Rule list \<Rightarrow> nat list" where
  "ready_calls pollfds rules =
     map (\<lambda>(p, r). rl_callback r) (filter (\<lambda>(p, r). pfd_revents p AND pfd_events p \<noteq> 0) (zip pollfds rules))"

lemma serve_rule_log:
  assumes log: "logs_calls K C log" and "serve_rule C r s = (Inr u, added, s')"
  shows "added = [] \<and> log s' = log s @ [rl_callback r]"
proof -
  note D = logs_callsD [OF log]
  from assms(2) show ?thesis
    by (auto simp: serve_rule_def split: prod.splits sum.splits if_splits dest!: D(1,2) query_same(3))
qed

lemma poll_results_log:
  assumes log: "logs_calls K C log" and "poll_results K C pollfds idx kept rest s = Some (Inr (), rules', s')"
  shows "log s' = log s @ ready_calls (drop idx pollfds) rest"
  using assms(2)
proof (induction rest arbitrary: idx kept s)
  case Nil
  then show ?case by (simp add: poll_results.simps ready_calls_def)
next
  case (Cons r rest)
  note D = logs_callsD [OF log]
  let ?p = "pollfds ! idx"
  note prem = Cons.prems [unfolded poll_results.simps [of K C pollfds idx kept "r # rest"]]
  have idx: "idx < length pollfds" using prem by (auto split: if_splits)
  have calls: "ready_calls (drop idx pollfds) (r # rest) =
      (if pfd_revents ?p AND pfd_events ?p \<noteq> 0 then [rl_callback r] else []) @ ready_calls (drop (idx + 1) pollfds) rest"
    by (simp add: ready_calls_def flip: Cons_nth_drop_Suc [OF idx])
  show ?case
    unfolding calls using prem idx
    by (auto simp: Let_def split: prod.splits sum.splits if_splits dest!: D(3,4) serve_rule_log [OF log] Cons.IH)
qed

section \<open>Properties\<close>

text \<open>
  C29. The event loop is safe for callbacks that add no rules: \<open>wait_next_event\<close> comes to an end without
  undefined behaviour (the index into the poll results never runs out, no descriptor is used after
  its last reference is gone), it only removes rules and keeps the order of the others, and every
  rule that stays still owns its reference.
\<close>

theorem wait_next_event_safe:
  assumes "callbacks_ok rules C" and "holds s rules"
  shows "\<exists>res rules' s'. wait_next_event K C rules timeout_ms s = Some (res, rules', s')
    \<and> res \<noteq> Inl UndefinedBehaviour \<and> subseq rules' rules \<and> holds s' rules'"
proof -
  obtain res rules1 s1 where begun: "poll_setup K C [] [] False rules s = Some (res, rules1, s1)"
      "res \<noteq> Inl UndefinedBehaviour" "subseq rules1 rules" "holds s1 rules1"
      "\<forall>pf b. res = Inr (pf, b) \<longrightarrow> length pf = length rules1"
    using poll_setup_ok [of rules C s "[]" rules "[]" K False] assms by (auto simp: loop_ok_def)
  show ?thesis
  proof (cases res)
    case (Inl e)
    with begun show ?thesis by (simp add: wait_next_event_def)
  next
    case (Inr x)
    obtain pf b where x: "x = (pf, b)" by fastforce
    then have len: "length pf = length rules1" using begun(5) Inr by blast
    obtain ret errno revents w where poll: "k_poll K pf timeout_ms (sy_world s1) = (ret, errno, revents, w)"
      by (cases "k_poll K pf timeout_ms (sy_world s1)")
    let ?s = "s1\<lparr>sy_world := w\<rparr>"
    have held: "holds ?s rules1" using begun(4) by simp
    obtain res2 rules2 s2 where disp: "poll_results K C (set_revents pf revents) 0 [] rules1 ?s = Some (res2, rules2, s2)"
        "res2 \<noteq> Inl UndefinedBehaviour" "subseq rules2 rules1" "holds s2 rules2"
      using poll_results_ok [of rules C ?s "[]" rules1 0 "set_revents pf revents" K] assms(1) held begun(3) len
      by (auto simp: loop_ok_def)
    have sub: "subseq rules2 rules" using disp(3) begun(3) by (rule subseq_order.trans)
    have eq: "wait_next_event K C rules timeout_ms s =
        (if \<not> b then Some (Inr Exit, rules1, s1)
         else if SystemCall ''poll'' ret errno 0 = Inr 0 then Some (Inr Timeout, rules1, ?s)
         else if SystemCall ''poll'' ret errno 0 = Inl (UnixError ''poll'' EINTR) then Some (Inr Exit, rules1, ?s)
         else case res2 of Inl e \<Rightarrow> Some (Inl e, rules2, s2) | Inr _ \<Rightarrow> Some (Inr Success, rules2, s2))"
      using begun(1) Inr x poll disp(1) by (simp add: wait_next_event_def Let_def split: sum.split)
    show ?thesis unfolding eq using begun(3,4) held sub disp(2,4) by (cases res2) auto
  qed
qed

text \<open>A loop with one rule on a descriptor, whose function objects do nothing but report interest.\<close>

definition demo_rule :: Rule where
  "demo_rule = \<lparr>rl_fd = 0, rl_direction = In, rl_callback = 0, rl_interest = 0, rl_cancel = 0\<rparr>"

definition demo_callbacks :: "Rule list \<Rightarrow> 'w callbacks" where
  "demo_callbacks added =
     \<lparr>cb_callback = (\<lambda>i s. (Inr (), added, fd_update 0 ((fst (sy_cells s ! 0))\<lparr>fw_read_count := 1\<rparr>) s)),
      cb_interest = (\<lambda>i s. (Inr True, [], s)), cb_cancel = (\<lambda>i s. (Inr (), [], s))\<rparr>"

lemma demo_callbacks_ok: "callbacks_ok rules (demo_callbacks [])"
proof -
  have "refs (fd_update 0 w s) d = refs s d" for w and s :: "'a system" and d
    by (cases "d = 0") (simp_all add: refs_def fd_update_def)
  then show ?thesis by (simp add: callbacks_ok_def well_behaved_def demo_callbacks_def holds_def)
qed

lemma demo_holds: "holds (demo_system input) [demo_rule]"
  by (simp add: holds_def refs_def demo_system_def demo_rule_def)

theorem wait_next_event_safe_witness:
  "\<exists>res rules' s'. wait_next_event demo_kernel (demo_callbacks []) [demo_rule] 100 (demo_system []) = Some (res, rules', s')
    \<and> res \<noteq> Inl UndefinedBehaviour \<and> subseq rules' [demo_rule] \<and> holds s' rules'"
  by (rule wait_next_event_safe [OF demo_callbacks_ok demo_holds])

text \<open>A kernel whose calls leave the world alone, and whose \<open>poll\<close> finds every descriptor ready.\<close>

definition ready_kernel :: "'w kernel" where
  "ready_kernel =
     \<lparr>k_close = (\<lambda>fd w. (0, 0, w)), k_read = (\<lambda>fd n w. (0, 0, [], w)), k_writev = (\<lambda>fd iov w. (0, 0, w)),
      k_fcntl_getfl = (\<lambda>fd w. (0, 0, w)), k_fcntl_setfl = (\<lambda>fd f w. (0, 0, w)),
      k_poll = (\<lambda>p t w. (1, 0, map pfd_events p, w)),
      k_socket = (\<lambda>a b w. (3, 0, w)), k_getsockopt = (\<lambda>fd l opt w. (0, 0, (0, 4), w)), k_setsockopt = (\<lambda>fd l opt v w. (0, 0, w)),
      k_getsockname = (\<lambda>fd n w. (0, 0, ([], 0), w)), k_getpeername = (\<lambda>fd n w. (0, 0, ([], 0), w)),
      k_bind = (\<lambda>fd a w. (0, 0, w)), k_connect = (\<lambda>fd a w. (0, 0, w)), k_shutdown = (\<lambda>fd how w. (0, 0, w)),
      k_listen = (\<lambda>fd n w. (0, 0, w)), k_accept = (\<lambda>fd w. (4, 0, w)),
      k_recvfrom = (\<lambda>fd n w. (0, 0, ([], [], 0), w)), k_sendmsg = (\<lambda>fd a iov w. (0, 0, w)),
      k_open = (\<lambda>path w. (5, 0, w)), k_ioctl_tunsetiff = (\<lambda>fd f name w. (0, 0, w)),
      k_getaddrinfo = (\<lambda>node service hints w. (0, [], w)), k_getnameinfo = (\<lambda>a w. (0, ([], []), w)),
      k_strerror = (\<lambda>e. ''error''), k_gai_strerror = (\<lambda>e. ''resolver error'')\<rparr>"

lemma ready_poll: "k_poll ready_kernel p t w = (1, 0, map pfd_events p, w)"
  by (simp add: ready_kernel_def)

text \<open>Callbacks that read their descriptor and note their number in the world.\<close>

definition noting_callbacks :: "nat list callbacks" where
  "noting_callbacks =
     \<lparr>cb_callback = (\<lambda>i s. (Inr (), [], (fd_update 0 ((fst (sy_cells s ! 0))\<lparr>fw_read_count := 1\<rparr>) s)\<lparr>sy_world := sy_world s @ [i]\<rparr>)),
      cb_interest = (\<lambda>i s. (Inr True, [], s)), cb_cancel = (\<lambda>i s. (Inr (), [], s))\<rparr>"

lemma noting_logs: "logs_calls ready_kernel noting_callbacks sy_world"
proof -
  have close: "sy_world (snd (FDWrapper_destroy ready_kernel d s)) = sy_world s" for d and s :: "nat list system"
    by (simp add: FDWrapper_destroy_def io_catch_def io_bind_def wrapper_def io_return_def FDWrapper_close_def syscall_def
        ready_kernel_def SystemCall_def modify_wrapper_def io_throw_def)
  have "sy_world (snd (FileDescriptor_destroy ready_kernel d s)) = sy_world s" for d and s :: "nat list system"
    using close [of d s] by (auto simp: FileDescriptor_destroy_def io_bind_def wrapper_def io_return_def split: prod.splits sum.splits)
  then have "FileDescriptor_destroy ready_kernel d s = (res, s') \<Longrightarrow> sy_world s' = sy_world s" for d res s' and s :: "nat list system"
    by (metis snd_conv)
  then show ?thesis by (auto simp: logs_calls_def noting_callbacks_def ready_poll)
qed

text \<open>
  C30. A wait that reports success has polled the rules it kept, position by position: each pollfd
  carries the descriptor number of its rule and asks for the rule's direction if the rule's interest
  function answered yes, and for nothing otherwise. The wait has then called the callbacks of exactly
  those rules whose descriptor was polled ready for what the rule asked for, each once and in the
  order of the rules. This is for function objects that add no rules and leave the numbers of
  descriptors alone.
\<close>

theorem wait_next_event_serves:
  assumes log: "logs_calls K C log" and keeps: "keeps_fds C" and held: "holds s rules"
    and wait: "wait_next_event K C rules timeout_ms s = Some (Inr Success, rules', s')"
  shows "\<exists>pollfds rules1 s1 ret errno revents w.
    poll_setup K C [] [] False rules s = Some (Inr (pollfds, True), rules1, s1)
    \<and> subseq rules1 rules \<and> list_all2 (polls_for C s) pollfds rules1
    \<and> k_poll K pollfds timeout_ms (sy_world s1) = (ret, errno, revents, w)
    \<and> log s' = log s @ ready_calls (set_revents pollfds revents) rules1"
proof -
  from wait obtain pollfds rules1 s1 where begun: "poll_setup K C [] [] False rules s = Some (Inr (pollfds, True), rules1, s1)"
    by (auto simp: wait_next_event_def split: option.splits prod.splits sum.splits if_splits)
  have "\<forall>r \<in> set rules. rl_fd r < length (sy_cells s)" using holds_live [OF held] by (auto simp: fd_live_def)
  then have polled: "subseq rules1 rules" "list_all2 (polls_for C s) pollfds rules1"
    using poll_setup_polls_for [OF log keeps begun same_fds_refl] by auto
  obtain ret errno revents w where poll: "k_poll K pollfds timeout_ms (sy_world s1) = (ret, errno, revents, w)"
    by (cases "k_poll K pollfds timeout_ms (sy_world s1)")
  have "poll_results K C (set_revents pollfds revents) 0 [] rules1 (s1\<lparr>sy_world := w\<rparr>) = Some (Inr (), rules', s')"
    using wait begun poll
    by (auto simp: wait_next_event_def Let_def split: option.splits sum.splits if_splits)
  from poll_results_log [OF log this] poll_setup_log [OF log begun] logs_callsD(5) [OF log poll] begun poll polled
  show ?thesis by (intro exI [of _ pollfds] exI [of _ rules1] exI [of _ s1] exI [of _ ret] exI [of _ errno]
      exI [of _ revents] exI [of _ w]) simp
qed

text \<open>Two rules, the first on a descriptor at its end of file, the second on one that is ready.\<close>

definition ended_rule :: Rule where
  "ended_rule = \<lparr>rl_fd = 1, rl_direction = In, rl_callback = 8, rl_interest = 0, rl_cancel = 0\<rparr>"

definition noting_rule :: Rule where
  "noting_rule = \<lparr>rl_fd = 0, rl_direction = In, rl_callback = 7, rl_interest = 0, rl_cancel = 0\<rparr>"

definition noting_system :: "nat list system" where
  "noting_system = \<lparr>sy_cells = [(demo_wrapper, 1), (demo_wrapper\<lparr>fw_fd := 4, fw_eof := True\<rparr>, 1)],
     sy_cout = [], sy_cerr = [], sy_world = []\<rparr>"

definition ended_system :: "nat list system" where
  "ended_system = \<lparr>sy_cells = [(demo_wrapper, 1), (demo_wrapper\<lparr>fw_fd := 4, fw_eof := True, fw_closed := True\<rparr>, 0)],
     sy_cout = [], sy_cerr = [], sy_world = []\<rparr>"

lemma noting_keeps: "keeps_fds noting_callbacks"
  by (simp add: keeps_fds_def noting_callbacks_def)

lemma noting_holds: "holds noting_system [ended_rule, noting_rule]"
  by (auto simp: holds_def refs_def noting_system_def ended_rule_def noting_rule_def less_Suc_eq)

lemma noting_setup:
  "poll_setup ready_kernel noting_callbacks [] [] False [ended_rule, noting_rule] noting_system
     = Some (Inr ([\<lparr>pfd_fd = 3, pfd_events = POLLIN, pfd_revents = 0\<rparr>], True), [noting_rule], ended_system)"
proof -
  note io = io_bind_def io_return_def wrapper_def demo_wrapper_def
  have over: "rule_over ended_rule noting_system = (Inr True, noting_system)"
      "rule_over noting_rule ended_system = (Inr False, ended_system)"
    by (simp_all add: rule_over_def io FileDescriptor_eof_def FileDescriptor_closed_def ended_rule_def noting_rule_def
        noting_system_def ended_system_def)
  have gone: "FileDescriptor_destroy ready_kernel 1 noting_system = (Inr (), ended_system)"
    by (simp add: FileDescriptor_destroy_def FDWrapper_destroy_def FDWrapper_close_def io_catch_def modify_wrapper_def io
        syscall_def SystemCall_def ready_kernel_def noting_system_def ended_system_def)
  have num: "fd_num 0 ended_system = (Inr 3, ended_system)"
    by (simp add: fd_num_def io ended_system_def)
  have rule: "rl_fd ended_rule = 1" "rl_fd noting_rule = 0" "rl_direction noting_rule = In"
    by (simp_all add: ended_rule_def noting_rule_def)
  show ?thesis by (simp add: poll_setup.simps over gone [unfolded One_nat_def] gone num rule noting_callbacks_def)
qed

theorem wait_next_event_serves_witness:
  "\<exists>rules' s'. wait_next_event ready_kernel noting_callbacks [ended_rule, noting_rule] 100 noting_system
      = Some (Inr Success, rules', s') \<and> sy_world s' = [7]"
proof -
  have "serve_rule noting_callbacks noting_rule ended_system =
      (Inr (), [], (fd_update 0 (demo_wrapper\<lparr>fw_read_count := 1\<rparr>) ended_system)\<lparr>sy_world := [7]\<rparr>)"
    by (simp add: serve_rule_def service_count_def noting_callbacks_def read_count_def io_bind_def io_return_def
        wrapper_def noting_rule_def ended_system_def demo_wrapper_def fd_update_def)
  then obtain s' where wait: "wait_next_event ready_kernel noting_callbacks [ended_rule, noting_rule] 100 noting_system
      = Some (Inr Success, [noting_rule], s')"
    by (simp add: wait_next_event_def noting_setup ready_poll SystemCall_def set_revents_def poll_results.simps
        POLLIN_def POLLERR_def POLLNVAL_def POLLHUP_def)
  have "sy_world noting_system = []" "rl_callback noting_rule = 7" by (simp_all add: noting_system_def noting_rule_def)
  with wait_next_event_serves [OF noting_logs noting_keeps noting_holds wait] noting_setup wait show ?thesis
    by (auto simp: ready_poll ready_calls_def set_revents_def POLLIN_def)
qed

text \<open>
  A failing \<open>poll\<close> goes unnoticed: if it fails with an error other than \<open>EINTR\<close>, leaving the returned
  events at zero, \<open>wait_next_event\<close> reports success although no rule was triggered, where its
  description promises an exception.
\<close>

lemma poll_error_swallowed:
  assumes "callbacks_ok rules C" and "holds s rules"
    and "poll_setup K C [] [] False rules s = Some (Inr (pollfds, True), rules1, s1)"
    and "k_poll K pollfds timeout_ms (sy_world s1) = (-1, errno, revents, w)" and "errno \<noteq> 0" and "errno \<noteq> EINTR"
    and "\<forall>e \<in> set revents. e = 0"
  shows "wait_next_event K C rules timeout_ms s = Some (Inr Success, rules1, s1\<lparr>sy_world := w\<rparr>)"
proof -
  have len: "length pollfds = length rules1"
    using poll_setup_ok [of rules C s "[]" rules "[]" K False] assms(1-3) by (auto simp: loop_ok_def)
  have "\<forall>p \<in> set (set_revents pollfds revents). pfd_revents p = 0"
    using assms(7) by (auto simp: set_revents_def)
  then have "poll_results K C (set_revents pollfds revents) 0 [] rules1 (s1\<lparr>sy_world := w\<rparr>)
      = Some (Inr (), rules1, s1\<lparr>sy_world := w\<rparr>)"
    using poll_results_idle [of "set_revents pollfds revents" 0 rules1 K C "[]"] len by simp
  moreover have "SystemCall ''poll'' (-1) errno 0 = Inl (UnixError ''poll'' errno)"
    by (rule SystemCall_error) (use assms(5) in simp_all)
  ultimately show ?thesis using assms(3,4,6) by (simp add: wait_next_event_def)
qed

lemma demo_setup:
  "poll_setup K (demo_callbacks added) [] [] False [demo_rule] (demo_system input)
     = Some (Inr ([\<lparr>pfd_fd = 3, pfd_events = POLLIN, pfd_revents = 0\<rparr>], True), [demo_rule], demo_system input)"
proof -
  note live = demo_live [of input]
  have "rule_over demo_rule (demo_system input) = (Inr False, demo_system input)"
    using wrapper_live [OF live]
    by (simp add: rule_over_def demo_rule_def io_bind_def io_return_def FileDescriptor_eof_def FileDescriptor_closed_def
        demo_wrapper_def)
  moreover have "fd_num 0 (demo_system input) = (Inr 3, demo_system input)"
    using fd_num_live [OF live] by (simp add: demo_wrapper_def)
  ultimately show ?thesis
    by (simp add: poll_setup.simps demo_rule_def demo_callbacks_def)
qed

lemma poll_error_swallowed_example:
  "wait_next_event demo_kernel (demo_callbacks []) [demo_rule] 100 (demo_system [])
     = Some (Inr Success, [demo_rule], (demo_system [])\<lparr>sy_world := sy_world (demo_system [])\<rparr>)"
  by (rule poll_error_swallowed [OF demo_callbacks_ok demo_holds demo_setup, where timeout_ms = 100 and errno = 22 and revents = "[0]"])
    (simp_all add: demo_kernel_def EINTR_def)

section \<open>Adding rules from a callback\<close>

text \<open>
  For arbitrary function objects: the first loop leaves one pollfd per rule, and the second loop
  returns in order only if the rules it still met were no more than the pollfds it had left.
\<close>

lemma poll_setup_length_aux:
  assumes "poll_setup K C kept pollfds b rest s = Some y"
  shows "length pollfds = length kept \<longrightarrow> (\<forall>pf b'. fst y = Inr (pf, b') \<longrightarrow> length pf = length (fst (snd y)))"
  using assms
proof (induction rule: poll_setup.raw_induct [rotated 1, consumes 1])
  case (1 rec K C kept pollfds b rest s y)
  note step = 1(2)
  show ?case
  proof (cases rest)
    case Nil
    with step show ?thesis by auto
  next
    case (Cons r rest')
    obtain res s1 where over: "rule_over r s = (res, s1)" by (cases "rule_over r s")
    obtain res1 added1 s2 where cancel: "cb_cancel C (rl_cancel r) s1 = (res1, added1, s2)" by (cases "cb_cancel C (rl_cancel r) s1")
    obtain res2 s3 where destroy: "FileDescriptor_destroy K (rl_fd r) s2 = (res2, s3)" by (cases "FileDescriptor_destroy K (rl_fd r) s2")
    obtain res3 added3 s4 where interest: "cb_interest C (rl_interest r) s1 = (res3, added3, s4)" by (cases "cb_interest C (rl_interest r) s1")
    obtain res4 s5 where num: "fd_num (rl_fd r) s4 = (res4, s5)" by (cases "fd_num (rl_fd r) s4")
    consider (fails) e rules' s' where "y = (Inl e, rules', s')"
      | (erased) "rec K C kept pollfds b (rest' @ added1) s3 = Some y"
      | (kept) p b' where "rec K C (kept @ [r]) (pollfds @ [p]) b' (rest' @ added3) s5 = Some y"
      using step Cons over cancel destroy interest num
      by (cases res; cases res1; cases res2; cases res3; cases res4) (auto split: if_splits)
    then show ?thesis
    proof cases
      case erased
      then show ?thesis by (rule 1(1))
    next
      case kept
      from 1(1) [OF this] show ?thesis by simp
    qed simp
  qed
qed

lemma poll_setup_length:
  assumes "poll_setup K C kept pollfds b rest s = Some (Inr (pollfds', b'), rules', s')" and "length pollfds = length kept"
  shows "length pollfds' = length rules'"
  using poll_setup_length_aux [OF assms(1)] assms(2) by simp

lemma poll_results_length_aux:
  assumes "poll_results K C pollfds idx kept rest s = Some y"
  shows "fst y = Inr () \<longrightarrow> idx \<le> length pollfds \<longrightarrow> idx + length rest \<le> length pollfds"
  using assms
proof (induction rule: poll_results.raw_induct [rotated 1, consumes 1])
  case (1 rec K C pollfds idx kept rest s y)
  note step = 1(2)
  show ?case
  proof (cases rest)
    case (Cons r rest')
    obtain res1 added1 s1 where cancel: "cb_cancel C (rl_cancel r) s = (res1, added1, s1)" by (cases "cb_cancel C (rl_cancel r) s")
    obtain res2 s2 where destroy: "FileDescriptor_destroy K (rl_fd r) s1 = (res2, s2)" by (cases "FileDescriptor_destroy K (rl_fd r) s1")
    obtain res3 added3 s3 where serve: "serve_rule C r s = (res3, added3, s3)" by (cases "serve_rule C r s")
    consider (fails) e rules' s' where "y = (Inl e, rules', s')"
      | (goes_on) kept' added s' where "idx < length pollfds" "rec K C pollfds (idx + 1) kept' (rest' @ added) s' = Some y"
      | (idle) kept' s' where "idx < length pollfds" "rec K C pollfds (idx + 1) kept' rest' s' = Some y"
    proof (cases "idx < length pollfds")
      case True
      show thesis
        using step Cons cancel destroy serve True that
        by (cases res1; cases res2; cases res3) (auto simp: Let_def split: if_splits)
    qed (use step Cons in auto)
    then show ?thesis
    proof cases
      case goes_on
      from 1(1) [OF goes_on(2)] goes_on(1) Cons show ?thesis by auto
    next
      case idle
      from 1(1) [OF idle(2)] idle(1) Cons show ?thesis by simp
    qed simp
  qed simp
qed

lemma poll_results_length:
  assumes "poll_results K C pollfds idx kept rest s = Some (Inr (), rules', s')" and "idx \<le> length pollfds"
  shows "idx + length rest \<le> length pollfds"
  using poll_results_length_aux [OF assms(1)] assms(2) by simp

lemma poll_results_ends: "\<exists>y. poll_results K C pollfds idx kept rest s = Some y"
proof (induction "length pollfds - idx" arbitrary: idx kept rest s rule: less_induct)
  case less
  have IH: "\<exists>y. poll_results K C pollfds (idx + 1) kept' rest' s' = Some y" if "idx < length pollfds" for kept' rest' s'
    using less [of "idx + 1"] that by simp
  show ?case
    by (subst poll_results.simps) (use IH in \<open>auto simp: Let_def split: list.splits prod.splits sum.splits\<close>)
qed

lemma serve_rule_adds:
  assumes "serve_rule C r s = (Inr u, added, s')" and "\<forall>t. fst (snd (cb_callback C (rl_callback r) t)) \<noteq> []"
  shows "added \<noteq> []"
proof -
  obtain n s1 where "service_count r s = (Inr n, s1)"
    using assms(1) by (auto simp: serve_rule_def split: prod.splits sum.splits)
  moreover obtain res added1 s2 where "cb_callback C (rl_callback r) s1 = (res, added1, s2)"
    by (cases "cb_callback C (rl_callback r) s1")
  moreover from this assms(2) have "added1 \<noteq> []" by (metis fst_conv snd_conv)
  ultimately show ?thesis using assms(1) by (auto simp: serve_rule_def split: prod.splits sum.splits if_splits)
qed

lemma poll_results_step:
  assumes "poll_results K C pollfds idx kept (r # rest) s = Some (Inr (), rules', s')" and "idx < length pollfds"
  shows "\<exists>added kept' s1. poll_results K C pollfds (idx + 1) kept' (rest @ added) s1 = Some (Inr (), rules', s')
    \<and> (pfd_revents (pollfds ! idx) AND pfd_events (pollfds ! idx) \<noteq> 0 \<longrightarrow> serve_rule C r s = (Inr (), added, s1))"
proof -
  let ?p = "pollfds ! idx"
  note step = assms(1) [unfolded poll_results.simps [of K C pollfds idx kept "r # rest"]] assms(2)
  consider (ready) "pfd_revents ?p AND pfd_events ?p \<noteq> 0"
    | (hup) "pfd_revents ?p AND pfd_events ?p = 0" "pfd_revents ?p AND POLLHUP \<noteq> 0" "pfd_events ?p \<noteq> 0"
    | (idle) "pfd_revents ?p AND pfd_events ?p = 0" "\<not> (pfd_revents ?p AND POLLHUP \<noteq> 0 \<and> pfd_events ?p \<noteq> 0)"
    by blast
  then show ?thesis
  proof cases
    case ready
    obtain res added s1 where "serve_rule C r s = (res, added, s1)" by (cases "serve_rule C r s")
    with ready step show ?thesis
      by (cases res; intro exI [of _ added] exI [of _ "kept @ [r]"] exI [of _ s1]) (auto simp: Let_def split: if_splits)
  next
    case hup
    obtain res added s1 where call: "cb_cancel C (rl_cancel r) s = (res, added, s1)" by (cases "cb_cancel C (rl_cancel r) s")
    obtain res2 s2 where "FileDescriptor_destroy K (rl_fd r) s1 = (res2, s2)" by (cases "FileDescriptor_destroy K (rl_fd r) s1")
    with hup step call show ?thesis
      by (cases res; cases res2; intro exI [of _ added] exI [of _ kept] exI [of _ s2]) (auto simp: Let_def split: if_splits)
  next
    case idle
    with step show ?thesis
      by (intro exI [of _ "[]"] exI [of _ "kept @ [r]"] exI [of _ s]) (auto simp: Let_def split: if_splits)
  qed
qed

lemma poll_results_adds:
  assumes "poll_results K C pollfds idx kept rest s = Some (Inr (), rules', s')" and "idx + length rest = length pollfds"
    and "j < length rest" and "pfd_revents (pollfds ! (idx + j)) AND pfd_events (pollfds ! (idx + j)) \<noteq> 0"
    and "\<forall>t. fst (snd (cb_callback C (rl_callback (rest ! j)) t)) \<noteq> []"
  shows False
  using assms
proof (induction rest arbitrary: idx kept s j)
  case (Cons r rest)
  let ?p = "pollfds ! idx"
  have idx: "idx < length pollfds" using Cons.prems(2) by simp
  obtain added kept' s1 where rec: "poll_results K C pollfds (idx + 1) kept' (rest @ added) s1 = Some (Inr (), rules', s')"
      and served: "pfd_revents ?p AND pfd_events ?p \<noteq> 0 \<Longrightarrow> serve_rule C r s = (Inr (), added, s1)"
    using poll_results_step [OF Cons.prems(1) idx] by blast
  have "added = []" using poll_results_length [OF rec] Cons.prems(2) by (cases added) auto
  moreover have "added \<noteq> []" if "j = 0"
    using served serve_rule_adds [of C r s "()" added s1] Cons.prems(4,5) that by simp
  ultimately show False
    using Cons.IH [of "idx + 1" kept' s1 "j - 1"] rec Cons.prems(2-5) by (cases j) auto
qed simp

text \<open>Rules whose returned events are empty are passed over.\<close>

lemma poll_results_skip:
  assumes "\<forall>j < length before. pfd_revents (pollfds ! (idx + j)) = 0" and "idx + length before \<le> length pollfds"
  shows "poll_results K C pollfds idx kept (before @ rest) s
    = poll_results K C pollfds (idx + length before) (kept @ before) rest s"
  using assms
proof (induction before arbitrary: idx kept)
  case (Cons r before)
  have "pfd_revents (pollfds ! idx) = 0" using Cons.prems(1) by force
  moreover have "\<forall>j < length before. pfd_revents (pollfds ! (idx + 1 + j)) = 0" using Cons.prems(1) by force
  ultimately show ?case
    using Cons.IH [of "idx + 1" "kept @ [r]"] Cons.prems(2) by (simp add: poll_results.simps [of K C pollfds idx])
qed simp

lemma poll_results_one_ready:
  assumes "length pollfds = length rules" and "i < length rules" and "\<forall>j < length rules. j \<noteq> i \<longrightarrow> pfd_revents (pollfds ! j) = 0"
    and "pfd_revents (pollfds ! i) AND (POLLERR OR POLLNVAL) = 0" and "pfd_revents (pollfds ! i) AND pfd_events (pollfds ! i) \<noteq> 0"
    and "serve_rule C (rules ! i) s = (Inr (), added, s')" and "added \<noteq> []"
  shows "poll_results K C pollfds 0 [] rules s = Some (Inl UndefinedBehaviour, rules @ added, s')"
proof -
  let ?rest = "drop (Suc i) rules"
  have last: "Suc (length rules - Suc 0) = length rules" using assms(2) by simp
  have rules: "rules = take i rules @ rules ! i # ?rest" using assms(2) by (simp add: id_take_nth_drop)
  have "poll_results K C pollfds 0 [] rules s = poll_results K C pollfds i (take i rules) (rules ! i # ?rest) s"
    using poll_results_skip [of "take i rules" pollfds 0 K C "[]" "rules ! i # ?rest" s] assms(1-3) rules by simp
  also have "\<dots> = poll_results K C pollfds (i + 1) (take i rules @ [rules ! i]) (?rest @ added) s'"
    using assms(1,2,4-6) by (simp add: poll_results.simps [of K C pollfds i])
  also have "\<dots> = poll_results K C pollfds (length pollfds) (take i rules @ [rules ! i] @ ?rest) added s'"
    using poll_results_skip [of ?rest pollfds "i + 1" K C "take i rules @ [rules ! i]" added s'] assms(1-3)
    by (simp add: last)
  also have "\<dots> = Some (Inl UndefinedBehaviour, rules @ added, s')"
    using assms(7) rules by (cases added) (simp_all add: poll_results.simps)
  finally show ?thesis .
qed

lemma set_revents_nth:
  "length revents = length pollfds \<Longrightarrow> j < length pollfds \<Longrightarrow> set_revents pollfds revents ! j = (pollfds ! j)\<lparr>pfd_revents := revents ! j\<rparr>"
  by (simp add: set_revents_def)

text \<open>
  C40. The loop over the poll results takes its bound from the live list of rules but its index from
  the results polled before. So if any rule, at any position, is polled ready and its callback adds
  rules, \<open>wait_next_event\<close> does not return a result: it goes on to the added rules and reads the vector of
  results past its end, unless a call has thrown or an error event was found before. When the other
  rules have no events, no error is polled and the callback returns in order, that read is where it ends.
\<close>

theorem add_rule_in_callback_undefined:
  assumes "poll_setup K C [] [] False rules s = Some (Inr (pollfds, True), rules1, s1)"
    and "k_poll K pollfds timeout_ms (sy_world s1) = (ret, errno, revents, w)" and "0 < ret" and "ret < 2 ^ 31"
    and "length revents = length pollfds" and "i < length rules1" and "revents ! i AND pfd_events (pollfds ! i) \<noteq> 0"
    and "\<forall>t. fst (snd (cb_callback C (rl_callback (rules1 ! i)) t)) \<noteq> []"
  shows "(\<exists>e rules' s'. wait_next_event K C rules timeout_ms s = Some (Inl e, rules', s'))
    \<and> (\<forall>added s2. (\<forall>j < length rules1. j \<noteq> i \<longrightarrow> revents ! j = 0) \<longrightarrow> revents ! i AND (POLLERR OR POLLNVAL) = 0
         \<longrightarrow> serve_rule C (rules1 ! i) (s1\<lparr>sy_world := w\<rparr>) = (Inr (), added, s2)
         \<longrightarrow> wait_next_event K C rules timeout_ms s = Some (Inl UndefinedBehaviour, rules1 @ added, s2))"
proof -
  let ?pf = "set_revents pollfds revents" and ?s = "s1\<lparr>sy_world := w\<rparr>"
  have len: "length pollfds = length rules1" using poll_setup_length [OF assms(1)] by simp
  note nth = set_revents_nth [OF assms(5)]
  have "SystemCall ''poll'' ret errno 0 = Inr ret"
    by (rule SystemCall_ok) (use assms(3,4) in simp_all)
  then have wait: "wait_next_event K C rules timeout_ms s = (case poll_results K C ?pf 0 [] rules1 ?s of None \<Rightarrow> None
      | Some (Inl e, rules2, s3) \<Rightarrow> Some (Inl e, rules2, s3) | Some (Inr _, rules2, s3) \<Rightarrow> Some (Inr Success, rules2, s3))"
    using assms(1-3) by (simp add: wait_next_event_def)
  have "poll_results K C ?pf 0 [] rules1 ?s \<noteq> Some (Inr (), rules', s')" for rules' s'
    using poll_results_adds [of K C ?pf 0 "[]" rules1 ?s rules' s' i] len nth assms(6-8) by auto
  moreover obtain res rules' s' where "poll_results K C ?pf 0 [] rules1 ?s = Some (res, rules', s')"
    using poll_results_ends [of K C ?pf 0 "[]" rules1 ?s] by auto
  ultimately have "\<exists>e rules' s'. wait_next_event K C rules timeout_ms s = Some (Inl e, rules', s')"
    unfolding wait by (cases res) auto
  moreover have "wait_next_event K C rules timeout_ms s = Some (Inl UndefinedBehaviour, rules1 @ added, s2)"
    if "\<forall>j < length rules1. j \<noteq> i \<longrightarrow> revents ! j = 0" "revents ! i AND (POLLERR OR POLLNVAL) = 0"
      "serve_rule C (rules1 ! i) ?s = (Inr (), added, s2)" for added s2
    using poll_results_one_ready [of ?pf rules1 i C ?s added s2 K] that serve_rule_adds [OF that(3) assms(8)] len nth assms(6,7)
    unfolding wait by simp
  ultimately show ?thesis by blast
qed

theorem add_rule_in_callback_undefined_witness:
  "wait_next_event ready_kernel (demo_callbacks [demo_rule]) [demo_rule] 100 (demo_system [])
     = Some (Inl UndefinedBehaviour, [demo_rule, demo_rule],
         fd_update 0 (demo_wrapper\<lparr>fw_read_count := 1\<rparr>) (demo_system []))"
proof -
  have "serve_rule (demo_callbacks [demo_rule]) demo_rule ((demo_system [])\<lparr>sy_world := ([], [])\<rparr>)
      = (Inr (), [demo_rule], fd_update 0 (demo_wrapper\<lparr>fw_read_count := 1\<rparr>) (demo_system []))"
    by (simp add: serve_rule_def service_count_def demo_rule_def demo_callbacks_def read_count_def io_bind_def
        io_return_def wrapper_def demo_system_def fd_update_def demo_wrapper_def)
  then show ?thesis
    using add_rule_in_callback_undefined [OF demo_setup [of ready_kernel "[demo_rule]" "[]"], where timeout_ms = 100 and ret = 1
        and errno = 0 and revents = "[POLLIN]" and w = "([], [])" and i = 0]
    by (simp add: ready_kernel_def POLLIN_def POLLERR_def POLLNVAL_def demo_system_def demo_callbacks_def)
qed

end
