(* ===== verification/Webget.thy ===== *)
theory Webget
  imports Sockets
begin

text \<open>
  The program \<open>apps/webget.cc\<close>: \<open>get_URL\<close> fetches a page over a TCP socket and prints it, \<open>main\<close>
  handles the command line and exceptions. The loop that prints the answer has no bound in the
  source, so it is a partial function with \<open>None\<close> for not returning.
\<close>

section \<open>Definitions\<close>

text \<open>The default argument of \<open>read\<close>.\<close>

definition read_limit :: u64 where
  "read_limit = 0xFFFFFFFFFFFFFFFF"

definition crlf :: string where
  "crlf = [CHR 0x0D, CHR 0x0A]"

definition write_text :: "'w kernel \<Rightarrow> FileDescriptor \<Rightarrow> string \<Rightarrow> ('w, unit) io" where
  "write_text K sock text = io_bind (FileDescriptor_write_string K sock (ascii text) True) (\<lambda>_. io_return ())"

definition send_request :: "'w kernel \<Rightarrow> FileDescriptor \<Rightarrow> string \<Rightarrow> string \<Rightarrow> ('w, unit) io" where
  "send_request K sock host path =
     io_bind (Address_of_host K host ''http'') (\<lambda>addr.
     io_bind (Socket_connect K sock addr) (\<lambda>_.
     io_bind (write_text K sock (''GET '' @ path @ '' HTTP/1.1'' @ crlf)) (\<lambda>_.
     io_bind (write_text K sock (''Host: '' @ host @ crlf)) (\<lambda>_.
     io_bind (write_text K sock (''Connection: close'' @ crlf)) (\<lambda>_.
     io_bind (write_text K sock crlf) (\<lambda>_.
     Socket_shutdown K sock SHUT_WR))))))"

partial_function (option) print_until_eof ::
  "'w kernel \<Rightarrow> FileDescriptor \<Rightarrow> 'w system \<Rightarrow> (unit result \<times> 'w system) option" where
  "print_until_eof K sock s =
     (case FileDescriptor_eof sock s of
        (Inl e, s1) \<Rightarrow> Some (Inl e, s1)
      | (Inr at_eof, s1) \<Rightarrow>
          if at_eof then Some (Inr (), s1)
          else (case FileDescriptor_read K sock read_limit s1 of
                  (Inl e, s2) \<Rightarrow> Some (Inl e, s2)
                | (Inr recv_msg, s2) \<Rightarrow> print_until_eof K sock (snd (cout recv_msg s2))))"

definition finish_URL :: "'w kernel \<Rightarrow> FileDescriptor \<Rightarrow> string \<Rightarrow> string \<Rightarrow> ('w, unit) io" where
  "finish_URL K sock host path =
     io_bind (FileDescriptor_close K sock) (\<lambda>_.
     io_bind (cerr (ascii (''Function called: get_URL('' @ host @ '', '' @ path @ '').'' @ [CHR 0x0A]))) (\<lambda>_.
     cerr (ascii (''Warning: get_URL() has not been implemented yet.'' @ [CHR 0x0A]))))"

text \<open>What happens while the socket is in scope; it is destroyed whether this returns or throws.\<close>

definition URL_body ::
  "'w kernel \<Rightarrow> FileDescriptor \<Rightarrow> string \<Rightarrow> string \<Rightarrow> 'w system \<Rightarrow> (unit result \<times> 'w system) option" where
  "URL_body K sock host path s =
     (case send_request K sock host path s of
        (Inl e, s1) \<Rightarrow> Some (Inl e, s1)
      | (Inr _, s1) \<Rightarrow>
         (case print_until_eof K sock s1 of
            None \<Rightarrow> None
          | Some (Inl e, s2) \<Rightarrow> Some (Inl e, s2)
          | Some (Inr _, s2) \<Rightarrow> Some (finish_URL K sock host path s2)))"

definition get_URL :: "'w kernel \<Rightarrow> string \<Rightarrow> string \<Rightarrow> 'w system \<Rightarrow> (unit result \<times> 'w system) option" where
  "get_URL K host path s =
     (case TCPSocket_new K s of
        (Inl e, s1) \<Rightarrow> Some (Inl e, s1)
      | (Inr sock, s1) \<Rightarrow>
         (case URL_body K sock host path s1 of
            None \<Rightarrow> None
          | Some (r, s2) \<Rightarrow>
             (case FileDescriptor_destroy K sock s2 of
                (Inl e, s3) \<Rightarrow> Some (Inl e, s3)
              | (Inr _, s3) \<Rightarrow> Some (r, s3))))"

datatype program_exit = Aborted | Returned int | Undefined

definition EXIT_SUCCESS :: int where
  "EXIT_SUCCESS = 0"

definition EXIT_FAILURE :: int where
  "EXIT_FAILURE = 1"

definition webget_main :: "'w kernel \<Rightarrow> string list \<Rightarrow> 'w system \<Rightarrow> (program_exit \<times> 'w system) option" where
  "webget_main K argv s =
     (if length argv \<le> 0 then Some (Aborted, s)
      else if length argv \<noteq> 3
      then Some (Returned EXIT_FAILURE, snd (io_bind
        (cerr (ascii (''Usage: '' @ argv ! 0 @ '' HOST PATH'' @ [CHR 0x0A]))) (\<lambda>_.
        cerr (ascii ([CHR 0x09] @ ''Example: '' @ argv ! 0 @ '' stanford.edu /class/cs144'' @ [CHR 0x0A]))) s))
      else (case get_URL K (argv ! 1) (argv ! 2) s of
              None \<Rightarrow> None
            | Some (Inl e, s') \<Rightarrow>
                if e = UndefinedBehaviour then Some (Undefined, s')
                else Some (Returned EXIT_FAILURE, snd (cerr (ascii (what K e @ [CHR 0x0A])) s'))
            | Some (Inr _, s') \<Rightarrow> Some (Returned EXIT_SUCCESS, s')))"

section \<open>What operations leave alone\<close>

definition preserves :: "('w system \<Rightarrow> 'b) \<Rightarrow> ('w, 'a) io \<Rightarrow> bool" where
  "preserves f m \<longleftrightarrow> (\<forall>s. f (snd (m s)) = f s)"

lemma preservesD: "preserves f m \<Longrightarrow> m s = (r, s') \<Longrightarrow> f s' = f s"
  by (metis preserves_def snd_conv)

named_theorems preserving \<open>operations that leave a view of the system alone\<close>

lemma preserves_bind [preserving]: "preserves f m \<Longrightarrow> (\<And>x. preserves f (g x)) \<Longrightarrow> preserves f (io_bind m g)"
  by (auto simp: preserves_def io_bind_def split: prod.splits sum.splits) (metis snd_conv)+

lemma preserves_basic [preserving]:
  "preserves f (io_return x)" "preserves f (io_throw e)" "preserves f (io_result r)" "preserves f (wrapper d)"
  by (simp_all add: preserves_def io_return_def io_throw_def io_result_def wrapper_def)

lemma preserves_if [preserving]: "preserves f m \<Longrightarrow> preserves f n \<Longrightarrow> preserves f (if c then m else n)"
  by simp

text \<open>
  A view of the system that neither the outside world nor the flags and counters of a descriptor show
  in: no operation on an open descriptor changes it.
\<close>

locale untouched =
  fixes view :: "'w system \<Rightarrow> 'b"
  assumes view_world: "view (s\<lparr>sy_world := x\<rparr>) = view s"
    and view_wrapper: "view (fd_update d w s) = view s"
begin

lemma preserves_syscall [preserving]: "preserves view (syscall attempt f)"
  by (auto simp: preserves_def syscall_def view_world split: prod.splits)

lemma preserves_modify [preserving]: "preserves view (modify_wrapper d f)"
  using view_wrapper by (simp add: preserves_def modify_wrapper_def io_bind_def wrapper_def fd_update_def)

lemma preserves_fd_num [preserving]: "preserves view (fd_num d)"
  unfolding fd_num_def by (intro preserving)

lemma preserves_close [preserving]: "preserves view (FDWrapper_close K d)"
  unfolding FDWrapper_close_def by (intro preserving)

lemma preserves_write_round [preserving]: "preserves view (write_round K d b)"
  unfolding write_round_def Let_def register_write_def by (intro preserving)

lemma preserves_write_loop [preserving]: "preserves view (write_loop K d all b t)"
  unfolding preserves_def
proof
  fix s
  show "view (snd (write_loop K d all b t s)) = view s"
  proof (induction K d all b t s rule: write_loop.induct)
    case (1 K d all b t s)
    obtain r s' where r: "write_round K d b s = (r, s')" by (cases "write_round K d b s")
    then have "view s' = view s" using preserves_write_round by (rule preservesD [rotated])
    then show ?case
      using 1 r by (cases r) (auto simp: write_loop.simps [of K d all b t s])
  qed
qed

lemma preserves_write_text [preserving]: "preserves view (write_text K d text)"
  unfolding write_text_def FileDescriptor_write_string_def FileDescriptor_write_def by (intro preserving)

lemma preserves_resolve [preserving]: "preserves view (Address_of_host K host service)"
  by (auto simp: preserves_def Address_of_host_def Address_resolve_def Let_def view_world split: prod.splits list.splits)

lemma preserves_request: "preserves view (send_request K d host path)"
  unfolding send_request_def Socket_connect_def Socket_shutdown_def register_read_def register_write_def
  by (intro preserving)

end

interpretation untouched_cout: untouched sy_cout
  by unfold_locales simp_all

interpretation untouched_refs: untouched refs
proof
  show "refs (fd_update d w s) = refs s" for d w and s :: "'a system"
  proof
    show "refs (fd_update d w s) e = refs s e" for e
      by (cases "e = d") (simp_all add: refs_def fd_update_def)
  qed
qed (simp add: refs_def fun_eq_iff)

lemma preserves_cerr [preserving]: "preserves sy_cout (cerr b)" "preserves refs (cerr b)"
  by (simp_all add: preserves_def cerr_def refs_def fun_eq_iff)

lemma finish_preserves: "preserves sy_cout (finish_URL K d host path)" "preserves refs (finish_URL K d host path)"
  unfolding finish_URL_def FileDescriptor_close_def
  by (intro preserving untouched_cout.preserves_close untouched_refs.preserves_close)+

lemma destroy_preserves_cout: "preserves sy_cout (FileDescriptor_destroy K d)"
proof -
  have "preserves sy_cout (FDWrapper_destroy K d)"
  proof -
    let ?body = "io_bind (wrapper d) (\<lambda>w. if fw_closed w then io_return () else FDWrapper_close K d)"
    have "preserves sy_cout ?body" by (intro preserving untouched_cout.preserves_close)
    from preservesD [OF this] show ?thesis
      by (auto simp: preserves_def FDWrapper_destroy_def io_catch_def cerr_def io_throw_def split: prod.splits sum.splits)
  qed
  from preservesD [OF this] show ?thesis
    by (auto simp: preserves_def FileDescriptor_destroy_def io_bind_def wrapper_def io_return_def split: prod.splits sum.splits)
qed

lemma destroy_refs:
  assumes "fd_live s d w"
  shows "refs (snd (FileDescriptor_destroy K d s)) = (refs s)(d := refs s d - 1)"
proof
  fix c
  obtain s' where "FileDescriptor_destroy K d s = (Inr (), s')"
      "length (sy_cells s') = length (sy_cells s)" "snd (sy_cells s' ! d) = snd (sy_cells s ! d) - 1"
      "\<forall>c. c \<noteq> d \<longrightarrow> c < length (sy_cells s) \<longrightarrow> sy_cells s' ! c = sy_cells s ! c"
    using destroy_closes_once [OF assms, of K] by blast
  then show "refs (snd (FileDescriptor_destroy K d s)) c = ((refs s)(d := refs s d - 1)) c"
    by (auto simp: refs_def)
qed

section \<open>The exchange with a server\<close>

text \<open>
  What the calls on a connected socket promise. \<open>sent\<close> is what the connection has taken since it was
  made, \<open>input\<close> what is still to be read from it, and \<open>server\<close> what the other side answers to a
  request that is complete, that is, after the sending direction was shut down.
\<close>

definition tcp_connection :: "'w kernel \<Rightarrow> int \<Rightarrow> ('w \<Rightarrow> bytes) \<Rightarrow> ('w \<Rightarrow> bytes) \<Rightarrow> (bytes \<Rightarrow> bytes) \<Rightarrow> bool" where
  "tcp_connection K fd sent input server \<longleftrightarrow> stream_sink K fd sent \<and> stream_source K fd input
     \<and> (\<forall>a w ret errno w'. k_connect K fd a w = (ret, errno, w') \<longrightarrow> ret = -1 \<and> errno \<noteq> 0 \<or> ret = 0 \<and> sent w' = [])
     \<and> (\<forall>w ret errno w'. k_shutdown K fd SHUT_WR w = (ret, errno, w') \<longrightarrow>
          ret = -1 \<and> errno \<noteq> 0 \<or> ret = 0 \<and> input w' = server (sent w))"

definition http_request :: "string \<Rightarrow> string \<Rightarrow> bytes" where
  "http_request host path =
     ascii (''GET '' @ path @ '' HTTP/1.1'' @ crlf @ ''Host: '' @ host @ crlf @ ''Connection: close'' @ crlf @ crlf)"

lemma write_text_cases:
  assumes "stream_sink K fd sent" and "fd_live s d w" and "fw_fd w = fd" and "length text < 2 ^ 63"
  shows "(\<exists>s' w'. write_text K d text s = (Inr (), s') \<and> fd_live s' d w' \<and> fw_fd w' = fd \<and> fw_eof w' = fw_eof w
      \<and> sent (sy_world s') = sent (sy_world s) @ ascii text)
    \<or> (\<exists>errno s'. write_text K d text s = (Inl (UnixError ''writev'' errno), s'))"
proof -
  let ?b = "BufferViewList_of_string_view (ascii text)"
  have b: "view_ok ?b" "bvl_contents ?b = ascii text"
    using assms(4) by (simp_all add: view_ok_def BufferViewList_of_string_view_def bvl_contents_def)
  have eq: "write_text K d text s = io_bind (write_loop K d True ?b 0) (\<lambda>_. io_return ()) s"
    by (simp add: write_text_def FileDescriptor_write_string_def FileDescriptor_write_def)
  from write_loop_all [OF assms(1-3) b(1), of 0] show ?thesis
    unfolding eq b(2) by (elim disjE exE conjE) (auto simp: io_bind_def io_return_def)
qed

text \<open>From a state with \<open>P\<close> the operation gives a value and a state with \<open>Q\<close>, or throws a C++ exception.\<close>

definition achieves :: "('w system \<Rightarrow> bool) \<Rightarrow> ('w, 'a) io \<Rightarrow> ('a \<Rightarrow> 'w system \<Rightarrow> bool) \<Rightarrow> bool" where
  "achieves P m Q \<longleftrightarrow> (\<forall>s. P s \<longrightarrow> (case m s of (Inr x, s') \<Rightarrow> Q x s' | (Inl e, s') \<Rightarrow> e \<noteq> UndefinedBehaviour))"

lemma achieves_bind: "achieves P m Q \<Longrightarrow> (\<And>x. achieves (Q x) (f x) R) \<Longrightarrow> achieves P (io_bind m f) R"
  by (fastforce simp: achieves_def io_bind_def split: prod.splits sum.splits)

definition sock_state :: "FileDescriptor \<Rightarrow> int \<Rightarrow> ('w \<Rightarrow> bool) \<Rightarrow> 'w system \<Rightarrow> bool" where
  "sock_state d fd P s \<longleftrightarrow> (\<exists>w. fd_live s d w \<and> fw_fd w = fd \<and> \<not> fw_eof w) \<and> P (sy_world s)"

lemma sock_stateI: "fd_live s d w \<Longrightarrow> fw_fd w = fd \<Longrightarrow> \<not> fw_eof w \<Longrightarrow> P (sy_world s) \<Longrightarrow> sock_state d fd P s"
  by (auto simp: sock_state_def)

lemma achieves_resolve: "achieves (sock_state d fd P) (Address_of_host K host service) (\<lambda>_. sock_state d fd (\<lambda>_. True))"
proof -
  have "Address_of_sockaddr a (size_t a) \<noteq> Inl UndefinedBehaviour" for a
  proof -
    have "unat (size_t a) \<le> length a" by (simp add: size_t_def unat_of_nat)
    then show ?thesis by (auto simp: Address_of_sockaddr_def split: if_splits)
  qed
  then show ?thesis
    by (auto simp: achieves_def sock_state_def Address_of_host_def Address_resolve_def Let_def
        split: prod.splits list.splits sum.splits)
qed

lemma achieves_syscall:
  assumes "\<And>w ret errno w'. P w \<Longrightarrow> f w = (ret, errno, w') \<Longrightarrow> ret = -1 \<and> errno \<noteq> 0 \<or> ret = 0 \<and> Q w'"
  shows "achieves (sock_state d fd P) (syscall attempt f) (\<lambda>_. sock_state d fd Q)"
  unfolding achieves_def
proof (intro allI impI)
  fix s
  assume s: "sock_state d fd P s"
  obtain ret errno w' where f: "f (sy_world s) = (ret, errno, w')" by (cases "f (sy_world s)")
  with assms [OF _ f] s have "ret = -1 \<and> errno \<noteq> 0 \<or> ret = 0 \<and> Q w'" by (simp add: sock_state_def)
  with s f show "case syscall attempt f s of
      (Inr x, s') \<Rightarrow> sock_state d fd Q s' | (Inl e, s') \<Rightarrow> e \<noteq> UndefinedBehaviour"
    by (auto simp: syscall_def SystemCall_def sock_state_def)
qed

lemma achieves_fd_num: "achieves (sock_state d fd P) (fd_num d) (\<lambda>n s. n = fd \<and> sock_state d fd P s)"
  unfolding achieves_def sock_state_def by (auto simp: fd_num_live) blast

lemma achieves_on_fd:
  assumes "achieves (sock_state d fd P) (f fd) Q"
  shows "achieves (sock_state d fd P) (io_bind (fd_num d) f) Q"
  by (rule achieves_bind [OF achieves_fd_num]) (use assms in \<open>auto simp: achieves_def\<close>)

lemma tcp_connectionD:
  assumes "tcp_connection K fd sent input server"
  shows "k_connect K fd a w = (ret, errno, w') \<Longrightarrow> ret = -1 \<and> errno \<noteq> 0 \<or> ret = 0 \<and> sent w' = []"
    and "k_shutdown K fd SHUT_WR w = (ret, errno, w') \<Longrightarrow> ret = -1 \<and> errno \<noteq> 0 \<or> ret = 0 \<and> input w' = server (sent w)"
  using assms unfolding tcp_connection_def by blast+

lemma achieves_connect:
  assumes "tcp_connection K fd sent input server"
  shows "achieves (sock_state d fd (\<lambda>_. True)) (Socket_connect K d a) (\<lambda>_. sock_state d fd (\<lambda>w. sent w = []))"
  unfolding Socket_connect_def
proof (rule achieves_on_fd, rule achieves_bind)
  show "achieves (sock_state d fd (\<lambda>_. True)) (syscall ''connect'' (k_connect K fd (Address_sockaddr a)))
      (\<lambda>_. sock_state d fd (\<lambda>w. sent w = []))"
    by (rule achieves_syscall) (rule tcp_connectionD(1) [OF assms])
qed (simp add: achieves_def io_return_def)

lemma achieves_register_write: "achieves (sock_state d fd P) (register_write d) (\<lambda>_. sock_state d fd P)"
  unfolding achieves_def
proof (intro allI impI)
  fix s
  assume s: "sock_state d fd P s"
  then obtain w where w: "fd_live s d w" "fw_fd w = fd" "\<not> fw_eof w" by (auto simp: sock_state_def)
  let ?w = "w\<lparr>fw_write_count := fw_write_count w + 1\<rparr>"
  have "sock_state d fd P (fd_update d ?w s)"
    using s w update_live [OF w(1), of ?w] by (intro sock_stateI [of _ _ ?w]) (simp_all add: sock_state_def)
  then show "case register_write d s of (Inr x, s') \<Rightarrow> sock_state d fd P s' | (Inl e, s') \<Rightarrow> e \<noteq> UndefinedBehaviour"
    by (simp add: register_write_def modify_live [OF w(1)])
qed

lemma achieves_shutdown:
  assumes "tcp_connection K fd sent input server"
  shows "achieves (sock_state d fd (\<lambda>w. sent w = b)) (Socket_shutdown K d SHUT_WR) (\<lambda>_. sock_state d fd (\<lambda>w. input w = server b))"
proof -
  have "Socket_shutdown K d SHUT_WR =
      io_bind (fd_num d) (\<lambda>fd. io_bind (syscall ''shutdown'' (k_shutdown K fd SHUT_WR)) (\<lambda>_. register_write d))"
    by (simp add: Socket_shutdown_def SHUT_RD_def SHUT_WR_def)
  moreover have "achieves (sock_state d fd (\<lambda>w. sent w = b)) (syscall ''shutdown'' (k_shutdown K fd SHUT_WR))
      (\<lambda>_. sock_state d fd (\<lambda>w. input w = server b))"
    by (rule achieves_syscall) (use tcp_connectionD(2) [OF assms] in blast)
  ultimately show ?thesis by (simp add: achieves_on_fd achieves_bind achieves_register_write)
qed

lemma achieves_write:
  assumes "tcp_connection K fd sent input server" and "length text < 2 ^ 63"
  shows "achieves (sock_state d fd (\<lambda>w. sent w = b)) (write_text K d text) (\<lambda>_. sock_state d fd (\<lambda>w. sent w = b @ ascii text))"
  unfolding achieves_def
proof (intro allI impI)
  fix s
  assume s: "sock_state d fd (\<lambda>w. sent w = b) s"
  then obtain w where w: "fd_live s d w" "fw_fd w = fd" "\<not> fw_eof w" "sent (sy_world s) = b" by (auto simp: sock_state_def)
  have "stream_sink K fd sent" using assms(1) by (simp add: tcp_connection_def)
  from write_text_cases [OF this w(1,2) assms(2)]
  show "case write_text K d text s of
      (Inr x, s') \<Rightarrow> sock_state d fd (\<lambda>w. sent w = b @ ascii text) s' | (Inl e, s') \<Rightarrow> e \<noteq> UndefinedBehaviour"
    using w(3,4) by (elim disjE exE conjE) (auto simp: sock_state_def)
qed

lemma achieves_request:
  assumes "tcp_connection K fd sent input server" and "length host < 2 ^ 62" and "length path < 2 ^ 62"
  shows "achieves (sock_state d fd P) (send_request K d host path)
    (\<lambda>_. sock_state d fd (\<lambda>w. input w = server (http_request host path)))"
proof -
  let ?t1 = "''GET '' @ path @ '' HTTP/1.1'' @ crlf" and ?t2 = "''Host: '' @ host @ crlf" and ?t3 = "''Connection: close'' @ crlf"
  have len: "length ?t1 < 2 ^ 63" "length ?t2 < 2 ^ 63" "length ?t3 < 2 ^ 63" "length crlf < 2 ^ 63"
    using assms(2,3) by (simp_all add: crlf_def)
  have req: "((([] @ ascii ?t1) @ ascii ?t2) @ ascii ?t3) @ ascii crlf = http_request host path"
    by (simp only: http_request_def ascii_append append.assoc append_Nil)
  show ?thesis
    unfolding send_request_def req [symmetric]
    by (rule achieves_bind [OF achieves_resolve] achieves_bind [OF achieves_connect [OF assms(1)]]
        achieves_bind [OF achieves_write [OF assms(1) len(1)]] achieves_bind [OF achieves_write [OF assms(1) len(2)]]
        achieves_bind [OF achieves_write [OF assms(1) len(3)]] achieves_bind [OF achieves_write [OF assms(1) len(4)]]
        achieves_shutdown [OF assms(1)])+
qed

lemma eof_live: "fd_live s d w \<Longrightarrow> FileDescriptor_eof d s = (Inr (fw_eof w), s)"
  by (simp add: FileDescriptor_eof_def io_bind_def io_return_def wrapper_live)

text \<open>One round of the loop: the read fails, or what it gave is printed and the loop goes on.\<close>

lemma print_round:
  assumes source: "stream_source K (fw_fd w) input" and live: "fd_live s d w" and not_eof: "\<not> fw_eof w"
  shows "(\<exists>errno s1. print_until_eof K d s = Some (Inl (UnixError ''read'' errno), s1) \<and> fd_live s1 d w
      \<and> refs s1 = refs s \<and> sy_cout s1 = sy_cout s)
    \<or> (\<exists>data s1 w1. print_until_eof K d s = print_until_eof K d s1 \<and> fd_live s1 d w1 \<and> fw_fd w1 = fw_fd w
      \<and> fw_eof w1 = (data = []) \<and> refs s1 = refs s \<and> sy_cout s1 = sy_cout s @ data
      \<and> input (sy_world s) = data @ input (sy_world s1) \<and> (data = [] \<longrightarrow> input (sy_world s) = []))"
proof -
  have eof: "FileDescriptor_eof d s = (Inr False, s)" using eof_live [OF live] not_eof by simp
  note unfold = print_until_eof.simps [of K d s] FileDescriptor_read_def
  have pos: "0 < read_limit" by (simp add: read_limit_def)
  from read_into_cases [OF source live, of "[]" read_limit] show ?thesis
  proof (elim disjE exE conjE)
    fix errno x
    assume "FileDescriptor_read_into K d [] read_limit s = (Inl (UnixError ''read'' errno), s\<lparr>sy_world := x\<rparr>)"
    then show ?thesis
      using eof live
      by (intro disjI1 exI [of _ errno] exI [of _ "s\<lparr>sy_world := x\<rparr>"]) (simp add: unfold untouched_refs.view_world)
  next
    fix data :: bytes and x
    let ?w = "w\<lparr>fw_read_count := fw_read_count w + 1, fw_eof := (fw_eof w \<or> 0 < read_limit \<and> data = [])\<rparr>"
    let ?s = "fd_update d ?w (s\<lparr>sy_world := x\<rparr>)"
    assume r: "FileDescriptor_read_into K d [] read_limit s = (Inr data, ?s)"
      and data: "input (sy_world s) = data @ input x" "0 < read_limit \<and> data = [] \<longrightarrow> input (sy_world s) = []"
    have eq: "print_until_eof K d s = print_until_eof K d (snd (cout data ?s))" using eof r by (simp add: unfold)
    have "fd_live ?s d ?w" using live by (intro update_live) simp
    then have live1: "fd_live (snd (cout data ?s)) d ?w" by (simp add: cout_def fd_live_def)
    have "refs (snd (cout data ?s)) = refs ?s" by (simp add: cout_def refs_def fun_eq_iff)
    then have refs: "refs (snd (cout data ?s)) = refs s" by (simp only: untouched_refs.view_wrapper untouched_refs.view_world)
    have out: "sy_cout (snd (cout data ?s)) = sy_cout s @ data" "sy_world (snd (cout data ?s)) = x" by (simp_all add: cout_def)
    show ?thesis
      using eq live1 refs out data pos not_eof
      by (intro disjI2 exI [of _ data] exI [of _ "snd (cout data ?s)"] exI [of _ ?w]) simp
  qed
qed

text \<open>The loop ends with every source that ends, having printed all of it unless it throws.\<close>

lemma print_until_eof_ok:
  assumes "stream_source K fd input" and "fd_live s d w" and "fw_fd w = fd" and "\<not> fw_eof w"
  shows "\<exists>r s' w' k. print_until_eof K d s = Some (r, s') \<and> fd_live s' d w' \<and> refs s' = refs s \<and> r \<noteq> Inl UndefinedBehaviour
    \<and> sy_cout s' = sy_cout s @ take k (input (sy_world s)) \<and> (r = Inr () \<longrightarrow> length (input (sy_world s)) \<le> k)"
  using assms(2-4)
proof (induction "length (input (sy_world s))" arbitrary: s w rule: less_induct)
  case less
  from print_round [OF assms(1) [folded less.prems(2)] less.prems(1,3)] show ?case
  proof (elim disjE exE conjE)
    fix errno s1
    assume "print_until_eof K d s = Some (Inl (UnixError ''read'' errno), s1)" "fd_live s1 d w" "refs s1 = refs s" "sy_cout s1 = sy_cout s"
    then show ?thesis
      by (intro exI [of _ "Inl (UnixError ''read'' errno)"] exI [of _ s1] exI [of _ w] exI [of _ 0]) simp
  next
    fix data s1 w1
    assume eq: "print_until_eof K d s = print_until_eof K d s1" and live: "fd_live s1 d w1" "fw_fd w1 = fw_fd w"
      and eof: "fw_eof w1 = (data = [])" and refs: "refs s1 = refs s" and out: "sy_cout s1 = sy_cout s @ data"
      and data: "input (sy_world s) = data @ input (sy_world s1)" "data = [] \<longrightarrow> input (sy_world s) = []"
    show ?thesis
    proof (cases "data = []")
      case True
      then have "print_until_eof K d s = Some (Inr (), s1)"
        unfolding eq using eof_live [OF live(1)] eof by (simp add: print_until_eof.simps)
      with True live(1) refs out data show ?thesis
        by (intro exI [of _ "Inr ()"] exI [of _ s1] exI [of _ w1] exI [of _ 0]) simp
    next
      case False
      have "length (input (sy_world s1)) < length (input (sy_world s))" using False data(1) by simp
      from less.hyps [OF this live(1)] live(2) less.prems(2) eof False obtain r s' w' k where
          IH: "print_until_eof K d s1 = Some (r, s')" "fd_live s' d w'" "refs s' = refs s1" "r \<noteq> Inl UndefinedBehaviour"
            "sy_cout s' = sy_cout s1 @ take k (input (sy_world s1))" "r = Inr () \<longrightarrow> length (input (sy_world s1)) \<le> k"
        by auto
      then show ?thesis
        unfolding eq using refs out data(1)
        by (intro exI [of _ r] exI [of _ s'] exI [of _ w'] exI [of _ "length data + k"]) simp
    qed
  qed
qed

lemma finish_not_undefined:
  assumes "fd_live s d w"
  shows "fst (finish_URL K d host path s) \<noteq> Inl UndefinedBehaviour"
proof -
  obtain ret errno x where call: "k_close K (fw_fd w) (sy_world s) = (ret, errno, x)"
    by (cases "k_close K (fw_fd w) (sy_world s)")
  have live: "fd_live (s\<lparr>sy_world := x\<rparr>) d w" using assms by simp
  show ?thesis
    by (cases "SystemCall ''close'' ret errno 0")
      (auto simp: finish_URL_def FileDescriptor_close_def FDWrapper_close_def io_bind_def wrapper_live [OF assms] syscall_def call
        modify_live [OF live] cerr_def SystemCall_def split: if_splits)
qed

text \<open>The socket is the only reference made, and it is given up on the way out.\<close>

lemma leave_socket:
  assumes "refs s' = (refs s)(n := 1)" and "n = length (sy_cells s)"
  shows "\<exists>s''. FileDescriptor_destroy K n s' = (Inr (), s'') \<and> refs s'' = refs s \<and> sy_cout s'' = sy_cout s'"
proof -
  have n: "refs s' n = 1" "refs s n = 0" using assms by (simp_all add: refs_def)
  then obtain w where live: "fd_live s' n w" by (simp add: refs_def fd_live_def split: if_splits)
  obtain s'' where s'': "FileDescriptor_destroy K n s' = (Inr (), s'')" using destroy_closes_once [OF live] by blast
  have "refs s'' = refs s" using destroy_refs [OF live, of K] s'' n assms(1) by auto
  with s'' preservesD [OF destroy_preserves_cout s''] show ?thesis by blast
qed

lemma body_ok:
  assumes conn: "tcp_connection K fd sent input server" and s1: "sock_state n fd (\<lambda>_. True) s1"
    and refs: "refs s1 = (refs s)(n := 1)" "n = length (sy_cells s)"
    and len: "length host < 2 ^ 62" "length path < 2 ^ 62"
  shows "\<exists>r s' k. URL_body K n host path s1 = Some (r, s')
    \<and> r \<noteq> Inl UndefinedBehaviour \<and> refs s' = (refs s)(n := 1)
    \<and> sy_cout s' = sy_cout s1 @ take k (server (http_request host path))
    \<and> (r = Inr () \<longrightarrow> length (server (http_request host path)) \<le> k)"
proof -
  let ?answer = "server (http_request host path)"
  obtain r2 s2 where send: "send_request K n host path s1 = (r2, s2)" by (cases "send_request K n host path s1")
  have same: "refs s2 = (refs s)(n := 1)" "sy_cout s2 = sy_cout s1"
    using preservesD [OF untouched_refs.preserves_request send] preservesD [OF untouched_cout.preserves_request send] refs(1)
    by simp_all
  have sent: "case r2 of Inr _ \<Rightarrow> sock_state n fd (\<lambda>w. input w = ?answer) s2 | Inl e \<Rightarrow> e \<noteq> UndefinedBehaviour"
    using achieves_request [OF conn len, of n "\<lambda>_. True"] s1 send by (auto simp: achieves_def split: sum.splits)
  show ?thesis
  proof (cases r2)
    case (Inl e)
    with send same sent show ?thesis by (intro exI [of _ "Inl e"] exI [of _ s2] exI [of _ 0]) (simp add: URL_body_def)
  next
    case (Inr x)
    with sent obtain w where w: "fd_live s2 n w" "fw_fd w = fd" "\<not> fw_eof w" "input (sy_world s2) = ?answer"
      by (auto simp: sock_state_def)
    have "stream_source K fd input" using conn by (simp add: tcp_connection_def)
    from print_until_eof_ok [OF this w(1-3)] obtain r3 s3 w3 k where
        loop: "print_until_eof K n s2 = Some (r3, s3)" "fd_live s3 n w3" "refs s3 = refs s2" "r3 \<noteq> Inl UndefinedBehaviour"
          "sy_cout s3 = sy_cout s2 @ take k ?answer" "r3 = Inr () \<longrightarrow> length ?answer \<le> k"
      unfolding w(4) by blast
    show ?thesis
    proof (cases r3)
      case (Inl e)
      with send Inr loop same show ?thesis by (intro exI [of _ "Inl e"] exI [of _ s3] exI [of _ k]) (simp add: URL_body_def)
    next
      case printed: (Inr y)
      obtain r4 s4 where fin: "finish_URL K n host path s3 = (r4, s4)" by (cases "finish_URL K n host path s3")
      have "r4 \<noteq> Inl UndefinedBehaviour" using finish_not_undefined [OF loop(2), of K host path] fin by simp
      moreover have "refs s4 = refs s3" "sy_cout s4 = sy_cout s3"
        using preservesD [OF finish_preserves(2) fin] preservesD [OF finish_preserves(1) fin] by simp_all
      ultimately show ?thesis
        using send Inr printed loop same fin by (intro exI [of _ r4] exI [of _ s4] exI [of _ k]) (simp add: URL_body_def)
    qed
  qed
qed

text \<open>
  \<open>get_URL\<close> always returns; in order only after it has printed exactly the server's answer, otherwise
  after a prefix of it.
\<close>

lemma get_URL_prints_answer:
  assumes sockets: "\<forall>w ret errno w'. k_socket K AF_INET SOCK_STREAM w = (ret, errno, w') \<longrightarrow>
      ret = -1 \<and> errno \<noteq> 0 \<or> 0 \<le> ret \<and> ret < 2 ^ 31 \<and> tcp_connection K ret sent input server"
    and len: "length host < 2 ^ 62" "length path < 2 ^ 62"
  shows "\<exists>r s'. get_URL K host path s = Some (r, s') \<and> r \<noteq> Inl UndefinedBehaviour \<and> refs s' = refs s
    \<and> (\<exists>k. sy_cout s' = sy_cout s @ take k (server (http_request host path)))
    \<and> (r = Inr () \<longrightarrow> sy_cout s' = sy_cout s @ server (http_request host path))"
proof -
  obtain ret errno x where call: "k_socket K AF_INET SOCK_STREAM (sy_world s) = (ret, errno, x)"
    by (cases "k_socket K AF_INET SOCK_STREAM (sy_world s)")
  note new_def = TCPSocket_new_def Socket_new_def io_bind_def syscall_def
  from sockets call consider (fail) "ret = -1" "errno \<noteq> 0"
    | (ok) "0 \<le> ret" "ret < 2 ^ 31" "tcp_connection K ret sent input server" by blast
  then show ?thesis
  proof cases
    case fail
    have "SystemCall ''socket'' ret errno 0 = Inl (UnixError ''socket'' errno)"
      by (rule SystemCall_error) (use fail in simp_all)
    then have "get_URL K host path s = Some (Inl (UnixError ''socket'' errno), s\<lparr>sy_world := x\<rparr>)"
      by (simp add: get_URL_def new_def call)
    then show ?thesis
      by (intro exI [of _ "Inl (UnixError ''socket'' errno)"] exI [of _ "s\<lparr>sy_world := x\<rparr>"])
        (simp add: untouched_refs.view_world exI [of _ 0])
  next
    case ok
    let ?n = "length (sy_cells s)"
    let ?w = "\<lparr>fw_fd = ret, fw_eof = False, fw_closed = False, fw_read_count = 0, fw_write_count = 0\<rparr>"
    let ?s = "s\<lparr>sy_world := x, sy_cells := sy_cells s @ [(?w, 1)]\<rparr>"
    have "SystemCall ''socket'' ret errno 0 = Inr ret" by (rule SystemCall_ok) (use ok in simp_all)
    then have new: "TCPSocket_new K s = (Inr ?n, ?s)"
      using ok(1) by (simp add: new_def call FileDescriptor_new_def io_result_def FDWrapper_new_def)
    have open_sock: "sock_state ?n ret (\<lambda>_. True) ?s" by (rule sock_stateI [of _ _ ?w]) (simp_all add: fd_live_def)
    have held: "refs ?s = (refs s)(?n := 1)" by (auto simp: refs_def fun_eq_iff nth_append)
    have out: "sy_cout ?s = sy_cout s" by simp
    obtain r s' k where body: "URL_body K ?n host path ?s = Some (r, s')" "r \<noteq> Inl UndefinedBehaviour"
        "refs s' = (refs s)(?n := 1)" "sy_cout s' = sy_cout s @ take k (server (http_request host path))"
        "r = Inr () \<longrightarrow> length (server (http_request host path)) \<le> k"
      using body_ok [OF ok(3) open_sock held refl len] unfolding out by blast
    obtain s'' where "FileDescriptor_destroy K ?n s' = (Inr (), s'')" "refs s'' = refs s" "sy_cout s'' = sy_cout s'"
      using leave_socket [OF body(3) refl] by blast
    with body new show ?thesis by (intro exI [of _ r] exI [of _ s'']) (auto simp: get_URL_def)
  qed
qed

section \<open>Properties\<close>

text \<open>
  C28. The program \<open>webget\<close> against a kernel whose new TCP sockets work or fail as documented, and a
  server that answers the complete request with a finite response: it always ends, without undefined
  behaviour and without leaving a reference to a descriptor behind. With a host and a path it reports
  success only after printing exactly the server's answer to the HTTP request for them, and failure
  after printing a prefix of that answer. With any other number of arguments it reports failure, and
  neither prints on standard output nor touches the outside world; without a program name it aborts.
\<close>

theorem webget_prints_answer:
  assumes sockets: "\<forall>w ret errno w'. k_socket K AF_INET SOCK_STREAM w = (ret, errno, w') \<longrightarrow>
      ret = -1 \<and> errno \<noteq> 0 \<or> 0 \<le> ret \<and> ret < 2 ^ 31 \<and> tcp_connection K ret sent input server"
    and len: "list_all (\<lambda>a. length a < 2 ^ 62) argv"
  shows "\<exists>result s'. webget_main K argv s = Some (result, s') \<and> refs s' = refs s
    \<and> (if argv = [] then result = Aborted \<and> s' = s
       else if length argv \<noteq> 3
       then result = Returned EXIT_FAILURE \<and> sy_cout s' = sy_cout s \<and> sy_world s' = sy_world s
       else let answer = server (http_request (argv ! 1) (argv ! 2))
            in result = Returned EXIT_SUCCESS \<and> sy_cout s' = sy_cout s @ answer
               \<or> result = Returned EXIT_FAILURE \<and> (\<exists>k. sy_cout s' = sy_cout s @ take k answer))"
proof (cases "length argv = 3")
  case False
  then show ?thesis
    by (auto simp: webget_main_def io_bind_def cerr_def refs_def fun_eq_iff)
next
  case True
  have "length (argv ! 1) < 2 ^ 62" "length (argv ! 2) < 2 ^ 62"
    using len True by (simp_all add: list_all_length)
  from get_URL_prints_answer [OF sockets this, of s] obtain r s' k where
      r: "get_URL K (argv ! 1) (argv ! 2) s = Some (r, s')" "r \<noteq> Inl UndefinedBehaviour" "refs s' = refs s"
        "sy_cout s' = sy_cout s @ take k (server (http_request (argv ! 1) (argv ! 2)))"
        "r = Inr () \<longrightarrow> sy_cout s' = sy_cout s @ server (http_request (argv ! 1) (argv ! 2))"
    by blast
  have ne: "argv \<noteq> []" using True by auto
  show ?thesis
  proof (cases r)
    case (Inl e)
    let ?s = "snd (cerr (ascii (what K e @ [CHR 0x0A])) s')"
    have same: "refs ?s = refs s'" "sy_cout ?s = sy_cout s'"
      by (simp_all add: cerr_def refs_def fun_eq_iff)
    have "webget_main K argv s = Some (Returned EXIT_FAILURE, ?s)"
      using True ne Inl r(1,2) by (simp add: webget_main_def)
    then show ?thesis
      using True ne same r(3,4) by (intro exI [of _ "Returned EXIT_FAILURE"] exI [of _ ?s]) (auto simp: Let_def)
  next
    case (Inr u)
    then have "webget_main K argv s = Some (Returned EXIT_SUCCESS, s')"
      using True ne r(1) by (simp add: webget_main_def)
    with True ne Inr r(3,5) show ?thesis by (simp add: Let_def)
  qed
qed

text \<open>A world whose server sends the request back.\<close>

definition echo_kernel :: "(bytes \<times> bytes) kernel" where
  "echo_kernel = demo_kernel\<lparr>k_connect := (\<lambda>fd a w. (0, 0, [], [])), k_shutdown := (\<lambda>fd how w. (0, 0, fst w, fst w))\<rparr>"

lemma echo_connection: "tcp_connection echo_kernel fd fst snd (\<lambda>b. b)"
proof -
  have "stream_sink echo_kernel fd fst" using demo_sink [of fd] by (simp add: stream_sink_def echo_kernel_def)
  moreover have "stream_source echo_kernel fd snd" using demo_source [of fd] by (simp add: stream_source_def echo_kernel_def)
  ultimately show ?thesis by (simp add: tcp_connection_def echo_kernel_def)
qed

theorem webget_prints_answer_witness:
  "\<exists>result s'. webget_main echo_kernel [''webget'', ''a'', ''/''] (demo_system []) = Some (result, s')
    \<and> (result = Returned EXIT_SUCCESS \<longrightarrow> sy_cout s' = http_request ''a'' ''/'')"
proof -
  have "\<forall>w ret errno w'. k_socket echo_kernel AF_INET SOCK_STREAM w = (ret, errno, w') \<longrightarrow>
      ret = -1 \<and> errno \<noteq> 0 \<or> 0 \<le> ret \<and> ret < 2 ^ 31 \<and> tcp_connection echo_kernel ret fst snd (\<lambda>b. b)"
    using echo_connection by (simp add: echo_kernel_def demo_kernel_def)
  from webget_prints_answer [OF this, of "[''webget'', ''a'', ''/'']" "demo_system []"] show ?thesis
    by (auto simp: demo_system_def EXIT_SUCCESS_def EXIT_FAILURE_def)
qed

end
