(* ===== verification/Diagnostics.thy ===== *)
theory Diagnostics
  imports TCP_Header Address
begin

text \<open>
  What the library prints for people: \<open>hexdump\<close> of \<open>util.cc\<close>, \<open>TCPHeader::to_string\<close> and \<open>summary\<close> of
  \<open>tcp_header.cc\<close> and the stream inserter of \<open>wrapping_integers.hh\<close>; and that numbers printed in
  decimal are read back by \<open>std::stoi\<close>.
\<close>

section \<open>Definitions\<close>

definition newline :: string where
  "newline = [CHR 0x0A]"

text \<open>\<open>operator<<\<close> of a \<open>WrappingInt32\<close>, in the base the stream is set to.\<close>

definition wi_print :: "nat \<Rightarrow> WrappingInt32 \<Rightarrow> string" where
  "wi_print base a = digits base (unat (raw_value a))"

definition boolalpha :: "bool \<Rightarrow> string" where
  "boolalpha b = (if b then ''true'' else ''false'')"

definition TCPHeader_to_string :: "TCPHeader \<Rightarrow> string" where
  "TCPHeader_to_string h =
     ''TCP source port: '' @ digits 16 (unat (th_sport h)) @ newline @
     ''TCP dest port: '' @ digits 16 (unat (th_dport h)) @ newline @
     ''TCP seqno: '' @ wi_print 16 (th_seqno h) @ newline @
     ''TCP ackno: '' @ wi_print 16 (th_ackno h) @ newline @
     ''TCP doff: '' @ digits 16 (unat (th_doff h)) @ newline @
     ''Flags: urg: '' @ boolalpha (th_urg h) @ '' ack: '' @ boolalpha (th_ack h) @ '' psh: '' @ boolalpha (th_psh h) @
     '' rst: '' @ boolalpha (th_rst h) @ '' syn: '' @ boolalpha (th_syn h) @ '' fin: '' @ boolalpha (th_fin h) @ newline @
     ''TCP winsize: '' @ digits 16 (unat (th_win h)) @ newline @
     ''TCP cksum: '' @ digits 16 (unat (th_cksum h)) @ newline @
     ''TCP uptr: '' @ digits 16 (unat (th_uptr h)) @ newline"

definition TCPHeader_summary :: "TCPHeader \<Rightarrow> string" where
  "TCPHeader_summary h =
     ''Header(flags='' @ (if th_syn h then ''S'' else []) @ (if th_ack h then ''A'' else []) @
     (if th_rst h then ''R'' else []) @ (if th_fin h then ''F'' else []) @
     '',seqno='' @ wi_print 10 (th_seqno h) @ '',ack='' @ wi_print 10 (th_ackno h) @
     '',win='' @ decimal (unat (th_win h)) @ '')''"

text \<open>A field of the given width, filled with zeros on the left.\<close>

definition padded :: "nat \<Rightarrow> string \<Rightarrow> string" where
  "padded n str = replicate (n - length str) CHR ''0'' @ str"

definition printable :: "u8 \<Rightarrow> bool" where
  "printable b \<longleftrightarrow> 32 \<le> b \<and> b \<le> 126"

definition shown :: "u8 \<Rightarrow> char" where
  "shown b = (if printable b then char_of (unat b) else CHR ''.'')"

text \<open>
  A string stream for output: its text and the position where the next character goes. Setting the
  text puts the position at its front, so the first character written replaces the blank.
\<close>

type_synonym ostream = "string \<times> nat"

definition stream_str :: "string \<Rightarrow> ostream" where
  "stream_str text = (text, 0)"

fun stream_put :: "ostream \<Rightarrow> char \<Rightarrow> ostream" where
  "stream_put (text, pos) c = (take pos text @ [c] @ drop (pos + 1) text, pos + 1)"

text \<open>What one byte adds in front of its own digits: the end of the last line and the start of a new one, or a blank.\<close>

definition hexdump_lead :: "string \<Rightarrow> nat \<Rightarrow> ostream \<Rightarrow> string \<times> ostream" where
  "hexdump_lead indent_string printed pchars =
     (if printed mod 16 = 0
      then (if printed \<noteq> 0
            then (''    '' @ fst pchars @ newline @ indent_string @ padded 8 (digits 16 printed) @ '':    '', stream_str '' '')
            else (indent_string @ padded 8 (digits 16 printed) @ '':    '', pchars))
      else if printed mod 2 = 0 then ('' '', pchars)
      else ([], pchars))"

fun hexdump_loop :: "string \<Rightarrow> nat \<Rightarrow> ostream \<Rightarrow> bytes \<Rightarrow> string \<times> nat \<times> ostream" where
  "hexdump_loop indent_string printed pchars [] = ([], printed, pchars)"
| "hexdump_loop indent_string printed pchars (b # bs) =
     (let (lead, pchars1) = hexdump_lead indent_string printed pchars;
          pchars2 = stream_put pchars1 (shown b);
          (text, rest) = hexdump_loop indent_string (printed + 1) pchars2 bs
      in (lead @ padded 2 (digits 16 (unat b)) @ text, rest))"

text \<open>The counter is an \<open>int\<close>, which the increment for byte \<open>2^31\<close> would overflow.\<close>

definition hexdump :: "bytes \<Rightarrow> u64 \<Rightarrow> ('w, unit) io" where
  "hexdump data indent =
     (if 2 ^ 31 \<le> length data then io_throw UndefinedBehaviour
      else let (text, printed, pchars) = hexdump_loop (replicate (unat indent) CHR '' '') 0 (stream_str '' '') data;
               print_rem = (16 - printed mod 16) mod 16
           in cout (ascii (text @ replicate (2 * print_rem + print_rem div 2 + 4) CHR '' '' @ fst pchars @ newline @ newline)))"

section \<open>Printed numbers are read back\<close>

lemma digit_value_digit: "d < 10 \<Longrightarrow> digit_value (digit d) = Some d"
proof -
  assume "d < 10"
  then have "d \<in> set [0..<10]" by simp
  moreover have "\<forall>d \<in> set [0..<10]. digit_value (digit d) = Some d" by code_simp
  ultimately show ?thesis by blast
qed

lemma read_digits_snoc:
  "\<forall>c \<in> set xs. digit_value c \<noteq> None \<Longrightarrow> d < 10 \<Longrightarrow> read_digits (xs @ [digit d]) acc = read_digits xs acc * 10 + d"
  by (induction xs arbitrary: acc) (auto simp: digit_value_digit)

lemma decimal_digits: "(\<forall>c \<in> set (digits 10 n). digit_value c \<noteq> None) \<and> digits 10 n \<noteq> []"
proof (induction n rule: less_induct)
  case (less n)
  show ?case
  proof (cases "n < 10")
    case True
    then show ?thesis by (simp add: digits.simps [of 10 n] digit_value_digit)
  next
    case False
    then have "n div 10 < n" by simp
    from less.IH [OF this] False show ?thesis by (auto simp: digits.simps [of 10 n] digit_value_digit)
  qed
qed

lemma read_digits_decimal: "read_digits (decimal n) 0 = n"
  unfolding decimal_def
proof (induction n rule: less_induct)
  case (less n)
  show ?case
  proof (cases "n < 10")
    case True
    then show ?thesis by (simp add: digits.simps [of 10 n] digit_value_digit)
  next
    case False
    then have "n div 10 < n" by simp
    from less.IH [OF this] False decimal_digits [of "n div 10"] show ?thesis
      by (simp add: digits.simps [of 10 n] read_digits_snoc)
  qed
qed

lemma stoi_decimal:
  assumes "n < 2 ^ 31"
  shows "stoi (decimal n) = Inr (int n)"
proof -
  obtain c cs where c: "decimal n = c # cs" "digit_value c \<noteq> None"
    using decimal_digits [of n] by (cases "decimal n") (auto simp: decimal_def)
  then have plain: "c \<notin> set [CHR 0x20, CHR 0x09, CHR 0x0A, CHR 0x0B, CHR 0x0C, CHR 0x0D]" "c \<noteq> CHR ''-''" "c \<noteq> CHR ''+''"
    by (auto simp: digit_value_def)
  have "int n < 2 ^ 31" using assms by (metis of_nat_less_iff of_nat_numeral of_nat_power)
  then show ?thesis
    using c plain read_digits_decimal [of n] by (simp add: stoi_def Let_def)
qed

text \<open>The text of a port that \<open>Address(ip, port)\<close> hands to the resolver reads as that port.\<close>

lemma port_text: "stoi (decimal (unat (port :: u16))) = Inr (int (unat port))"
proof (rule stoi_decimal)
  have "unat port < 2 ^ 16" using unsigned_less [of port] by simp
  then show "unat port < 2 ^ 31" by simp
qed

section \<open>The shape of a dump\<close>

lemma digit_count: "unat (b :: u8) < 256" "length (padded 2 (digits 16 (unat b))) = 2"
proof -
  show small: "unat b < 256" using unsigned_less [of b] by simp
  then have "unat b div 16 < 16" by (simp add: div_less_iff_less_mult)
  then show "length (padded 2 (digits 16 (unat b))) = 2"
    by (simp add: padded_def digits.simps [of 16 "unat b"] digits.simps [of 16 "unat b div 16"])
qed

text \<open>
  Every byte is counted, and the characters shown at the end of the last line are those of the bytes
  on it, at most sixteen; before the first byte there is a single blank.
\<close>

definition last_line :: "bytes \<Rightarrow> bytes" where
  "last_line bs = drop (16 * ((length bs - 1) div 16)) bs"

definition line_chars :: "bytes \<Rightarrow> ostream" where
  "line_chars bs = (if bs = [] then stream_str '' '' else (map shown (last_line bs), length (last_line bs)))"

lemma last_line_length: "length (last_line bs) \<le> 16"
proof -
  have "length bs - 1 < 16 * ((length bs - 1) div 16) + 16" by linarith
  then show ?thesis by (simp add: last_line_def)
qed

lemma line_start: "n mod 16 \<noteq> 0 \<Longrightarrow> n div 16 = (n - 1) div 16" for n :: nat
  by (cases n) (simp_all add: div_Suc split: if_splits)

lemma line_chars_step:
  "stream_put (snd (hexdump_lead indent (length xs) (line_chars xs))) (shown b) = line_chars (xs @ [b])"
proof (cases "length xs mod 16 = 0")
  case True
  then have "16 * (length xs div 16) = length xs" by auto
  then have "last_line (xs @ [b]) = [b]" by (simp add: last_line_def)
  moreover have "snd (hexdump_lead indent (length xs) (line_chars xs)) = stream_str '' ''"
    using True by (auto simp: hexdump_lead_def line_chars_def)
  ultimately show ?thesis by (simp add: line_chars_def stream_str_def)
next
  case False
  then have ne: "xs \<noteq> []" by auto
  have same: "length xs div 16 = (length xs - 1) div 16" using line_start [OF False] .
  have "16 * ((length xs - 1) div 16) \<le> length xs" by linarith
  then have "last_line (xs @ [b]) = last_line xs @ [b]" by (simp add: last_line_def same)
  moreover have "snd (hexdump_lead indent (length xs) (line_chars xs)) = line_chars xs"
    using False by (simp add: hexdump_lead_def)
  ultimately show ?thesis using ne by (simp add: line_chars_def)
qed

lemma hexdump_loop_shows:
  assumes "hexdump_loop indent (length xs) (line_chars xs) bs = (t, n, out)"
  shows "n = length (xs @ bs) \<and> out = line_chars (xs @ bs)"
  using assms
proof (induction bs arbitrary: xs t)
  case (Cons b bs)
  from Cons.prems obtain t' where
      "hexdump_loop indent (length (xs @ [b])) (line_chars (xs @ [b])) bs = (t', n, out)"
    using line_chars_step [of indent xs b] by (auto simp: Let_def split: prod.splits)
  from Cons.IH [OF this] show ?case by simp
qed simp

end
