(* ===== verification/TCP_Config.thy ===== *)
theory TCP_Config
  imports Address TCP_Sender
begin

text \<open>
  The configuration records of \<open>tcp_helpers/tcp_config.hh\<close> with their default member values. Those of
  \<open>FdAdapterConfig\<close> resolve an address, so making one is an operation that may throw. The constants are
  the default arguments of the constructor of \<open>TCPSender\<close>.
\<close>

section \<open>Definitions\<close>

definition DEFAULT_CAPACITY :: u64 where
  "DEFAULT_CAPACITY = 64000"

definition TIMEOUT_DFLT :: u16 where
  "TIMEOUT_DFLT = 1000"

definition MAX_RETX_ATTEMPTS :: u32 where
  "MAX_RETX_ATTEMPTS = 8"

record TCPConfig =
  tc_rt_timeout :: u16
  tc_recv_capacity :: u64
  tc_send_capacity :: u64
  tc_fixed_isn :: "WrappingInt32 option"

definition TCPConfig_default :: TCPConfig where
  "TCPConfig_default =
     \<lparr>tc_rt_timeout = TIMEOUT_DFLT, tc_recv_capacity = DEFAULT_CAPACITY, tc_send_capacity = DEFAULT_CAPACITY, tc_fixed_isn = None\<rparr>"

record FdAdapterConfig =
  fa_source :: Address
  fa_destination :: Address
  fa_loss_rate_dn :: u16
  fa_loss_rate_up :: u16

definition FdAdapterConfig_default :: "'w kernel \<Rightarrow> ('w, FdAdapterConfig) io" where
  "FdAdapterConfig_default K =
     io_bind (Address_of_ip K ''0'' 0) (\<lambda>source.
     io_bind (Address_of_ip K ''0'' 0) (\<lambda>destination.
     io_return \<lparr>fa_source = source, fa_destination = destination, fa_loss_rate_dn = 0, fa_loss_rate_up = 0\<rparr>))"

text \<open>A sender made without arguments: the default arguments of its constructor.\<close>

definition TCPSender_default :: "u32 \<Rightarrow> TCPSender" where
  "TCPSender_default random = TCPSender_new DEFAULT_CAPACITY TIMEOUT_DFLT None random"

lemma TCPSender_default_inv: "length s < 2 ^ 63 - 2 \<Longrightarrow> snd_inv s (TCPSender_default random)"
  unfolding TCPSender_default_def by (rule snd_inv_new)

section \<open>The addresses are well formed\<close>

lemma FdAdapterConfig_ok:
  assumes "FdAdapterConfig_default K s = (Inr config, s')"
  shows "address_ok (fa_source config) \<and> address_ok (fa_destination config)"
proof -
  obtain a s1 where a: "Address_of_ip K ''0'' 0 s = (Inr a, s1)"
    using assms by (auto simp: FdAdapterConfig_default_def io_bind_def split: prod.splits sum.splits)
  obtain b s2 where b: "Address_of_ip K ''0'' 0 s1 = (Inr b, s2)"
    using assms a by (auto simp: FdAdapterConfig_default_def io_bind_def split: prod.splits sum.splits)
  have "fa_source config = a" "fa_destination config = b"
    using assms a b by (auto simp: FdAdapterConfig_default_def io_bind_def io_return_def)
  with resolve_ok [OF a [unfolded Address_of_ip_def]] resolve_ok [OF b [unfolded Address_of_ip_def]]
  show ?thesis by simp
qed

end
