(* ===== verification/Entropy_And_Time.thy ===== *)
theory Entropy_And_Time
  imports Sponge_Prelude
begin

text \<open>
  The functions of \<open>util.cc\<close> that read the clock and the random device: \<open>timestamp_ms\<close> and
  \<open>get_random_generator\<close>. The steady clock and the device are parameters; the seeding of
  \<open>std::mt19937\<close> through \<open>std::seed_seq\<close> follows the C++ standard.
\<close>

unbundle bit_operations_syntax

section \<open>The clock\<close>

text \<open>\<open>std::chrono::duration_cast\<close> from nanoseconds to milliseconds: division rounding towards zero.\<close>

definition to_milliseconds :: "int \<Rightarrow> int" where
  "to_milliseconds d = sgn d * (\<bar>d\<bar> div 1000000)"

text \<open>
  The static variable \<open>program_start\<close> is \<open>None\<close> until the first call, which initialises it before it
  reads the clock again.
\<close>

definition timestamp_ms :: "('w \<Rightarrow> int \<times> 'w) \<Rightarrow> int option \<Rightarrow> 'w \<Rightarrow> u64 \<times> int option \<times> 'w" where
  "timestamp_ms clock program_start w =
     (let (start, w1) = (case program_start of Some t \<Rightarrow> (t, w) | None \<Rightarrow> clock w);
          (now, w2) = clock w1
      in (word_of_int (to_milliseconds (now - start)), Some start, w2))"

section \<open>The random generator\<close>

text \<open>\<open>std::seed_seq::generate\<close> of \<open>n\<close> words from the words \<open>v\<close>.\<close>

definition seed_mix :: "u32 \<Rightarrow> u32" where
  "seed_mix x = x XOR drop_bit 27 x"

definition seed_first :: "u32 list \<Rightarrow> nat \<Rightarrow> nat \<Rightarrow> nat \<Rightarrow> nat \<Rightarrow> u32 list \<Rightarrow> u32 list" where
  "seed_first v n p q k b =
     (let s = length v; i = k mod n; j = (k + p) mod n; l = (k + q) mod n;
          r1 = 1664525 * seed_mix (b ! i XOR b ! j XOR b ! ((k + n - 1) mod n));
          r2 = r1 + (if k = 0 then word_of_nat s
                     else if k \<le> s then word_of_nat i + v ! (k - 1)
                     else word_of_nat i);
          b1 = b[j := b ! j + r1];
          b2 = b1[l := b1 ! l + r2]
      in b2[i := r2])"

definition seed_second :: "nat \<Rightarrow> nat \<Rightarrow> nat \<Rightarrow> nat \<Rightarrow> u32 list \<Rightarrow> u32 list" where
  "seed_second n p q k b =
     (let i = k mod n; j = (k + p) mod n; l = (k + q) mod n;
          r3 = 1566083941 * seed_mix (b ! i + b ! j + b ! ((k + n - 1) mod n));
          r4 = r3 - word_of_nat i;
          b1 = b[j := b ! j XOR r3];
          b2 = b1[l := b1 ! l XOR r4]
      in b2[i := r4])"

definition seed_seq_generate :: "u32 list \<Rightarrow> nat \<Rightarrow> u32 list" where
  "seed_seq_generate v n =
     (let t = (if 623 \<le> n then 11 else if 68 \<le> n then 7 else if 39 \<le> n then 5 else if 7 \<le> n then 3 else (n - 1) div 2);
          p = (n - t) div 2;
          q = p + t;
          m = max (length v + 1) n
      in fold (seed_second n p q) [m..<m + n] (fold (seed_first v n p q) [0..<m] (replicate n 0x8b8b8b8b)))"

definition state_size :: nat where
  "state_size = 624"

record mt19937 =
  mt_state :: "u32 list"
  mt_index :: nat

text \<open>A state whose significant bits are all zero, from which the engine would not move.\<close>

definition mt_dead :: "u32 list \<Rightarrow> bool" where
  "mt_dead x \<longleftrightarrow> x ! 0 AND 0x80000000 = 0 \<and> (\<forall>i \<in> set [1..<length x]. x ! i = 0)"

definition mt19937_of_seed_seq :: "u32 list \<Rightarrow> mt19937" where
  "mt19937_of_seed_seq v =
     (let x = seed_seq_generate v state_size
      in \<lparr>mt_state = (if mt_dead x then x[0 := 0x80000000] else x), mt_index = state_size\<rparr>)"

text \<open>\<open>std::generate\<close>: one call of the device for each word, in order.\<close>

fun draw :: "('w \<Rightarrow> u32 \<times> 'w) \<Rightarrow> nat \<Rightarrow> 'w \<Rightarrow> u32 list \<times> 'w" where
  "draw rd 0 w = ([], w)"
| "draw rd (Suc n) w = (let (x, w1) = rd w; (xs, w2) = draw rd n w1 in (x # xs, w2))"

definition get_random_generator :: "('w \<Rightarrow> u32 \<times> 'w) \<Rightarrow> 'w \<Rightarrow> mt19937 \<times> 'w" where
  "get_random_generator rd w = (let (seed_data, w1) = draw rd state_size w in (mt19937_of_seed_seq seed_data, w1))"

section \<open>Time does not run backwards\<close>

text \<open>
  With a clock that never goes back, the first call measures from itself, every later call from the
  first one, and the results do not decrease.
\<close>

lemma to_milliseconds_mono: "0 \<le> a \<Longrightarrow> a \<le> b \<Longrightarrow> to_milliseconds a \<le> to_milliseconds b"
  by (cases "a = 0") (auto simp: to_milliseconds_def zdiv_mono1 sgn_if)

lemma timestamps_increase:
  assumes steady: "\<And>w t1 w1 t2 w2. clock w = (t1, w1) \<Longrightarrow> clock w1 = (t2, w2) \<Longrightarrow> t1 \<le> t2"
    and first: "timestamp_ms clock None w = (t1, p1, w1)" and second: "timestamp_ms clock p1 w1 = (t2, p2, w2)"
    and range: "\<And>w t w'. clock w = (t, w') \<Longrightarrow> 0 \<le> t \<and> t < 2 ^ 63"
  shows "t1 \<le> t2" and "p2 = p1" and "p1 = Some (fst (clock w))"
proof -
  obtain s v where c0: "clock w = (s, v)" by (cases "clock w")
  obtain a v1 where c1: "clock v = (a, v1)" by (cases "clock v")
  obtain b v2 where c2: "clock v1 = (b, v2)" by (cases "clock v1")
  have p1: "p1 = Some s" and w1: "w1 = v1" and t1: "t1 = word_of_int (to_milliseconds (a - s))"
    using first by (simp_all add: timestamp_ms_def c0 c1)
  have p2: "p2 = Some s" and t2: "t2 = word_of_int (to_milliseconds (b - s))"
    using second by (simp_all add: timestamp_ms_def p1 w1 c2)
  have le: "0 \<le> a - s" "a - s \<le> b - s" using steady [OF c0 c1] steady [OF c1 c2] by simp_all
  have bound: "b - s < 2 ^ 63" using range [OF c2] range [OF c0] by simp
  have "0 \<le> to_milliseconds d \<and> to_milliseconds d < 2 ^ 64" if "0 \<le> d" "d < 2 ^ 63" for d
  proof -
    have "d div 1000000 \<le> d" using that(1) by linarith
    then show ?thesis using that by (auto simp: to_milliseconds_def sgn_if)
  qed
  then have "uint (word_of_int (to_milliseconds d) :: u64) = to_milliseconds d" if "0 \<le> d" "d < 2 ^ 63" for d
    using that by (simp add: uint_word_of_int_eq take_bit_int_eq_self)
  then show "t1 \<le> t2" using le bound to_milliseconds_mono [OF le] by (simp add: t1 t2 word_le_def)
  show "p2 = p1" "p1 = Some (fst (clock w))" by (simp_all add: p1 p2 c0)
qed

section \<open>The generator is well seeded\<close>

lemma length_seed_steps:
  "length (seed_first v n p q k b) = length b" "length (seed_second n p q k b) = length b"
  by (simp_all add: seed_first_def seed_second_def Let_def)

lemma length_fold: "(\<And>k b. length (f k b) = length b) \<Longrightarrow> length (fold f ks b) = length b"
  by (induction ks arbitrary: b) simp_all

lemma length_seed_seq_generate [simp]: "length (seed_seq_generate v n) = n"
  by (simp add: seed_seq_generate_def Let_def length_fold length_seed_steps)

lemma seed_seq_example:
  "seed_seq_generate [1, 2, 3, 4, 5] 10 =
     [4204997637, 4246533866, 1856049002, 1129615051, 690460811, 1075771511, 46783058, 3904109078, 1534123438, 1495905678]"
  by code_simp

text \<open>The engine has its 624 words, never the dead state, and makes new words before the first use.\<close>

lemma get_random_generator_ok:
  assumes "get_random_generator rd w = (g, w')"
  shows "length (mt_state g) = 624 \<and> \<not> mt_dead (mt_state g) \<and> mt_index g = 624"
proof -
  obtain v where g: "g = mt19937_of_seed_seq v"
    using assms by (auto simp: get_random_generator_def split: prod.splits)
  have "\<not> mt_dead (x[0 := 0x80000000])" if "length x = 624" for x
    using that by (cases x) (simp_all add: mt_dead_def)
  then show ?thesis by (auto simp: g mt19937_of_seed_seq_def Let_def state_size_def)
qed

lemma draw_length: "draw rd n w = (xs, w') \<Longrightarrow> length xs = n"
  by (induction n arbitrary: w xs) (auto split: prod.splits)

end
