(* ===== verification/Spec2Isabelle.thy ===== *)
theory Spec2Isabelle
  imports Sender_Properties TCP_Channel Event_Loop Webget Diagnostics TCP_Config Entropy_And_Time
begin

text \<open>
  A verification library for \<open>sponge\<close>, a user-space TCP implementation in C++ with the utilities it
  is built on and a small web client.

  \<^bold>\<open>The program.\<close> An application writes bytes into a \<open>ByteStream\<close>; the \<open>TCPSender\<close> cuts them into
  \<open>TCPSegment\<close>s, numbers these with 32-bit \<open>WrappingInt32\<close> sequence numbers, keeps what is
  outstanding and retransmits it on a \<open>RetransmissionTimer\<close>. The \<open>TCPReceiver\<close> on the other side
  unwraps the numbers and pushes the payloads into a \<open>StreamReassembler\<close>, whose output is again a
  \<open>ByteStream\<close>; its acknowledgement number and window go back to the sender. Segments travel as
  bytes: \<open>TCPHeader\<close> and \<open>TCPSegment\<close> use \<open>NetParser\<close>, \<open>NetUnparser\<close>, \<open>Buffer\<close>s and
  \<open>InternetChecksum\<close>. Beside this stand wrappers of the system: \<open>SystemCall\<close>, \<open>FileDescriptor\<close>,
  \<open>Address\<close>, the socket classes, TUN and TAP devices, the \<open>EventLoop\<close>, and the program \<open>webget\<close>.

  \<^bold>\<open>Conventions\<close> (\<open>Sponge_Prelude\<close>). A class is a record with one field per member, an enum a
  datatype, a method a function from the object and its arguments to the result and the new object.
  Integers are words of their C++ width and wrap around. Exceptions and undefined behaviour are
  values of \<open>cpp_error\<close>, results are of type \<open>cpp_error + 'a\<close>; an access out of range is
  \<open>UndefinedBehaviour\<close>, so a theorem that an operation gives \<open>Inr\<close> shows that it stays in range.
  Memory is unbounded: allocation does not fail.

  \<^bold>\<open>The theories, their sources and what they show.\<close>

  \<^item> \<open>Wrapping_Integers\<close> (\<open>libsponge/wrapping_integers\<close>): \<open>wrap\<close> and \<open>unwrap\<close> at their widths. The
    interface \<open>seq_codec\<close> states the round trip; \<open>unwrap\<close> gives the closest number for checkpoints
    below \<open>2^63\<close>, and does not from there on.
  \<^item> \<open>Byte_Stream\<close> (\<open>byte_stream\<close>): every method; the interface \<open>byte_channel\<close> states the laws of a
    bounded first-in first-out channel, from which order and counting follow for all interleavings.
  \<^item> \<open>Stream_Reassembler\<close> (\<open>stream_reassembler\<close>): \<open>push_substring\<close> with its sliding window, step by
    step; its refinement of a partial map from indices to bytes, the memory bound, and through the
    interface \<open>assembler\<close> that any order of excerpts is assembled into a prefix, and into the whole
    once everything was pushed.
  \<^item> \<open>Buffers\<close> (\<open>util/buffer\<close>), \<open>Net_Parser\<close> (\<open>util/parser\<close>), \<open>Internet_Checksum\<close>
    (\<open>util/util\<close>), \<open>TCP_Header\<close> and \<open>TCP_Segment\<close> (\<open>tcp_helpers\<close>): the wire format, with the
    interfaces \<open>discardable\<close> and \<open>net_codec\<close>; round trips on every level, what the parser makes of
    arbitrary bytes, and what the checksum detects.
  \<^item> \<open>Stream_Segments\<close>: which segments are pieces of a given stream; shared by sender and receiver.
  \<^item> \<open>TCP_Receiver\<close> (\<open>tcp_receiver\<close>): simulation of the receiver by the reassembler on unwrapped
    indices, safety and completeness over all arrival orders, and a stray FIN that ends the stream.
    \<open>Long_Streams\<close>: the same safety for streams beyond the 32-bit sequence space, as an invariant of
    the runs in which segments arrive near the receiver's position.
  \<^item> \<open>Retransmission_Timer\<close> (\<open>retransmission_timer\<close>), \<open>TCP_Sender\<close> and \<open>Sender_Properties\<close>
    (\<open>tcp_sender\<close>): the sender's invariant over all runs, also where sequence numbers wrap, and the
    behaviour of \<open>fill_window\<close>, \<open>ack_received\<close> and \<open>tick\<close>. \<open>fill_window\<close> is a total function; the
    bound on its recursion is a theorem.
  \<^item> \<open>TCP_State\<close> (\<open>tcp_helpers/tcp_state\<close>): the summaries of sender and receiver.
  \<^item> \<open>TCP_System\<close>, \<open>TCP_Progress\<close> and \<open>TCP_Channel\<close>: sender and receiver joined by a network that may
    lose, duplicate and reorder packets, as a step relation. In every reachable state the reader has a
    prefix of what the writer sends; a sender that is finished knows that everything arrived; from
    every reachable state with at most \<open>2^31\<close> numbers in flight the transfer can still be completed;
    and through the interface \<open>simulation\<close> every run is a run of an abstract channel of bytes.
  \<^item> \<open>System_Calls\<close> (\<open>util/util\<close>), \<open>File_Descriptor\<close> (\<open>util/file_descriptor\<close>), \<open>Address\<close>
    (\<open>util/address\<close>), \<open>Sockets\<close> (\<open>util/socket\<close>, \<open>util/tun\<close>), \<open>Event_Loop\<close> (\<open>util/eventloop\<close>),
    \<open>Webget\<close> (\<open>apps/webget.cc\<close>): operations on a \<open>system\<close>, that is a store of reference-counted
    \<open>FDWrapper\<close>s, standard output and error, and a world behind them. The system calls and the
    resolver are the record \<open>kernel\<close>, a parameter of all definitions; what the manual pages promise
    of single calls is stated as named predicates (\<open>stream_sink\<close>, \<open>stream_source\<close>,
    \<open>datagram_source\<close>, \<open>tcp_connection\<close>), each satisfied by an example kernel. Shown are complete
    writing, exact reading, whole datagrams, well-formed addresses, the safety of the event loop for
    callbacks that add no rules, what it polls for which rule and which callbacks it calls, that a
    callback which adds rules never lets it return in order, and that \<open>webget\<close> prints the server's
    answer. The interface \<open>untouched\<close> collects what no operation on an open descriptor changes.
  \<^item> \<open>Diagnostics\<close> (\<open>hexdump\<close>, the printers of \<open>TCPHeader\<close>): the text they print. \<open>TCP_Config\<close>
    (\<open>tcp_helpers/tcp_config.hh\<close>): the configuration records and the default sender.
  \<^item> \<open>Entropy_And_Time\<close> (\<open>util/util.cc\<close>): \<open>timestamp_ms\<close> and \<open>get_random_generator\<close> over a given
    clock and random device; time does not run backwards, and the generator is never seeded dead.

  \<^bold>\<open>Bounds.\<close> Theorems on the sender and on the network take streams of up to \<open>2^63\<close> bytes, the range
  in which \<open>unwrap\<close> is right. Since a 32-bit number stands for many absolute ones, they need that
  packets are not delayed without end: a packet arrives while its absolute number is within \<open>2^31\<close> of
  the position of the side it arrives at, and an acknowledgement while at most \<open>2^31\<close> numbers are in
  flight. Streams shorter than \<open>2^31 - 2\<close> bytes satisfy this by themselves; the theorems of
  \<open>TCP_Receiver\<close>, where segments arrive however late, take such streams, and \<open>Long_Streams\<close> those of
  any length whose segments arrive in time. Capacities and stream indices together
  stay below \<open>2^64\<close>, so that the 64-bit indices of the reassembler do not wrap. Texts handed to
  \<open>write\<close> are shorter than \<open>2^63\<close> bytes, the range of \<open>ssize_t\<close>. No fuel is used: loops are
  structural or come with a termination proof, and the three whose end depends on code outside (the
  two of \<open>wait_next_event\<close>, the printing loop of \<open>get_URL\<close>) are partial functions with \<open>None\<close> for
  not returning; that they return is part of the theorems about them.

  \<^bold>\<open>Not modelled.\<close> The output of the generator of \<open>get_random_generator\<close>, which no code draws from;
  the sender takes its random number as an argument. The fill character that \<open>hexdump\<close> leaves set on
  \<open>cout\<close>. The identity of the error category objects, of which only name and messages are kept. Casts
  between views of the same storage (\<open>Address::Raw\<close>), deleted copy operations and the empty template
  \<open>DUMMY_CODE\<close>, which have no effect. Reference counts of \<open>Buffer\<close>, since sharing is not observable
  there. Tests, documentation examples and build files, which call the library and are no part of it.
  The classes that join sender and receiver to a connection are not part of the repository;
  \<open>TCP_System\<close> stands in for them with the interactions that the comments in \<open>tcp_sender.hh\<close> and
  \<open>tcp_receiver.hh\<close> describe.
\<close>

end
